theory Spec2Isabelle
  imports Main "HOL-Library.Word"
begin

section \<open>Common conventions\<close>

text \<open>
  The two engines of libdict (\<^verbatim>\<open>hb_tree.c\<close> and \<^verbatim>\<open>skiplist.c\<close>) are embedded as HOL
  functions. A C function that can stop without returning a value is a function into
  \<open>error + 'a\<close>: \<open>AssertFailed\<close> is an \<^verbatim>\<open>ASSERT\<close> whose condition is false (the library
  aborts), \<open>BadAccess\<close> is a load or store through a null, dangling or out-of-range
  pointer, and \<open>Diverged\<close> is a pointer-chasing loop that never ends (the value \<open>None\<close>
  of the \<open>partial_function\<close> that embeds the loop).

  Opaque \<^verbatim>\<open>void*\<close> data are values of type \<open>'d option\<close>, \<open>None\<close> being the null
  pointer. \<^verbatim>\<open>MALLOC\<close> is a collaborator: its answer is an argument of every function
  that allocates. The optional cleanup callback \<^verbatim>\<open>del_func\<close> is a flag (was one
  supplied?) and its calls are appended to a log kept in the container.
  \<^verbatim>\<open>size_t\<close> is a 64-bit word, \<^verbatim>\<open>unsigned\<close> a 32-bit word where its wrap-around
  matters (the random generator) and a natural number where it is a small index.
\<close>

datatype error = AssertFailed | BadAccess | Diverged

text \<open>The comparison callback is a strict total order when it is a three-way
  comparison: zero exactly on equal keys, antisymmetric, transitive.\<close>

definition strict_total_order :: "('a \<Rightarrow> 'a \<Rightarrow> int) \<Rightarrow> bool" where
  "strict_total_order c \<longleftrightarrow>
     (\<forall>a b. c a b = 0 \<longleftrightarrow> a = b) \<and>
     (\<forall>a b. c a b < 0 \<longleftrightarrow> 0 < c b a) \<and>
     (\<forall>a b d. c a b < 0 \<longrightarrow> c b d < 0 \<longrightarrow> c a d < 0)"

section \<open>The skip list (skiplist.c)\<close>

subsection \<open>Nodes, the store and the list\<close>

type_synonym addr = nat

record ('k, 'd) skip_node =
  key :: "'k option"
  datum :: "'d option"
  prev :: "addr option"
  link_count :: nat
  link :: "addr option list"

type_synonym ('k, 'd) store = "addr \<Rightarrow> ('k, 'd) skip_node option"

record ('k, 'd) skiplist =
  head :: addr
  max_link :: nat
  top_link :: nat
  cmp_func :: "'k option \<Rightarrow> 'k option \<Rightarrow> int"
  del_func :: bool
  count :: "64 word"
  randgen :: "32 word"
  heap :: "('k, 'd) store"
  deleted :: "('k option \<times> 'd option) list"

definition MAX_LINK :: nat where
  "MAX_LINK = 32"

definition RGEN_A :: "32 word" where
  "RGEN_A = 1664525"

definition RGEN_M :: "32 word" where
  "RGEN_M = 1013904223"

text \<open>\<open>deref h p\<close> is \<^verbatim>\<open>*p\<close>, \<open>get_link n k\<close> is \<^verbatim>\<open>n->link[k]\<close> (the array has the
  length the node was allocated with), \<open>load_link h p k\<close> is \<^verbatim>\<open>p->link[k]\<close>.\<close>

definition deref :: "('k, 'd) store \<Rightarrow> addr option \<Rightarrow> error + ('k, 'd) skip_node" where
  "deref h p = (case p of None \<Rightarrow> Inl BadAccess
                | Some a \<Rightarrow> (case h a of None \<Rightarrow> Inl BadAccess | Some n \<Rightarrow> Inr n))"

definition get_link :: "('k, 'd) skip_node \<Rightarrow> nat \<Rightarrow> error + addr option" where
  "get_link n k = (if k < length (link n) then Inr (link n ! k) else Inl BadAccess)"

definition load_link :: "('k, 'd) store \<Rightarrow> addr option \<Rightarrow> nat \<Rightarrow> error + addr option" where
  "load_link h p k = (case deref h p of Inl e \<Rightarrow> Inl e | Inr n \<Rightarrow> get_link n k)"

definition store_link ::
  "('k, 'd) store \<Rightarrow> addr option \<Rightarrow> nat \<Rightarrow> addr option \<Rightarrow> error + ('k, 'd) store" where
  "store_link h p k v =
     (case p of None \<Rightarrow> Inl BadAccess
      | Some a \<Rightarrow>
         (case h a of None \<Rightarrow> Inl BadAccess
          | Some n \<Rightarrow> if k < length (link n) then Inr (h(a \<mapsto> n\<lparr>link := (link n)[k := v]\<rparr>))
                      else Inl BadAccess))"

definition store_prev ::
  "('k, 'd) store \<Rightarrow> addr option \<Rightarrow> addr option \<Rightarrow> error + ('k, 'd) store" where
  "store_prev h p v =
     (case p of None \<Rightarrow> Inl BadAccess
      | Some a \<Rightarrow> (case h a of None \<Rightarrow> Inl BadAccess | Some n \<Rightarrow> Inr (h(a \<mapsto> n\<lparr>prev := v\<rparr>))))"

text \<open>The local array \<^verbatim>\<open>skip_node *update[MAX_LINK]\<close>.\<close>

definition array_get :: "'a list \<Rightarrow> nat \<Rightarrow> error + 'a" where
  "array_get xs k = (if k < length xs then Inr (xs ! k) else Inl BadAccess)"

definition array_set :: "'a list \<Rightarrow> nat \<Rightarrow> 'a \<Rightarrow> error + 'a list" where
  "array_set xs k v = (if k < length xs then Inr (xs[k := v]) else Inl BadAccess)"

subsection \<open>Construction and level draw\<close>

text \<open>\<^verbatim>\<open>node_new\<close>: \<open>alloc\<close> is what \<^verbatim>\<open>MALLOC\<close> answers (\<open>None\<close> is the null pointer).\<close>

definition node_new ::
  "('k, 'd) store \<Rightarrow> addr option \<Rightarrow> 'k option \<Rightarrow> 'd option \<Rightarrow> nat
     \<Rightarrow> error + (addr option \<times> ('k, 'd) store)" where
  "node_new h alloc ky dt lc =
     (if \<not> 1 \<le> lc then Inl AssertFailed
      else (case alloc of None \<Rightarrow> Inr (None, h)
            | Some a \<Rightarrow>
                Inr (Some a, h(a \<mapsto> \<lparr>key = ky, datum = dt, prev = None, link_count = lc,
                                      link = replicate lc None\<rparr>))))"

text \<open>\<^verbatim>\<open>skiplist_new\<close>: \<open>alloc_list\<close> says whether the allocation of the list structure
  succeeds, \<open>alloc_head\<close> is the allocation of the head node, \<open>seed\<close> is what
  \<^verbatim>\<open>rand()\<close> answers, and \<open>dict_ptr_cmp\<close> is the library's default comparison (declared
  in a header that is not part of the two source files). The result is \<open>None\<close> when the
  function returns the null pointer.\<close>

definition skiplist_new ::
  "('k option \<Rightarrow> 'k option \<Rightarrow> int) \<Rightarrow> ('k option \<Rightarrow> 'k option \<Rightarrow> int) option \<Rightarrow> bool \<Rightarrow> nat
     \<Rightarrow> bool \<Rightarrow> addr option \<Rightarrow> 32 word \<Rightarrow> error + ('k, 'd) skiplist option" where
  "skiplist_new dict_ptr_cmp cmp del ml alloc_list alloc_head seed =
     (if \<not> 0 < ml then Inl AssertFailed
      else
        let ml' = (if ml > MAX_LINK then MAX_LINK else ml) in
        if \<not> alloc_list then Inr None
        else (case node_new (\<lambda>_. None) alloc_head None None ml' of
                Inl e \<Rightarrow> Inl e
              | Inr (None, _) \<Rightarrow> Inr None
              | Inr (Some a, h) \<Rightarrow>
                  Inr (Some \<lparr>head = a, max_link = ml', top_link = 0,
                             cmp_func = (case cmp of None \<Rightarrow> dict_ptr_cmp | Some c \<Rightarrow> c),
                             del_func = del, count = 0, randgen = seed, heap = h,
                             deleted = []\<rparr>)))"

text \<open>\<^verbatim>\<open>rand_link_count\<close>: the loop \<^verbatim>\<open>for (; i+1 < max_link; ++i) if (r > (1U<<(32-i))) break;\<close>
  with \<open>i\<close> starting at 1. Construction clamps \<open>max_link\<close> to 32, so the shift count
  \<open>32 - i\<close> stays between 2 and 31.\<close>

function rand_link_loop :: "32 word \<Rightarrow> nat \<Rightarrow> nat \<Rightarrow> nat" where
  "rand_link_loop r ml i =
     (if i + 1 < ml then (if r > push_bit (32 - i) 1 then i else rand_link_loop r ml (i + 1))
      else i)"
  by pat_completeness auto
termination
  by (relation "measure (\<lambda>(r, ml, i). ml - i)") auto

declare rand_link_loop.simps [simp del]

definition rand_link_count :: "('k, 'd) skiplist \<Rightarrow> nat \<times> ('k, 'd) skiplist" where
  "rand_link_count l =
     (let r = randgen l * RGEN_A + RGEN_M
      in (rand_link_loop r (max_link l) 1, l\<lparr>randgen := r\<rparr>))"

subsection \<open>Descent\<close>

text \<open>The inner loop of insert and remove at level \<open>lv\<close>:
  \<^verbatim>\<open>while (x->link[k] && cmp(key, x->link[k]->key) > 0) x = x->link[k];\<close>\<close>

partial_function (option) skip_advance ::
  "('k, 'd) skiplist \<Rightarrow> 'k option \<Rightarrow> nat \<Rightarrow> addr \<Rightarrow> (error + addr) option" where
  "skip_advance l ky lv x =
     (case load_link (heap l) (Some x) lv of
        Inl e \<Rightarrow> Some (Inl e)
      | Inr None \<Rightarrow> Some (Inr x)
      | Inr (Some y) \<Rightarrow>
          (case deref (heap l) (Some y) of
             Inl e \<Rightarrow> Some (Inl e)
           | Inr yn \<Rightarrow>
               if cmp_func l ky (key yn) > 0 then skip_advance l ky lv y
               else Some (Inr x)))"

declare skip_advance.simps [code]

text \<open>The outer loop \<^verbatim>\<open>for (k = top_link+1; k-->0; )\<close> of insert and remove; the first
  argument after the key is the number of levels still to visit.\<close>

fun skip_find ::
  "('k, 'd) skiplist \<Rightarrow> 'k option \<Rightarrow> nat \<Rightarrow> addr \<Rightarrow> addr option list
     \<Rightarrow> error + (addr \<times> addr option list)" where
  "skip_find l ky 0 x upd = Inr (x, upd)"
| "skip_find l ky (Suc lv) x upd =
     (case deref (heap l) (Some x) of
        Inl e \<Rightarrow> Inl e
      | Inr xn \<Rightarrow>
          if \<not> lv < link_count xn then Inl AssertFailed
          else (case skip_advance l ky lv x of
                  None \<Rightarrow> Inl Diverged
                | Some (Inl e) \<Rightarrow> Inl e
                | Some (Inr y) \<Rightarrow>
                    (case array_set upd lv (Some y) of
                       Inl e \<Rightarrow> Inl e
                     | Inr upd' \<Rightarrow> skip_find l ky lv y upd')))"

text \<open>The inner loop of search and probe; \<open>chk\<close> is set for probe, whose loop has the
  additional \<^verbatim>\<open>ASSERT(x->link_count > k)\<close>. The result says whether a node with an
  equal key was reached, and where the loop stands.\<close>

partial_function (option) skip_seek ::
  "('k, 'd) skiplist \<Rightarrow> bool \<Rightarrow> 'k option \<Rightarrow> nat \<Rightarrow> addr \<Rightarrow> (error + bool \<times> addr) option" where
  "skip_seek l chk ky lv x =
     (case load_link (heap l) (Some x) lv of
        Inl e \<Rightarrow> Some (Inl e)
      | Inr None \<Rightarrow> Some (Inr (False, x))
      | Inr (Some y) \<Rightarrow>
          (case deref (heap l) (Some y) of
             Inl e \<Rightarrow> Some (Inl e)
           | Inr yn \<Rightarrow>
               if cmp_func l ky (key yn) < 0 then Some (Inr (False, x))
               else if chk \<and> \<not> lv < link_count yn then Some (Inl AssertFailed)
               else if cmp_func l ky (key yn) = 0 then Some (Inr (True, y))
               else skip_seek l chk ky lv y))"

declare skip_seek.simps [code]

subsection \<open>Insertion\<close>

text \<open>\<^verbatim>\<open>node_insert\<close>, first loop:
  \<^verbatim>\<open>for (k = top_link+1; k <= nlinks; k++) { ASSERT(!update[k]); update[k] = head; }\<close>\<close>

fun node_insert_raise ::
  "addr \<Rightarrow> nat list \<Rightarrow> addr option list \<Rightarrow> error + addr option list" where
  "node_insert_raise hd_a [] upd = Inr upd"
| "node_insert_raise hd_a (k # ks) upd =
     (case array_get upd k of
        Inl e \<Rightarrow> Inl e
      | Inr u \<Rightarrow>
          if u \<noteq> None then Inl AssertFailed
          else (case array_set upd k (Some hd_a) of
                  Inl e \<Rightarrow> Inl e
                | Inr upd' \<Rightarrow> node_insert_raise hd_a ks upd'))"

text \<open>\<^verbatim>\<open>node_insert\<close>, second loop:
  \<^verbatim>\<open>for (k = 0; k < nlinks; k++) { ASSERT(update[k]->link_count > k);
      x->link[k] = update[k]->link[k]; update[k]->link[k] = x; }\<close>\<close>

fun node_insert_splice ::
  "addr \<Rightarrow> nat list \<Rightarrow> addr option list \<Rightarrow> ('k, 'd) store \<Rightarrow> error + ('k, 'd) store" where
  "node_insert_splice x [] upd h = Inr h"
| "node_insert_splice x (k # ks) upd h =
     (case array_get upd k of
        Inl e \<Rightarrow> Inl e
      | Inr u \<Rightarrow>
          (case deref h u of
             Inl e \<Rightarrow> Inl e
           | Inr un \<Rightarrow>
               if \<not> k < link_count un then Inl AssertFailed
               else (case get_link un k of
                       Inl e \<Rightarrow> Inl e
                     | Inr nxt \<Rightarrow>
                         (case store_link h (Some x) k nxt of
                            Inl e \<Rightarrow> Inl e
                          | Inr h1 \<Rightarrow>
                              (case store_link h1 u k (Some x) of
                                 Inl e \<Rightarrow> Inl e
                               | Inr h2 \<Rightarrow> node_insert_splice x ks upd h2)))))"

text \<open>\<^verbatim>\<open>x->prev = update[0]; if (update[0]->link[0]) update[0]->link[0]->prev = x;\<close>\<close>

definition node_insert_prev ::
  "addr \<Rightarrow> addr option list \<Rightarrow> ('k, 'd) store \<Rightarrow> error + ('k, 'd) store" where
  "node_insert_prev x upd h =
     (case array_get upd 0 of
        Inl e \<Rightarrow> Inl e
      | Inr u \<Rightarrow>
          (case store_prev h (Some x) u of
             Inl e \<Rightarrow> Inl e
           | Inr h1 \<Rightarrow>
               (case load_link h1 u 0 of
                  Inl e \<Rightarrow> Inl e
                | Inr None \<Rightarrow> Inr h1
                | Inr (Some s) \<Rightarrow> store_prev h1 (Some s) (Some x))))"

text \<open>\<^verbatim>\<open>node_insert\<close>. The level count is drawn, and the generator state advanced,
  before the node is allocated. The result is the new node, or \<open>None\<close> when the
  allocation failed.\<close>

definition node_insert ::
  "('k, 'd) skiplist \<Rightarrow> 'k option \<Rightarrow> 'd option \<Rightarrow> addr option list \<Rightarrow> addr option
     \<Rightarrow> error + (addr option \<times> ('k, 'd) skiplist)" where
  "node_insert l ky dt upd alloc =
     (let (nlinks, l1) = rand_link_count l in
      if \<not> nlinks < max_link l1 then Inl AssertFailed
      else (case node_new (heap l1) alloc ky dt nlinks of
              Inl e \<Rightarrow> Inl e
            | Inr (None, _) \<Rightarrow> Inr (None, l1)
            | Inr (Some x, h1) \<Rightarrow>
                (case (if top_link l1 < nlinks
                       then (case node_insert_raise (head l1) [top_link l1 + 1 ..< nlinks + 1] upd of
                               Inl e \<Rightarrow> Inl e
                             | Inr upd' \<Rightarrow> Inr (upd', nlinks))
                       else Inr (upd, top_link l1)) of
                   Inl e \<Rightarrow> Inl e
                 | Inr (upd2, top2) \<Rightarrow>
                     (case node_insert_prev x upd2 h1 of
                        Inl e \<Rightarrow> Inl e
                      | Inr h2 \<Rightarrow>
                          (case node_insert_splice x [0 ..< nlinks] upd2 h2 of
                             Inl e \<Rightarrow> Inl e
                           | Inr h3 \<Rightarrow>
                               Inr (Some x, l1\<lparr>top_link := top2, heap := h3,
                                                count := count l1 + 1\<rparr>))))))"

text \<open>\<^verbatim>\<open>skiplist_insert\<close>: the result code is 0 (inserted or replaced), 1 (duplicate
  rejected) or -1 (allocation failure).\<close>

definition skiplist_insert ::
  "('k, 'd) skiplist \<Rightarrow> 'k option \<Rightarrow> 'd option \<Rightarrow> bool \<Rightarrow> addr option
     \<Rightarrow> error + (int \<times> ('k, 'd) skiplist)" where
  "skiplist_insert l ky dt overwrite alloc =
     (case skip_find l ky (top_link l + 1) (head l) (replicate MAX_LINK None) of
        Inl e \<Rightarrow> Inl e
      | Inr (x, upd) \<Rightarrow>
          (case load_link (heap l) (Some x) 0 of
             Inl e \<Rightarrow> Inl e
           | Inr x0 \<Rightarrow>
               (case (case x0 of None \<Rightarrow> Inr None
                      | Some a \<Rightarrow>
                          (case deref (heap l) (Some a) of
                             Inl e \<Rightarrow> Inl e
                           | Inr an \<Rightarrow>
                               Inr (if cmp_func l ky (key an) = 0 then Some (a, an) else None))) of
                  Inl e \<Rightarrow> Inl e
                | Inr (Some (a, an)) \<Rightarrow>
                    if \<not> overwrite then Inr (1, l)
                    else Inr (0, l\<lparr>heap := (heap l)(a \<mapsto> an\<lparr>key := ky, datum := dt\<rparr>),
                                  deleted := (if del_func l then deleted l @ [(key an, datum an)]
                                              else deleted l)\<rparr>)
                | Inr None \<Rightarrow>
                    (case node_insert l ky dt upd alloc of
                       Inl e \<Rightarrow> Inl e
                     | Inr (r, l') \<Rightarrow> Inr (if r \<noteq> None then 0 else - 1, l')))))"

subsection \<open>Probe and search\<close>

text \<open>The outer loop of \<^verbatim>\<open>skiplist_probe\<close>; \<open>Inr (Inl a)\<close> is the early return at the
  node \<open>a\<close> with an equal key, \<open>Inr (Inr upd)\<close> the filled \<^verbatim>\<open>update\<close> array.\<close>

fun skip_probe_find ::
  "('k, 'd) skiplist \<Rightarrow> 'k option \<Rightarrow> nat \<Rightarrow> addr \<Rightarrow> addr option list
     \<Rightarrow> error + (addr + addr option list)" where
  "skip_probe_find l ky 0 x upd = Inr (Inr upd)"
| "skip_probe_find l ky (Suc lv) x upd =
     (case deref (heap l) (Some x) of
        Inl e \<Rightarrow> Inl e
      | Inr xn \<Rightarrow>
          if \<not> lv < link_count xn then Inl AssertFailed
          else (case skip_seek l True ky lv x of
                  None \<Rightarrow> Inl Diverged
                | Some (Inl e) \<Rightarrow> Inl e
                | Some (Inr (True, y)) \<Rightarrow> Inr (Inl y)
                | Some (Inr (False, y)) \<Rightarrow>
                    (case array_set upd lv (Some y) of
                       Inl e \<Rightarrow> Inl e
                     | Inr upd' \<Rightarrow> skip_probe_find l ky lv y upd')))"

text \<open>\<^verbatim>\<open>skiplist_probe\<close>: the result is the code (0 found, 1 inserted, -1 allocation
  failure), the value of \<^verbatim>\<open>*datum\<close> on return, and the list.\<close>

definition skiplist_probe ::
  "('k, 'd) skiplist \<Rightarrow> 'k option \<Rightarrow> 'd option \<Rightarrow> addr option
     \<Rightarrow> error + (int \<times> 'd option \<times> ('k, 'd) skiplist)" where
  "skiplist_probe l ky dt alloc =
     (case skip_probe_find l ky (top_link l + 1) (head l) (replicate MAX_LINK None) of
        Inl e \<Rightarrow> Inl e
      | Inr (Inl a) \<Rightarrow>
          (case deref (heap l) (Some a) of
             Inl e \<Rightarrow> Inl e
           | Inr an \<Rightarrow> Inr (0, datum an, l))
      | Inr (Inr upd) \<Rightarrow>
          (case node_insert l ky dt upd alloc of
             Inl e \<Rightarrow> Inl e
           | Inr (r, l') \<Rightarrow> Inr (if r \<noteq> None then 1 else - 1, dt, l')))"

text \<open>\<^verbatim>\<open>skiplist_search\<close>: the result is the datum pointer returned, \<open>None\<close> being
  \<^verbatim>\<open>NULL\<close>.\<close>

fun skip_search_levels ::
  "('k, 'd) skiplist \<Rightarrow> 'k option \<Rightarrow> nat \<Rightarrow> addr \<Rightarrow> error + 'd option" where
  "skip_search_levels l ky 0 x = Inr None"
| "skip_search_levels l ky (Suc lv) x =
     (case skip_seek l False ky lv x of
        None \<Rightarrow> Inl Diverged
      | Some (Inl e) \<Rightarrow> Inl e
      | Some (Inr (True, y)) \<Rightarrow>
          (case deref (heap l) (Some y) of Inl e \<Rightarrow> Inl e | Inr yn \<Rightarrow> Inr (datum yn))
      | Some (Inr (False, y)) \<Rightarrow> skip_search_levels l ky lv y)"

definition skiplist_search :: "('k, 'd) skiplist \<Rightarrow> 'k option \<Rightarrow> error + 'd option" where
  "skiplist_search l ky = skip_search_levels l ky (top_link l + 1) (head l)"

subsection \<open>Removal, clearing and traversal\<close>

text \<open>\<^verbatim>\<open>skiplist_remove\<close>, the unlinking loop:
  \<^verbatim>\<open>for (k = 0; k <= top_link; k++) { ASSERT(update[k] != NULL);
      ASSERT(update[k]->link_count > k); if (update[k]->link[k] != x) break;
      update[k]->link[k] = x->link[k]; }\<close>\<close>

fun skip_unlink ::
  "addr \<Rightarrow> nat list \<Rightarrow> addr option list \<Rightarrow> ('k, 'd) store \<Rightarrow> error + ('k, 'd) store" where
  "skip_unlink x [] upd h = Inr h"
| "skip_unlink x (k # ks) upd h =
     (case array_get upd k of
        Inl e \<Rightarrow> Inl e
      | Inr u \<Rightarrow>
          if u = None then Inl AssertFailed
          else (case deref h u of
                  Inl e \<Rightarrow> Inl e
                | Inr un \<Rightarrow>
                    if \<not> k < link_count un then Inl AssertFailed
                    else (case get_link un k of
                            Inl e \<Rightarrow> Inl e
                          | Inr nxt \<Rightarrow>
                              if nxt \<noteq> Some x then Inr h
                              else (case load_link h (Some x) k of
                                      Inl e \<Rightarrow> Inl e
                                    | Inr xk \<Rightarrow>
                                        (case store_link h u k xk of
                                           Inl e \<Rightarrow> Inl e
                                         | Inr h1 \<Rightarrow> skip_unlink x ks upd h1)))))"

text \<open>\<^verbatim>\<open>while (list->top_link > 0 && !list->head->link[list->top_link]) list->top_link--;\<close>\<close>

fun skip_shrink :: "('k, 'd) store \<Rightarrow> addr \<Rightarrow> nat \<Rightarrow> error + nat" where
  "skip_shrink h hd_a 0 = Inr 0"
| "skip_shrink h hd_a (Suc t) =
     (case load_link h (Some hd_a) (Suc t) of
        Inl e \<Rightarrow> Inl e
      | Inr None \<Rightarrow> skip_shrink h hd_a t
      | Inr (Some _) \<Rightarrow> Inr (Suc t))"

definition skiplist_remove ::
  "('k, 'd) skiplist \<Rightarrow> 'k option \<Rightarrow> error + (bool \<times> ('k, 'd) skiplist)" where
  "skiplist_remove l ky =
     (case skip_find l ky (top_link l + 1) (head l) (replicate MAX_LINK None) of
        Inl e \<Rightarrow> Inl e
      | Inr (x, upd) \<Rightarrow>
          (case load_link (heap l) (Some x) 0 of
             Inl e \<Rightarrow> Inl e
           | Inr None \<Rightarrow> Inr (False, l)
           | Inr (Some a) \<Rightarrow>
               (case deref (heap l) (Some a) of
                  Inl e \<Rightarrow> Inl e
                | Inr an \<Rightarrow>
                    if cmp_func l ky (key an) \<noteq> 0 then Inr (False, l)
                    else (case skip_unlink a [0 ..< top_link l + 1] upd (heap l) of
                            Inl e \<Rightarrow> Inl e
                          | Inr h1 \<Rightarrow>
                              (case deref h1 (Some a) of
                                 Inl e \<Rightarrow> Inl e
                               | Inr an1 \<Rightarrow>
                                   let h2 = h1(a := None) in
                                   (case skip_shrink h2 (head l) (top_link l) of
                                      Inl e \<Rightarrow> Inl e
                                    | Inr t \<Rightarrow>
                                        Inr (True,
                                             l\<lparr>heap := h2, top_link := t, count := count l - 1,
                                               deleted := (if del_func l
                                                           then deleted l @ [(key an1, datum an1)]
                                                           else deleted l)\<rparr>)))))))"

text \<open>\<^verbatim>\<open>skiplist_clear\<close>, the loop that releases the nodes of the bottom chain; the
  result is the store and the cleanup log.\<close>

partial_function (option) skip_free_chain ::
  "bool \<Rightarrow> addr option \<Rightarrow> ('k, 'd) store \<Rightarrow> ('k option \<times> 'd option) list
     \<Rightarrow> (error + ('k, 'd) store \<times> ('k option \<times> 'd option) list) option" where
  "skip_free_chain del node h lg =
     (case node of
        None \<Rightarrow> Some (Inr (h, lg))
      | Some a \<Rightarrow>
          (case deref h (Some a) of
             Inl e \<Rightarrow> Some (Inl e)
           | Inr an \<Rightarrow>
               (case get_link an 0 of
                  Inl e \<Rightarrow> Some (Inl e)
                | Inr nxt \<Rightarrow>
                    skip_free_chain del nxt (h(a := None))
                      (if del then lg @ [(key an, datum an)] else lg))))"

declare skip_free_chain.simps [code]

text \<open>\<^verbatim>\<open>list->head->link[list->top_link] = NULL;
  while (list->top_link) list->head->link[--list->top_link] = NULL;\<close>\<close>

fun skip_reset_head :: "('k, 'd) store \<Rightarrow> addr \<Rightarrow> nat \<Rightarrow> error + ('k, 'd) store" where
  "skip_reset_head h hd_a 0 = Inr h"
| "skip_reset_head h hd_a (Suc t) =
     (case store_link h (Some hd_a) t None of
        Inl e \<Rightarrow> Inl e
      | Inr h1 \<Rightarrow> skip_reset_head h1 hd_a t)"

definition skiplist_clear :: "('k, 'd) skiplist \<Rightarrow> error + (64 word \<times> ('k, 'd) skiplist)" where
  "skiplist_clear l =
     (case load_link (heap l) (Some (head l)) 0 of
        Inl e \<Rightarrow> Inl e
      | Inr first \<Rightarrow>
          (case skip_free_chain (del_func l) first (heap l) (deleted l) of
             None \<Rightarrow> Inl Diverged
           | Some (Inl e) \<Rightarrow> Inl e
           | Some (Inr (h1, lg)) \<Rightarrow>
               (case store_link h1 (Some (head l)) (top_link l) None of
                  Inl e \<Rightarrow> Inl e
                | Inr h2 \<Rightarrow>
                    (case skip_reset_head h2 (head l) (top_link l) of
                       Inl e \<Rightarrow> Inl e
                     | Inr h3 \<Rightarrow>
                         Inr (count l, l\<lparr>heap := h3, top_link := 0, count := 0,
                                         deleted := lg\<rparr>)))))"

text \<open>\<^verbatim>\<open>skiplist_traverse\<close>. The visitor is a callback with effects of its own: it is
  a function from its state and the entry to its answer (continue?) and its next
  state. \<open>Some visit\<close> is a non-null callback.\<close>

partial_function (option) skip_visit_chain ::
  "('k, 'd) store \<Rightarrow> ('s \<Rightarrow> 'k option \<Rightarrow> 'd option \<Rightarrow> bool \<times> 's) \<Rightarrow> addr option \<Rightarrow> 64 word \<Rightarrow> 's
     \<Rightarrow> (error + 64 word \<times> 's) option" where
  "skip_visit_chain h visit node n s =
     (case node of
        None \<Rightarrow> Some (Inr (n, s))
      | Some a \<Rightarrow>
          (case deref h (Some a) of
             Inl e \<Rightarrow> Some (Inl e)
           | Inr an \<Rightarrow>
               (case visit s (key an) (datum an) of
                  (go, s') \<Rightarrow>
                    if \<not> go then Some (Inr (n + 1, s'))
                    else (case get_link an 0 of
                            Inl e \<Rightarrow> Some (Inl e)
                          | Inr nxt \<Rightarrow> skip_visit_chain h visit nxt (n + 1) s'))))"

declare skip_visit_chain.simps [code]

definition skiplist_traverse ::
  "('k, 'd) skiplist \<Rightarrow> ('s \<Rightarrow> 'k option \<Rightarrow> 'd option \<Rightarrow> bool \<times> 's) option \<Rightarrow> 's
     \<Rightarrow> error + (64 word \<times> 's)" where
  "skiplist_traverse l visit s =
     (case visit of
        None \<Rightarrow> Inl AssertFailed
      | Some v \<Rightarrow>
          (case load_link (heap l) (Some (head l)) 0 of
             Inl e \<Rightarrow> Inl e
           | Inr first \<Rightarrow>
               (case skip_visit_chain (heap l) v first 0 s of
                  None \<Rightarrow> Inl Diverged
                | Some r \<Rightarrow> r)))"

subsection \<open>The consistency check\<close>

text \<open>\<^verbatim>\<open>skiplist_verify\<close>: the inner loop
  \<^verbatim>\<open>for (k = 0; k < node->link_count; k++) if (node->link[k])
      ASSERT(node->link[k]->link_count >= k);\<close>
  and the walk along the bottom chain with its two assertions on every node.\<close>

fun skip_verify_links ::
  "('k, 'd) store \<Rightarrow> ('k, 'd) skip_node \<Rightarrow> nat list \<Rightarrow> error + unit" where
  "skip_verify_links h n [] = Inr ()"
| "skip_verify_links h n (k # ks) =
     (case get_link n k of
        Inl e \<Rightarrow> Inl e
      | Inr None \<Rightarrow> skip_verify_links h n ks
      | Inr (Some y) \<Rightarrow>
          (case deref h (Some y) of
             Inl e \<Rightarrow> Inl e
           | Inr yn \<Rightarrow>
               if \<not> k \<le> link_count yn then Inl AssertFailed
               else skip_verify_links h n ks))"

partial_function (option) skip_verify_chain ::
  "('k, 'd) skiplist \<Rightarrow> addr option \<Rightarrow> (error + unit) option" where
  "skip_verify_chain l node =
     (case node of
        None \<Rightarrow> Some (Inr ())
      | Some a \<Rightarrow>
          (case deref (heap l) (Some a) of
             Inl e \<Rightarrow> Some (Inl e)
           | Inr an \<Rightarrow>
               if \<not> 1 \<le> link_count an then Some (Inl AssertFailed)
               else if \<not> link_count an \<le> top_link l then Some (Inl AssertFailed)
               else (case skip_verify_links (heap l) an [0 ..< link_count an] of
                       Inl e \<Rightarrow> Some (Inl e)
                     | Inr _ \<Rightarrow>
                         (case get_link an 0 of
                            Inl e \<Rightarrow> Some (Inl e)
                          | Inr nxt \<Rightarrow> skip_verify_chain l nxt))))"

declare skip_verify_chain.simps [code]

definition skiplist_verify :: "('k, 'd) skiplist \<Rightarrow> error + unit" where
  "skiplist_verify l =
     (if \<not> top_link l \<le> max_link l then Inl AssertFailed
      else (case load_link (heap l) (Some (head l)) 0 of
              Inl e \<Rightarrow> Inl e
            | Inr first \<Rightarrow>
                (case skip_verify_chain l first of
                   None \<Rightarrow> Inl Diverged
                 | Some r \<Rightarrow> r)))"

section \<open>The height-balanced tree (hb\_tree.c)\<close>

subsection \<open>Nodes, ancestors and the tree\<close>

text \<open>
  A node holds its key, its datum, its two children and its balance factor. The nodes of
  a tree are reached from the root along exactly one path, so the node graph is the
  algebraic tree below (\<open>Null\<close> is the null pointer) and the \<^verbatim>\<open>parent\<close> field is not
  stored: the code that follows parent links is embedded on the list of the ancestors
  of the node it stands on, nearest first. An ancestor \<open>Parent left k d b sib\<close> is a
  node with key \<open>k\<close>, datum \<open>d\<close> and balance \<open>b\<close>; the path comes up through its
  \<^verbatim>\<open>llink\<close> when \<open>left\<close> holds and through its \<^verbatim>\<open>rlink\<close> otherwise, and \<open>sib\<close> is its
  other child.
\<close>

datatype ('k, 'd) hb_node =
  Null
  | Node "('k, 'd) hb_node" 'k "'d option" int "('k, 'd) hb_node"

datatype ('k, 'd) hb_parent =
  Parent bool 'k "'d option" int "('k, 'd) hb_node"

record ('k, 'd) hb_tree =
  root :: "('k, 'd) hb_node"
  hb_count :: "64 word"
  hb_cmp_func :: "'k \<Rightarrow> 'k \<Rightarrow> int"
  hb_del_func :: bool
  hb_deleted :: "('k \<times> 'd option) list"

type_synonym ('k, 'd) hb_pos = "('k, 'd) hb_node \<times> ('k, 'd) hb_parent list"

text \<open>The balance factor is a \<^verbatim>\<open>signed char\<close>: an \<^verbatim>\<open>int\<close> result is stored modulo
  256, in the range from -128 to 127.\<close>

definition schar :: "int \<Rightarrow> int" where
  "schar x = (x + 128) mod 256 - 128"

text \<open>The node \<open>p\<close> with the subtree \<open>n\<close> as the child the path comes through, and the
  root of the tree in which \<open>n\<close> hangs below the ancestors \<open>ps\<close>.\<close>

fun hb_attach :: "('k, 'd) hb_parent \<Rightarrow> ('k, 'd) hb_node \<Rightarrow> ('k, 'd) hb_node" where
  "hb_attach (Parent True k d b sib) n = Node n k d b sib"
| "hb_attach (Parent False k d b sib) n = Node sib k d b n"

fun hb_rebuild :: "('k, 'd) hb_node \<Rightarrow> ('k, 'd) hb_parent list \<Rightarrow> ('k, 'd) hb_node" where
  "hb_rebuild n [] = n"
| "hb_rebuild n (p # ps) = hb_rebuild (hb_attach p n) ps"

text \<open>\<^verbatim>\<open>hb_tree_new\<close>: \<open>alloc\<close> says whether \<^verbatim>\<open>MALLOC\<close> succeeds, \<open>dict_ptr_cmp\<close> is the
  library's default comparison.\<close>

definition hb_tree_new ::
  "('k \<Rightarrow> 'k \<Rightarrow> int) \<Rightarrow> ('k \<Rightarrow> 'k \<Rightarrow> int) option \<Rightarrow> bool \<Rightarrow> bool \<Rightarrow> ('k, 'd) hb_tree option" where
  "hb_tree_new dict_ptr_cmp cmp del alloc =
     (if alloc
      then Some \<lparr>root = Null, hb_count = 0,
                 hb_cmp_func = (case cmp of None \<Rightarrow> dict_ptr_cmp | Some c \<Rightarrow> c),
                 hb_del_func = del, hb_deleted = []\<rparr>
      else None)"

subsection \<open>Rotations\<close>

text \<open>\<^verbatim>\<open>rot_left\<close> and \<^verbatim>\<open>rot_right\<close> on the subtree at the node: the result is the
  returned flag and the subtree that stands in the node's place afterwards (the
  parent's link, or the root pointer, is set to it). \<^verbatim>\<open>MAX\<close> and \<^verbatim>\<open>MIN\<close> are the
  usual macros.\<close>

fun rot_left :: "('k, 'd) hb_node \<Rightarrow> error + (bool \<times> ('k, 'd) hb_node)" where
  "rot_left (Node a k d b (Node c rk rd rb e)) =
     (let hc = (rb \<noteq> 0);
          b' = schar (b - (1 + max rb 0));
          rb' = schar (rb - (1 - min b' 0))
      in Inr (hc, Node (Node a k d b' c) rk rd rb' e))"
| "rot_left _ = Inl AssertFailed"

fun rot_right :: "('k, 'd) hb_node \<Rightarrow> error + (bool \<times> ('k, 'd) hb_node)" where
  "rot_right (Node (Node a lk ld lb c) k d b e) =
     (let hc = (lb \<noteq> 0);
          b' = schar (b + (1 - min lb 0));
          lb' = schar (lb + (1 + max b' 0))
      in Inr (hc, Node a lk ld lb' (Node c k d b' e)))"
| "rot_right _ = Inl AssertFailed"

subsection \<open>Search\<close>

fun hb_search_node :: "('k \<Rightarrow> 'k \<Rightarrow> int) \<Rightarrow> 'k \<Rightarrow> ('k, 'd) hb_node \<Rightarrow> 'd option" where
  "hb_search_node c ky Null = None"
| "hb_search_node c ky (Node l k d b r) =
     (if c ky k < 0 then hb_search_node c ky l
      else if c ky k > 0 then hb_search_node c ky r
      else d)"

definition hb_tree_search :: "('k, 'd) hb_tree \<Rightarrow> 'k \<Rightarrow> 'd option" where
  "hb_tree_search t ky = hb_search_node (hb_cmp_func t) ky (root t)"

subsection \<open>Insertion and probe\<close>

text \<open>The descent of \<^verbatim>\<open>hb_tree_insert\<close> and \<^verbatim>\<open>hb_tree_probe\<close>. The pointer \<^verbatim>\<open>q\<close> (the
  deepest ancestor with a non-zero balance) splits the ancestors: \<open>ps\<close> are those
  strictly below \<^verbatim>\<open>q\<close>, \<open>qs\<close> is \<^verbatim>\<open>q\<close> and the ancestors above it (empty when \<^verbatim>\<open>q\<close> is
  null). The result is the node the loop ends on (\<open>Null\<close> when the key is absent).\<close>

fun hb_insert_find ::
  "('k \<Rightarrow> 'k \<Rightarrow> int) \<Rightarrow> 'k \<Rightarrow> ('k, 'd) hb_node \<Rightarrow> ('k, 'd) hb_parent list
     \<Rightarrow> ('k, 'd) hb_parent list
     \<Rightarrow> ('k, 'd) hb_node \<times> ('k, 'd) hb_parent list \<times> ('k, 'd) hb_parent list" where
  "hb_insert_find c ky Null ps qs = (Null, ps, qs)"
| "hb_insert_find c ky (Node l k d b r) ps qs =
     (if c ky k < 0
      then (if b \<noteq> 0 then hb_insert_find c ky l [] (Parent True k d b r # ps @ qs)
            else hb_insert_find c ky l (Parent True k d b r # ps) qs)
      else if c ky k > 0
      then (if b \<noteq> 0 then hb_insert_find c ky r [] (Parent False k d b l # ps @ qs)
            else hb_insert_find c ky r (Parent False k d b l # ps) qs)
      else (Node l k d b r, ps, qs))"

text \<open>\<^verbatim>\<open>while (parent != q) { parent->bal = (parent->rlink == node) * 2 - 1;
  node = parent; parent = node->parent; }\<close>\<close>

fun hb_insert_retrace ::
  "('k, 'd) hb_node \<Rightarrow> ('k, 'd) hb_parent list \<Rightarrow> ('k, 'd) hb_node" where
  "hb_insert_retrace n [] = n"
| "hb_insert_retrace n (Parent left k d b sib # ps) =
     hb_insert_retrace (hb_attach (Parent left k d (if left then - 1 else 1) sib) n) ps"

text \<open>The balance of a node that the code reads through a child pointer.\<close>

fun hb_bal :: "('k, 'd) hb_node \<Rightarrow> error + int" where
  "hb_bal Null = Inl BadAccess"
| "hb_bal (Node l k d b r) = Inr b"

text \<open>The adjustment at \<^verbatim>\<open>q\<close> (the block \<^verbatim>\<open>if (q) { ... }\<close>): \<open>n\<close> is the subtree
  that the retracing loop ended on, the result is the subtree in the place of \<^verbatim>\<open>q\<close>.\<close>

definition hb_insert_fix ::
  "('k, 'd) hb_node \<Rightarrow> ('k, 'd) hb_parent \<Rightarrow> error + ('k, 'd) hb_node" where
  "hb_insert_fix n q =
     (case q of
        Parent left k d b sib \<Rightarrow>
          if left
          then (let b' = schar (b - 1) in
                if b' = - 2
                then (case hb_bal n of
                        Inl e \<Rightarrow> Inl e
                      | Inr nb \<Rightarrow>
                          (case (if nb > 0 then rot_left n else Inr (False, n)) of
                             Inl e \<Rightarrow> Inl e
                           | Inr (_, n') \<Rightarrow>
                               (case rot_right (Node n' k d b' sib) of
                                  Inl e \<Rightarrow> Inl e
                                | Inr (_, t) \<Rightarrow> Inr t)))
                else Inr (Node n k d b' sib))
          else (let b' = schar (b + 1) in
                if b' = 2
                then (case hb_bal n of
                        Inl e \<Rightarrow> Inl e
                      | Inr nb \<Rightarrow>
                          (case (if nb < 0 then rot_right n else Inr (False, n)) of
                             Inl e \<Rightarrow> Inl e
                           | Inr (_, n') \<Rightarrow>
                               (case rot_left (Node sib k d b' n') of
                                  Inl e \<Rightarrow> Inl e
                                | Inr (_, t) \<Rightarrow> Inr t)))
                else Inr (Node sib k d b' n)))"

text \<open>The part of insert and probe after the descent has ended on a null link:
  allocation, linking, retracing, the adjustment at \<^verbatim>\<open>q\<close> and the count. The result
  is \<open>None\<close> when \<^verbatim>\<open>node_new\<close> returns the null pointer.\<close>

definition hb_insert_new ::
  "('k, 'd) hb_tree \<Rightarrow> 'k \<Rightarrow> 'd option \<Rightarrow> ('k, 'd) hb_parent list \<Rightarrow> ('k, 'd) hb_parent list
     \<Rightarrow> bool \<Rightarrow> error + ('k, 'd) hb_tree option" where
  "hb_insert_new t ky dt ps qs alloc =
     (if \<not> alloc then Inr None
      else if ps = [] \<and> qs = []
      then (if hb_count t \<noteq> 0 then Inl AssertFailed
            else Inr (Some (t\<lparr>root := Node Null ky dt 0 Null, hb_count := 1\<rparr>)))
      else (case (case qs of
                    [] \<Rightarrow> Inr (hb_insert_retrace (Node Null ky dt 0 Null) ps)
                  | q # qs' \<Rightarrow>
                      (case hb_insert_fix (hb_insert_retrace (Node Null ky dt 0 Null) ps) q of
                         Inl e \<Rightarrow> Inl e
                       | Inr n \<Rightarrow> Inr (hb_rebuild n qs'))) of
              Inl e \<Rightarrow> Inl e
            | Inr r \<Rightarrow> Inr (Some (t\<lparr>root := r, hb_count := hb_count t + 1\<rparr>))))"

text \<open>\<^verbatim>\<open>hb_tree_insert\<close>: the code is 0 (inserted or replaced), 1 (duplicate rejected)
  or -1 (allocation failure).\<close>

definition hb_tree_insert ::
  "('k, 'd) hb_tree \<Rightarrow> 'k \<Rightarrow> 'd option \<Rightarrow> bool \<Rightarrow> bool \<Rightarrow> error + (int \<times> ('k, 'd) hb_tree)" where
  "hb_tree_insert t ky dt overwrite alloc =
     (case hb_insert_find (hb_cmp_func t) ky (root t) [] [] of
        (Node l k d b r, ps, qs) \<Rightarrow>
          if \<not> overwrite then Inr (1, t)
          else Inr (0, t\<lparr>root := hb_rebuild (Node l ky dt b r) (ps @ qs),
                        hb_deleted := (if hb_del_func t then hb_deleted t @ [(k, d)]
                                       else hb_deleted t)\<rparr>)
      | (Null, ps, qs) \<Rightarrow>
          (case hb_insert_new t ky dt ps qs alloc of
             Inl e \<Rightarrow> Inl e
           | Inr None \<Rightarrow> Inr (- 1, t)
           | Inr (Some t') \<Rightarrow> Inr (0, t')))"

text \<open>\<^verbatim>\<open>hb_tree_probe\<close>: the code is 0 (found), 1 (inserted) or -1 (allocation
  failure); the second component is the value of \<^verbatim>\<open>*datum\<close> on return.\<close>

definition hb_tree_probe ::
  "('k, 'd) hb_tree \<Rightarrow> 'k \<Rightarrow> 'd option \<Rightarrow> bool
     \<Rightarrow> error + (int \<times> 'd option \<times> ('k, 'd) hb_tree)" where
  "hb_tree_probe t ky dt alloc =
     (case hb_insert_find (hb_cmp_func t) ky (root t) [] [] of
        (Node l k d b r, ps, qs) \<Rightarrow> Inr (0, d, t)
      | (Null, ps, qs) \<Rightarrow>
          (case hb_insert_new t ky dt ps qs alloc of
             Inl e \<Rightarrow> Inl e
           | Inr None \<Rightarrow> Inr (- 1, dt, t)
           | Inr (Some t') \<Rightarrow> Inr (1, dt, t')))"

subsection \<open>Removal\<close>

text \<open>The descent of \<^verbatim>\<open>hb_tree_remove\<close>: the node with the key and its ancestors.\<close>

fun hb_remove_find ::
  "('k \<Rightarrow> 'k \<Rightarrow> int) \<Rightarrow> 'k \<Rightarrow> ('k, 'd) hb_node \<Rightarrow> ('k, 'd) hb_parent list
     \<Rightarrow> ('k, 'd) hb_pos" where
  "hb_remove_find c ky Null ps = (Null, ps)"
| "hb_remove_find c ky (Node l k d b r) ps =
     (if c ky k = 0 then (Node l k d b r, ps)
      else if c ky k < 0 then hb_remove_find c ky l (Parent True k d b r # ps)
      else hb_remove_find c ky r (Parent False k d b l # ps))"

text \<open>\<^verbatim>\<open>while (out->llink) out = out->llink;\<close>\<close>

fun hb_leftmost :: "('k, 'd) hb_node \<Rightarrow> ('k, 'd) hb_parent list \<Rightarrow> ('k, 'd) hb_pos" where
  "hb_leftmost (Node (Node ll lk ld lb lr) k d b r) ps =
     hb_leftmost (Node ll lk ld lb lr) (Parent True k d b r # ps)"
| "hb_leftmost n ps = (n, ps)"

text \<open>The node to unlink and its ancestors: the node found, or, when it has two
  children, its successor after the keys and data of the two have been swapped.\<close>

definition hb_remove_swap ::
  "('k, 'd) hb_node \<Rightarrow> ('k, 'd) hb_parent list \<Rightarrow> error + ('k, 'd) hb_pos" where
  "hb_remove_swap node ps =
     (case node of
        Null \<Rightarrow> Inl BadAccess
      | Node l k d b r \<Rightarrow>
          if l \<noteq> Null \<and> r \<noteq> Null
          then (case hb_leftmost r [] of
                  (Null, _) \<Rightarrow> Inl BadAccess
                | (Node ol ok od ob orr, ls) \<Rightarrow>
                    Inr (Node ol k d ob orr, ls @ Parent False ok od b l # ps))
          else Inr (node, ps))"

text \<open>The retracing loop \<^verbatim>\<open>for (;;)\<close> of \<^verbatim>\<open>hb_tree_remove\<close>: \<open>n\<close> is the subtree whose
  height has decreased, the head of the list is \<^verbatim>\<open>parent\<close>, and the result is the root
  of the tree.\<close>

fun hb_remove_retrace ::
  "('k, 'd) hb_node \<Rightarrow> ('k, 'd) hb_parent list \<Rightarrow> error + ('k, 'd) hb_node" where
  "hb_remove_retrace n [] = Inr n"
| "hb_remove_retrace n (Parent left k d b sib # ps) =
     (if left
      then (let b' = schar (b + 1) in
            if b' = 0 then hb_remove_retrace (Node n k d b' sib) ps
            else if b' = 2
            then (case sib of
                    Null \<Rightarrow> Inl AssertFailed
                  | Node sl sk sd sb sr \<Rightarrow>
                      if sb < 0
                      then (case rot_right sib of
                              Inl e \<Rightarrow> Inl e
                            | Inr (_, sib') \<Rightarrow>
                                (case rot_left (Node n k d b' sib') of
                                   Inl e \<Rightarrow> Inl e
                                 | Inr (_, t) \<Rightarrow> hb_remove_retrace t ps))
                      else if sr = Null then Inl AssertFailed
                      else (case rot_left (Node n k d b' sib) of
                              Inl e \<Rightarrow> Inl e
                            | Inr (hc, t) \<Rightarrow>
                                if \<not> hc then Inr (hb_rebuild t ps)
                                else hb_remove_retrace t ps))
            else Inr (hb_rebuild (Node n k d b' sib) ps))
      else (let b' = schar (b - 1) in
            if b' = 0 then hb_remove_retrace (Node sib k d b' n) ps
            else if b' = - 2
            then (case sib of
                    Null \<Rightarrow> Inl AssertFailed
                  | Node sl sk sd sb sr \<Rightarrow>
                      if sb > 0
                      then (case rot_left sib of
                              Inl e \<Rightarrow> Inl e
                            | Inr (_, sib') \<Rightarrow>
                                (case rot_right (Node sib' k d b' n) of
                                   Inl e \<Rightarrow> Inl e
                                 | Inr (_, t) \<Rightarrow> hb_remove_retrace t ps))
                      else if sl = Null then Inl AssertFailed
                      else (case rot_right (Node sib k d b' n) of
                              Inl e \<Rightarrow> Inl e
                            | Inr (hc, t) \<Rightarrow>
                                if \<not> hc then Inr (hb_rebuild t ps)
                                else hb_remove_retrace t ps))
            else Inr (hb_rebuild (Node sib k d b' n) ps)))"

definition hb_tree_remove ::
  "('k, 'd) hb_tree \<Rightarrow> 'k \<Rightarrow> error + (bool \<times> ('k, 'd) hb_tree)" where
  "hb_tree_remove t ky =
     (case hb_remove_find (hb_cmp_func t) ky (root t) [] of
        (Null, _) \<Rightarrow> Inr (False, t)
      | (Node l k d b r, ps) \<Rightarrow>
          (case hb_remove_swap (Node l k d b r) ps of
             Inl e \<Rightarrow> Inl e
           | Inr (Null, _) \<Rightarrow> Inl BadAccess
           | Inr (Node nl nk nd nb nr, ps') \<Rightarrow>
               (let out = (if nl \<noteq> Null then nl else nr);
                    lg = (if hb_del_func t then hb_deleted t @ [(nk, nd)] else hb_deleted t)
                in case (if ps' = [] then Inr out else hb_remove_retrace out ps') of
                     Inl e \<Rightarrow> Inl e
                   | Inr rt \<Rightarrow>
                       Inr (True, t\<lparr>root := rt, hb_count := hb_count t - 1,
                                     hb_deleted := lg\<rparr>))))"

subsection \<open>Clearing\<close>

text \<open>The loop of \<^verbatim>\<open>hb_tree_clear\<close>: it walks down to a leaf, releases it, clears the
  link of its parent and goes on from the parent. The state is the node, its
  ancestors, the count and the cleanup log.\<close>

fun hb_nodes :: "('k, 'd) hb_node \<Rightarrow> nat" where
  "hb_nodes Null = 0"
| "hb_nodes (Node l k d b r) = hb_nodes l + 1 + hb_nodes r"

fun hb_nodes_up :: "('k, 'd) hb_parent list \<Rightarrow> nat" where
  "hb_nodes_up [] = 0"
| "hb_nodes_up (Parent left k d b sib # ps) = 1 + hb_nodes sib + hb_nodes_up ps"

lemma hb_nodes_attach [simp]:
  "hb_nodes (hb_attach (Parent left k d b sib) n) = hb_nodes n + 1 + hb_nodes sib"
  by (cases left) simp_all

function hb_clear_loop ::
  "bool \<Rightarrow> ('k, 'd) hb_node \<Rightarrow> ('k, 'd) hb_parent list \<Rightarrow> 64 word \<Rightarrow> ('k \<times> 'd option) list
     \<Rightarrow> 64 word \<times> ('k \<times> 'd option) list" where
  "hb_clear_loop del Null ps n lg = (n, lg)"
| "hb_clear_loop del (Node l k d b r) ps n lg =
     (if l \<noteq> Null then hb_clear_loop del l (Parent True k d b r # ps) n lg
      else if r \<noteq> Null then hb_clear_loop del r (Parent False k d b l # ps) n lg
      else (let lg' = (if del then lg @ [(k, d)] else lg) in
            case ps of
              [] \<Rightarrow> hb_clear_loop del Null [] (n - 1) lg'
            | Parent left pk pd pb sib # ps' \<Rightarrow>
                hb_clear_loop del (hb_attach (Parent left pk pd pb sib) Null) ps' (n - 1) lg'))"
  by pat_completeness auto
termination
  by (relation "measures [\<lambda>(del, nd, ps, n, lg). hb_nodes nd + hb_nodes_up ps,
                          \<lambda>(del, nd, ps, n, lg). hb_nodes nd]")
    auto

definition hb_tree_clear :: "('k, 'd) hb_tree \<Rightarrow> error + (64 word \<times> ('k, 'd) hb_tree)" where
  "hb_tree_clear t =
     (case hb_clear_loop (hb_del_func t) (root t) [] (hb_count t) (hb_deleted t) of
        (n, lg) \<Rightarrow>
          if n \<noteq> 0 then Inl AssertFailed
          else Inr (hb_count t, t\<lparr>root := Null, hb_count := n, hb_deleted := lg\<rparr>))"

subsection \<open>Walking the tree in key order\<close>

text \<open>A node pointer outside the balancing code is a position: the subtree at the node
  and the ancestors of the node. \<^verbatim>\<open>node_min\<close>, \<^verbatim>\<open>node_max\<close>, \<^verbatim>\<open>node_next\<close> and
  \<^verbatim>\<open>node_prev\<close> of hb\_tree.c carry the prefix \<open>hb_\<close> here; \<open>None\<close> is the null
  pointer they return.\<close>

fun hb_rightmost :: "('k, 'd) hb_node \<Rightarrow> ('k, 'd) hb_parent list \<Rightarrow> ('k, 'd) hb_pos" where
  "hb_rightmost (Node l k d b (Node rl rk rd rb rr)) ps =
     hb_rightmost (Node rl rk rd rb rr) (Parent False k d b l # ps)"
| "hb_rightmost n ps = (n, ps)"

definition hb_node_min :: "('k, 'd) hb_pos \<Rightarrow> error + ('k, 'd) hb_pos" where
  "hb_node_min p = (case p of (Null, ps) \<Rightarrow> Inl AssertFailed | (n, ps) \<Rightarrow> Inr (hb_leftmost n ps))"

definition hb_node_max :: "('k, 'd) hb_pos \<Rightarrow> error + ('k, 'd) hb_pos" where
  "hb_node_max p = (case p of (Null, ps) \<Rightarrow> Inl AssertFailed | (n, ps) \<Rightarrow> Inr (hb_rightmost n ps))"

text \<open>\<^verbatim>\<open>temp = node->parent; while (temp && temp->rlink == node) { node = temp;
  temp = temp->parent; } return temp;\<close> and its mirror image.\<close>

fun hb_up_from_right ::
  "('k, 'd) hb_node \<Rightarrow> ('k, 'd) hb_parent list \<Rightarrow> ('k, 'd) hb_pos option" where
  "hb_up_from_right n [] = None"
| "hb_up_from_right n (Parent left k d b sib # ps) =
     (if \<not> left then hb_up_from_right (Node sib k d b n) ps
      else Some (Node n k d b sib, ps))"

fun hb_up_from_left ::
  "('k, 'd) hb_node \<Rightarrow> ('k, 'd) hb_parent list \<Rightarrow> ('k, 'd) hb_pos option" where
  "hb_up_from_left n [] = None"
| "hb_up_from_left n (Parent left k d b sib # ps) =
     (if left then hb_up_from_left (Node n k d b sib) ps
      else Some (Node sib k d b n, ps))"

definition hb_node_next :: "('k, 'd) hb_pos \<Rightarrow> error + ('k, 'd) hb_pos option" where
  "hb_node_next p =
     (case p of
        (Null, ps) \<Rightarrow> Inl AssertFailed
      | (Node l k d b r, ps) \<Rightarrow>
          if r \<noteq> Null then Inr (Some (hb_leftmost r (Parent False k d b l # ps)))
          else Inr (hb_up_from_right (Node l k d b r) ps))"

definition hb_node_prev :: "('k, 'd) hb_pos \<Rightarrow> error + ('k, 'd) hb_pos option" where
  "hb_node_prev p =
     (case p of
        (Null, ps) \<Rightarrow> Inl AssertFailed
      | (Node l k d b r, ps) \<Rightarrow>
          if l \<noteq> Null then Inr (Some (hb_rightmost l (Parent True k d b r # ps)))
          else Inr (hb_up_from_left (Node l k d b r) ps))"

subsection \<open>Iterators\<close>

record ('k, 'd) hb_itor =
  itor_tree :: "('k, 'd) hb_tree"
  itor_node :: "('k, 'd) hb_pos option"

definition hb_itor_first :: "('k, 'd) hb_itor \<Rightarrow> error + (bool \<times> ('k, 'd) hb_itor)" where
  "hb_itor_first it =
     (case (if root (itor_tree it) \<noteq> Null
            then (case hb_node_min (root (itor_tree it), []) of
                    Inl e \<Rightarrow> Inl e
                  | Inr p \<Rightarrow> Inr (Some p))
            else Inr None) of
        Inl e \<Rightarrow> Inl e
      | Inr p \<Rightarrow> Inr (p \<noteq> None, it\<lparr>itor_node := p\<rparr>))"

definition hb_itor_last :: "('k, 'd) hb_itor \<Rightarrow> error + (bool \<times> ('k, 'd) hb_itor)" where
  "hb_itor_last it =
     (case (if root (itor_tree it) \<noteq> Null
            then (case hb_node_max (root (itor_tree it), []) of
                    Inl e \<Rightarrow> Inl e
                  | Inr p \<Rightarrow> Inr (Some p))
            else Inr None) of
        Inl e \<Rightarrow> Inl e
      | Inr p \<Rightarrow> Inr (p \<noteq> None, it\<lparr>itor_node := p\<rparr>))"

definition hb_itor_next :: "('k, 'd) hb_itor \<Rightarrow> error + (bool \<times> ('k, 'd) hb_itor)" where
  "hb_itor_next it =
     (case itor_node it of
        None \<Rightarrow> hb_itor_first it
      | Some p \<Rightarrow>
          (case hb_node_next p of
             Inl e \<Rightarrow> Inl e
           | Inr p' \<Rightarrow> Inr (p' \<noteq> None, it\<lparr>itor_node := p'\<rparr>)))"

definition hb_itor_prev :: "('k, 'd) hb_itor \<Rightarrow> error + (bool \<times> ('k, 'd) hb_itor)" where
  "hb_itor_prev it =
     (case itor_node it of
        None \<Rightarrow> hb_itor_last it
      | Some p \<Rightarrow>
          (case hb_node_prev p of
             Inl e \<Rightarrow> Inl e
           | Inr p' \<Rightarrow> Inr (p' \<noteq> None, it\<lparr>itor_node := p'\<rparr>)))"

text \<open>\<^verbatim>\<open>hb_itor_nextn\<close> and \<^verbatim>\<open>hb_itor_prevn\<close>: in hb\_tree.c the loop of both is
  \<^verbatim>\<open>while (count--) if (!hb_itor_prev(itor)) return false;\<close>\<close>

fun hb_itor_nextn :: "('k, 'd) hb_itor \<Rightarrow> nat \<Rightarrow> error + (bool \<times> ('k, 'd) hb_itor)" where
  "hb_itor_nextn it 0 = Inr (itor_node it \<noteq> None, it)"
| "hb_itor_nextn it (Suc n) =
     (case hb_itor_prev it of
        Inl e \<Rightarrow> Inl e
      | Inr (ok, it') \<Rightarrow> if \<not> ok then Inr (False, it') else hb_itor_nextn it' n)"

fun hb_itor_prevn :: "('k, 'd) hb_itor \<Rightarrow> nat \<Rightarrow> error + (bool \<times> ('k, 'd) hb_itor)" where
  "hb_itor_prevn it 0 = Inr (itor_node it \<noteq> None, it)"
| "hb_itor_prevn it (Suc n) =
     (case hb_itor_prev it of
        Inl e \<Rightarrow> Inl e
      | Inr (ok, it') \<Rightarrow> if \<not> ok then Inr (False, it') else hb_itor_prevn it' n)"

text \<open>The key the iterator stands on (\<^verbatim>\<open>hb_itor_key\<close>); \<open>None\<close> is the null pointer.\<close>

definition hb_itor_key :: "('k, 'd) hb_itor \<Rightarrow> 'k option" where
  "hb_itor_key it =
     (case itor_node it of
        None \<Rightarrow> None
      | Some (Null, ps) \<Rightarrow> None
      | Some (Node l k d b r, ps) \<Rightarrow> Some k)"

text \<open>The iterators of the skip list: \<^verbatim>\<open>VALID(itor)\<close>, \<^verbatim>\<open>skiplist_itor_first\<close>,
  \<^verbatim>\<open>skiplist_itor_next\<close> and \<^verbatim>\<open>skiplist_itor_nextn\<close>.\<close>

record ('k, 'd) skiplist_itor =
  itor_list :: "('k, 'd) skiplist"
  sl_node :: "addr option"

definition VALID :: "('k, 'd) skiplist_itor \<Rightarrow> bool" where
  "VALID it \<longleftrightarrow> sl_node it \<noteq> None \<and> sl_node it \<noteq> Some (head (itor_list it))"

definition skiplist_itor_first ::
  "('k, 'd) skiplist_itor \<Rightarrow> error + (bool \<times> ('k, 'd) skiplist_itor)" where
  "skiplist_itor_first it =
     (case load_link (heap (itor_list it)) (Some (head (itor_list it))) 0 of
        Inl e \<Rightarrow> Inl e
      | Inr p \<Rightarrow> Inr (VALID (it\<lparr>sl_node := p\<rparr>), it\<lparr>sl_node := p\<rparr>))"

definition skiplist_itor_next ::
  "('k, 'd) skiplist_itor \<Rightarrow> error + (bool \<times> ('k, 'd) skiplist_itor)" where
  "skiplist_itor_next it =
     (if sl_node it = None then skiplist_itor_first it
      else (case load_link (heap (itor_list it)) (sl_node it) 0 of
              Inl e \<Rightarrow> Inl e
            | Inr p \<Rightarrow> Inr (VALID (it\<lparr>sl_node := p\<rparr>), it\<lparr>sl_node := p\<rparr>)))"

fun skiplist_itor_nextn ::
  "('k, 'd) skiplist_itor \<Rightarrow> nat \<Rightarrow> error + (bool \<times> ('k, 'd) skiplist_itor)" where
  "skiplist_itor_nextn it 0 = Inr (VALID it, it)"
| "skiplist_itor_nextn it (Suc n) =
     (case skiplist_itor_next it of
        Inl e \<Rightarrow> Inl e
      | Inr (ok, it') \<Rightarrow> if \<not> ok then Inr (False, it') else skiplist_itor_nextn it' n)"

subsection \<open>Traversal\<close>

text \<open>The entries that follow a position in key order, the position's own first; their
  number bounds the loop of \<^verbatim>\<open>hb_tree_traverse\<close>.\<close>

fun hb_entries :: "('k, 'd) hb_node \<Rightarrow> ('k \<times> 'd option) list" where
  "hb_entries Null = []"
| "hb_entries (Node l k d b r) = hb_entries l @ (k, d) # hb_entries r"

fun hb_entries_after :: "('k, 'd) hb_parent list \<Rightarrow> ('k \<times> 'd option) list" where
  "hb_entries_after [] = []"
| "hb_entries_after (Parent left k d b sib # ps) =
     (if left then (k, d) # hb_entries sib @ hb_entries_after ps else hb_entries_after ps)"

fun hb_entries_from :: "('k, 'd) hb_pos option \<Rightarrow> ('k \<times> 'd option) list" where
  "hb_entries_from None = []"
| "hb_entries_from (Some (Null, ps)) = hb_entries_after ps"
| "hb_entries_from (Some (Node l k d b r, ps)) = (k, d) # hb_entries r @ hb_entries_after ps"

lemma hb_entries_from_leftmost:
  "hb_entries_from (Some (hb_leftmost n ps)) = hb_entries n @ hb_entries_after ps"
  by (induction n ps rule: hb_leftmost.induct) simp_all

lemma hb_entries_from_up_from_right:
  "hb_entries_from (hb_up_from_right n ps) = hb_entries_after ps"
  by (induction n ps rule: hb_up_from_right.induct) simp_all

lemma hb_entries_from_node_next:
  "hb_node_next (Node l k d b r, ps) = Inr p' \<Longrightarrow>
     hb_entries_from p' = hb_entries r @ hb_entries_after ps"
  by (auto simp add: hb_node_next_def hb_entries_from_leftmost hb_entries_from_up_from_right
      split: if_splits)

text \<open>The loop of \<^verbatim>\<open>hb_tree_traverse\<close>:
  \<^verbatim>\<open>for (node = node_min(root); node; node = node_next(node)) { ++count;
      if (!visit(node->key, node->datum)) break; }\<close>
  The visitor is a function from its own state and the entry to its answer and its
  next state.\<close>

function hb_traverse_loop ::
  "('s \<Rightarrow> 'k \<Rightarrow> 'd option \<Rightarrow> bool \<times> 's) \<Rightarrow> ('k, 'd) hb_pos option \<Rightarrow> 64 word \<Rightarrow> 's
     \<Rightarrow> error + (64 word \<times> 's)" where
  "hb_traverse_loop visit None n s = Inr (n, s)"
| "hb_traverse_loop visit (Some (Null, ps)) n s = Inl BadAccess"
| "hb_traverse_loop visit (Some (Node l k d b r, ps)) n s =
     (case visit s k d of
        (go, s') \<Rightarrow>
          if \<not> go then Inr (n + 1, s')
          else (case hb_node_next (Node l k d b r, ps) of
                  Inl e \<Rightarrow> Inl e
                | Inr p' \<Rightarrow> hb_traverse_loop visit p' (n + 1) s'))"
  by pat_completeness auto
termination
  by (relation "measure (\<lambda>(visit, p, n, s). length (hb_entries_from p))")
    (auto simp add: hb_entries_from_node_next)

definition hb_tree_traverse ::
  "('k, 'd) hb_tree \<Rightarrow> ('s \<Rightarrow> 'k \<Rightarrow> 'd option \<Rightarrow> bool \<times> 's) option \<Rightarrow> 's
     \<Rightarrow> error + (64 word \<times> 's)" where
  "hb_tree_traverse t visit s =
     (if root t = Null then Inr (0, s)
      else (case hb_node_min (root t, []) of
              Inl e \<Rightarrow> Inl e
            | Inr p \<Rightarrow>
                (case visit of
                   None \<Rightarrow> Inl BadAccess
                 | Some v \<Rightarrow> hb_traverse_loop v (Some p) 0 s)))"

section \<open>Examples used as concrete inputs\<close>

text \<open>A three-way comparison of integer keys behind pointers; the null pointer comes
  first.\<close>

definition int_ptr_cmp :: "int option \<Rightarrow> int option \<Rightarrow> int" where
  "int_ptr_cmp a b =
     (case a of
        None \<Rightarrow> (case b of None \<Rightarrow> 0 | Some y \<Rightarrow> - 1)
      | Some x \<Rightarrow> (case b of None \<Rightarrow> 1 | Some y \<Rightarrow> if x < y then - 1 else if y < x then 1 else 0))"

definition int_cmp :: "int \<Rightarrow> int \<Rightarrow> int" where
  "int_cmp x y = (if x < y then - 1 else if y < x then 1 else 0)"

text \<open>The empty skip list that \<^verbatim>\<open>skiplist_new\<close> builds for \<open>max_link = ml\<close> with the head
  at address 0 and the seed 7.\<close>

definition empty_skiplist :: "nat \<Rightarrow> (int, int) skiplist" where
  "empty_skiplist ml =
     \<lparr>head = 0, max_link = ml, top_link = 0, cmp_func = int_ptr_cmp, del_func = True,
      count = 0, randgen = 7,
      heap = (\<lambda>_. None)(0 \<mapsto> \<lparr>key = None, datum = None, prev = None, link_count = ml,
                                link = replicate ml None\<rparr>),
      deleted = []\<rparr>"

lemma strict_total_order_int_cmp: "strict_total_order int_cmp"
  by (auto simp add: strict_total_order_def int_cmp_def)

lemma strict_total_order_int_ptr_cmp: "strict_total_order int_ptr_cmp"
  by (auto simp add: strict_total_order_def int_ptr_cmp_def split: option.splits if_splits)

section \<open>The level draw of the skip list\<close>

lemma rand_link_loop_lower: "i \<le> rand_link_loop r ml i"
proof (induction r ml i rule: rand_link_loop.induct)
  case (1 r ml i)
  show ?case
    using 1 by (subst rand_link_loop.simps) (auto split: if_splits)
qed

lemma rand_link_loop_upper: "i < ml \<Longrightarrow> rand_link_loop r ml i < ml"
proof (induction r ml i rule: rand_link_loop.induct)
  case (1 r ml i)
  show ?case
    using 1 by (subst rand_link_loop.simps) (auto split: if_splits)
qed

lemma rand_link_loop_stop: "ml \<le> i + 1 \<Longrightarrow> rand_link_loop r ml i = i"
  by (subst rand_link_loop.simps) simp

lemma max_link_rand_link_count [simp]: "max_link (snd (rand_link_count l)) = max_link l"
  by (simp add: rand_link_count_def Let_def)

lemma rand_link_count_lower: "1 \<le> fst (rand_link_count l)"
  by (simp add: rand_link_count_def Let_def rand_link_loop_lower)

lemma rand_link_count_upper: "2 \<le> max_link l \<Longrightarrow> fst (rand_link_count l) < max_link l"
  by (simp add: rand_link_count_def Let_def rand_link_loop_upper)

lemma rand_link_count_one: "max_link l \<le> 2 \<Longrightarrow> fst (rand_link_count l) = 1"
  by (simp add: rand_link_count_def Let_def rand_link_loop_stop)

text \<open>
  Claim C8. For every skip list (\<open>max_link\<close> is positive by construction) and every
  state of the generator, the level count drawn for a new node is at least 1, and the
  levels beyond level 0 (the count minus one) are at most \<open>max_link - 1\<close>.
\<close>

theorem rand_link_count_bounds:
  "0 < max_link l \<Longrightarrow>
     1 \<le> fst (rand_link_count l) \<and>
     int (fst (rand_link_count l)) - 1 \<le> int (max_link l) - 1"
proof -
  assume ml: "0 < max_link l"
  have lo: "1 \<le> fst (rand_link_count l)"
    by (rule rand_link_count_lower)
  have hi: "fst (rand_link_count l) \<le> max_link l"
  proof (cases "2 \<le> max_link l")
    case True
    then show ?thesis using rand_link_count_upper [of l] by simp
  next
    case False
    then have "fst (rand_link_count l) = 1" by (simp add: rand_link_count_one)
    with ml show ?thesis by simp
  qed
  from lo hi show ?thesis by simp
qed

theorem rand_link_count_bounds_witness:
  "0 < max_link (empty_skiplist 8) \<and>
   1 \<le> fst (rand_link_count (empty_skiplist 8)) \<and>
   int (fst (rand_link_count (empty_skiplist 8))) - 1 \<le> int (max_link (empty_skiplist 8)) - 1"
proof -
  have ml: "0 < max_link (empty_skiplist 8)"
    by (simp add: empty_skiplist_def)
  from rand_link_count_bounds [OF ml] ml show ?thesis by simp
qed

lemma skip_advance_end:
  "load_link (heap l) (Some x) lv = Inr None \<Longrightarrow> skip_advance l ky lv x = Some (Inr x)"
  by (subst skip_advance.simps) simp

lemma skip_seek_end:
  "load_link (heap l) (Some x) lv = Inr None \<Longrightarrow> skip_seek l chk ky lv x = Some (Inr (False, x))"
  by (subst skip_seek.simps) simp

lemma node_insert_max_link_one:
  "max_link l = 1 \<Longrightarrow> node_insert l ky dt upd alloc = Inl AssertFailed"
  using rand_link_count_one [of l] max_link_rand_link_count [of l]
  by (simp add: node_insert_def split_beta del: max_link_rand_link_count)

lemma skiplist_new_one:
  "skiplist_new dpc cmp del 1 True (Some a) seed =
     Inr (Some \<lparr>head = a, max_link = 1, top_link = 0,
                cmp_func = (case cmp of None \<Rightarrow> dpc | Some c \<Rightarrow> c), del_func = del, count = 0,
                randgen = seed,
                heap = (\<lambda>_. None)(a \<mapsto> \<lparr>key = None, datum = None, prev = None, link_count = 1,
                                          link = [None]\<rparr>),
                deleted = []\<rparr>)"
  by (simp add: skiplist_new_def node_new_def MAX_LINK_def)

lemma skiplist_insert_new_one:
  assumes "skiplist_new dpc cmp del 1 True (Some a) seed = Inr (Some l0)"
  shows "skiplist_insert l0 ky dt ow alloc = Inl AssertFailed"
proof -
  from assms have l0: "l0 = \<lparr>head = a, max_link = 1, top_link = 0,
                cmp_func = (case cmp of None \<Rightarrow> dpc | Some c \<Rightarrow> c), del_func = del, count = 0,
                randgen = seed,
                heap = (\<lambda>_. None)(a \<mapsto> \<lparr>key = None, datum = None, prev = None, link_count = 1,
                                          link = [None]\<rparr>),
                deleted = []\<rparr>"
    unfolding skiplist_new_one by simp
  have ml: "max_link l0 = 1" by (simp add: l0)
  have ld: "load_link (heap l0) (Some a) 0 = Inr None"
    by (simp add: l0 load_link_def deref_def get_link_def)
  have adv: "skip_advance l0 ky 0 a = Some (Inr a)"
    by (rule skip_advance_end [OF ld])
  have find: "skip_find l0 ky (top_link l0 + 1) (head l0) (replicate MAX_LINK None)
                = Inr (a, (replicate MAX_LINK None)[0 := Some a])"
    using adv by (simp add: l0 deref_def array_set_def MAX_LINK_def)
  show ?thesis
    unfolding skiplist_insert_def find
    by (simp add: ld node_insert_max_link_one [OF ml])
qed

lemma skiplist_probe_new_one:
  assumes "skiplist_new dpc cmp del 1 True (Some a) seed = Inr (Some l0)"
  shows "skiplist_probe l0 ky dt alloc = Inl AssertFailed"
proof -
  from assms have l0: "l0 = \<lparr>head = a, max_link = 1, top_link = 0,
                cmp_func = (case cmp of None \<Rightarrow> dpc | Some c \<Rightarrow> c), del_func = del, count = 0,
                randgen = seed,
                heap = (\<lambda>_. None)(a \<mapsto> \<lparr>key = None, datum = None, prev = None, link_count = 1,
                                          link = [None]\<rparr>),
                deleted = []\<rparr>"
    unfolding skiplist_new_one by simp
  have ml: "max_link l0 = 1" by (simp add: l0)
  have ld: "load_link (heap l0) (Some a) 0 = Inr None"
    by (simp add: l0 load_link_def deref_def get_link_def)
  have adv: "skip_seek l0 True ky 0 a = Some (Inr (False, a))"
    by (rule skip_seek_end [OF ld])
  have find: "skip_probe_find l0 ky (top_link l0 + 1) (head l0) (replicate MAX_LINK None)
                = Inr (Inr ((replicate MAX_LINK None)[0 := Some a]))"
    using adv by (simp add: l0 deref_def array_set_def MAX_LINK_def)
  show ?thesis
    unfolding skiplist_probe_def find
    by (simp add: node_insert_max_link_one [OF ml])
qed

text \<open>
  Claim C10. When \<open>max_link\<close> is at least 2, the level count drawn is between 1 and
  \<open>max_link - 1\<close>, so the condition \<open>nlinks < max_link\<close> asserted in \<^verbatim>\<open>node_insert\<close> holds
  on every insert and probe. Construction accepts \<open>max_link = 1\<close>; in the list it
  builds the draw is 1, the asserted condition is false, and the first insert or
  probe (of any key, none being present) ends in the failed assertion; so does
  \<^verbatim>\<open>node_insert\<close> on every list with \<open>max_link = 1\<close>.
\<close>

theorem node_insert_level_assertion:
  "(2 \<le> max_link l \<longrightarrow>
      1 \<le> fst (rand_link_count l) \<and> fst (rand_link_count l) \<le> max_link l - 1 \<and>
      fst (rand_link_count l) < max_link (snd (rand_link_count l))) \<and>
   (\<exists>l0. skiplist_new dpc cmp del 1 True (Some a) seed = Inr (Some l0) \<and> max_link l0 = 1 \<and>
      fst (rand_link_count l0) = 1 \<and>
      \<not> fst (rand_link_count l0) < max_link (snd (rand_link_count l0)) \<and>
      skiplist_insert l0 ky dt ow alloc = Inl AssertFailed \<and>
      skiplist_probe l0 ky dt alloc = Inl AssertFailed) \<and>
   (max_link l = 1 \<longrightarrow>
      fst (rand_link_count l) = 1 \<and> node_insert l ky dt upd alloc = Inl AssertFailed)"
proof (intro conjI impI)
  assume "2 \<le> max_link l"
  then have "fst (rand_link_count l) < max_link l" by (rule rand_link_count_upper)
  then show "fst (rand_link_count l) \<le> max_link l - 1"
    and "fst (rand_link_count l) < max_link (snd (rand_link_count l))"
    by simp_all
next
  show "1 \<le> fst (rand_link_count l)" by (rule rand_link_count_lower)
next
  obtain l0 :: "('a, 'b) skiplist"
    where new: "skiplist_new dpc cmp del 1 True (Some a) seed = Inr (Some l0)"
    unfolding skiplist_new_one by simp
  then have ml: "max_link l0 = 1" unfolding skiplist_new_one by auto
  then have one: "fst (rand_link_count l0) = 1" by (simp add: rand_link_count_one)
  show "\<exists>l0. skiplist_new dpc cmp del 1 True (Some a) seed = Inr (Some l0) \<and> max_link l0 = 1 \<and>
      fst (rand_link_count l0) = 1 \<and>
      \<not> fst (rand_link_count l0) < max_link (snd (rand_link_count l0)) \<and>
      skiplist_insert l0 ky dt ow alloc = Inl AssertFailed \<and>
      skiplist_probe l0 ky dt alloc = Inl AssertFailed"
    using new ml one skiplist_insert_new_one [OF new] skiplist_probe_new_one [OF new]
    by (intro exI [of _ l0]) simp
next
  assume "max_link l = 1"
  then show "fst (rand_link_count l) = 1" by (simp add: rand_link_count_one)
next
  assume "max_link l = 1"
  then show "node_insert l ky dt upd alloc = Inl AssertFailed"
    by (rule node_insert_max_link_one)
qed

theorem node_insert_level_assertion_witness:
  "2 \<le> max_link (empty_skiplist 8) \<and>
   fst (rand_link_count (empty_skiplist 8)) < max_link (snd (rand_link_count (empty_skiplist 8))) \<and>
   max_link (empty_skiplist 1) = 1 \<and>
   fst (rand_link_count (empty_skiplist 1)) = 1 \<and>
   node_insert (empty_skiplist 1) (Some 5) (Some 50) (replicate 32 None) (Some 1)
     = Inl AssertFailed"
proof -
  have m8: "2 \<le> max_link (empty_skiplist 8)" and m1: "max_link (empty_skiplist 1) = 1"
    by (simp_all add: empty_skiplist_def)
  from node_insert_level_assertion [of "empty_skiplist 8" int_ptr_cmp None True 0 7 "Some 5"
      "Some 50" True "Some 1" "replicate 32 None"] m8
  have a: "fst (rand_link_count (empty_skiplist 8))
             < max_link (snd (rand_link_count (empty_skiplist 8)))"
    by blast
  from node_insert_level_assertion [of "empty_skiplist 1" int_ptr_cmp None True 0 7 "Some 5"
      "Some 50" True "Some 1" "replicate 32 None"] m1
  have b: "fst (rand_link_count (empty_skiplist 1)) = 1 \<and>
           node_insert (empty_skiplist 1) (Some 5) (Some 50) (replicate 32 None) (Some 1)
             = Inl AssertFailed"
    by blast
  from m8 m1 a b show ?thesis by blast
qed

section \<open>The balance of the tree\<close>

text \<open>The height of the subtree behind a link: 0 for the null link, and one more
  than the larger of the two children's heights otherwise (the quantities \<^verbatim>\<open>l\<close> and
  \<^verbatim>\<open>r\<close> that \<^verbatim>\<open>node_height\<close> computes for the two links of a node).\<close>

fun hb_height :: "('k, 'd) hb_node \<Rightarrow> nat" where
  "hb_height Null = 0"
| "hb_height (Node l k d b r) = 1 + max (hb_height l) (hb_height r)"

text \<open>Every node stores the height of its right subtree minus the height of its left
  subtree, and this difference is -1, 0 or 1.\<close>

fun hb_avl :: "('k, 'd) hb_node \<Rightarrow> bool" where
  "hb_avl Null = True"
| "hb_avl (Node l k d b r) =
     (hb_avl l \<and> hb_avl r \<and> b = int (hb_height r) - int (hb_height l) \<and> - 1 \<le> b \<and> b \<le> 1)"

lemma schar_id: "- 128 \<le> x \<Longrightarrow> x \<le> 127 \<Longrightarrow> schar x = x"
  by (simp add: schar_def)

lemma rot_left_true:
  assumes "b = int (hb_height (Node c rk rd rb e)) - int (hb_height a)"
    and "rb = int (hb_height e) - int (hb_height c)"
    and "\<bar>b\<bar> \<le> 2" and "\<bar>rb\<bar> \<le> 2"
  shows "rot_left (Node a k d b (Node c rk rd rb e)) =
           Inr (rb \<noteq> 0,
                Node (Node a k d (int (hb_height c) - int (hb_height a)) c) rk rd
                  (int (hb_height e) - int (hb_height (Node a k d 0 c))) e)"
proof -
  have b': "b - (1 + max rb 0) = int (hb_height c) - int (hb_height a)"
    using assms(1,2) by (simp add: max_def)
  have r1: "schar (b - (1 + max rb 0)) = b - (1 + max rb 0)"
    using assms(3,4) by (intro schar_id) (auto simp add: max_def)
  have rb': "rb - (1 - min (int (hb_height c) - int (hb_height a)) 0) =
               int (hb_height e) - int (hb_height (Node a k d 0 c))"
    using assms(2) by (simp add: max_def min_def)
  have r2: "schar (rb - (1 - min (b - (1 + max rb 0)) 0)) = rb - (1 - min (b - (1 + max rb 0)) 0)"
    using assms(3,4) by (intro schar_id) (auto simp add: max_def min_def)
  show ?thesis
    using b' rb' r1 r2 by (simp add: Let_def)
qed

lemma rot_right_true:
  assumes "b = int (hb_height e) - int (hb_height (Node a lk ld lb c))"
    and "lb = int (hb_height c) - int (hb_height a)"
    and "\<bar>b\<bar> \<le> 2" and "\<bar>lb\<bar> \<le> 2"
  shows "rot_right (Node (Node a lk ld lb c) k d b e) =
           Inr (lb \<noteq> 0,
                Node a lk ld (int (hb_height (Node c k d 0 e)) - int (hb_height a))
                  (Node c k d (int (hb_height e) - int (hb_height c)) e))"
proof -
  have b': "b + (1 - min lb 0) = int (hb_height e) - int (hb_height c)"
    using assms(1,2) by (simp add: max_def min_def)
  have r1: "schar (b + (1 - min lb 0)) = b + (1 - min lb 0)"
    using assms(3,4) by (intro schar_id) (auto simp add: min_def)
  have lb': "lb + (1 + max (int (hb_height e) - int (hb_height c)) 0) =
               int (hb_height (Node c k d 0 e)) - int (hb_height a)"
    using assms(2) by (simp add: max_def min_def)
  have r2: "schar (lb + (1 + max (b + (1 - min lb 0)) 0)) = lb + (1 + max (b + (1 - min lb 0)) 0)"
    using assms(3,4) by (intro schar_id) (auto simp add: max_def min_def)
  show ?thesis
    using b' lb' r1 r2 by (simp add: Let_def)
qed

text \<open>
  Claim C7, as the code has it. Let the root of a subtree and the child that the
  rotation lifts store their true height differences (the root's within -2..2, as
  during rebalancing). Then the rotation succeeds, returns whether the lifted child's
  balance was non-zero, and leaves in the demoted node and in the new root of the
  subtree their true height differences. The returned flag says whether the height of
  the subtree changed when the rotation is the single rotation of the rebalancing: the
  root's balance is +2 and the right child's is not negative for \<^verbatim>\<open>rot_left\<close>, the
  root's is -2 and the left child's is not positive for \<^verbatim>\<open>rot_right\<close>.
\<close>

theorem rotation_balances_and_flag:
  "(b = int (hb_height (Node c rk rd rb e)) - int (hb_height a) \<and>
    rb = int (hb_height e) - int (hb_height c) \<and> \<bar>b\<bar> \<le> 2 \<and> \<bar>rb\<bar> \<le> 2 \<longrightarrow>
      (\<exists>b' rb'.
         rot_left (Node a k d b (Node c rk rd rb e)) =
           Inr (rb \<noteq> 0, Node (Node a k d b' c) rk rd rb' e) \<and>
         b' = int (hb_height c) - int (hb_height a) \<and>
         rb' = int (hb_height e) - int (hb_height (Node a k d b' c)) \<and>
         (b = 2 \<and> 0 \<le> rb \<longrightarrow>
            (rb \<noteq> 0 \<longleftrightarrow>
               hb_height (Node (Node a k d b' c) rk rd rb' e) \<noteq>
                 hb_height (Node a k d b (Node c rk rd rb e)))))) \<and>
   (b2 = int (hb_height e2) - int (hb_height (Node a2 lk ld lb c2)) \<and>
    lb = int (hb_height c2) - int (hb_height a2) \<and> \<bar>b2\<bar> \<le> 2 \<and> \<bar>lb\<bar> \<le> 2 \<longrightarrow>
      (\<exists>b' lb'.
         rot_right (Node (Node a2 lk ld lb c2) k2 d2 b2 e2) =
           Inr (lb \<noteq> 0, Node a2 lk ld lb' (Node c2 k2 d2 b' e2)) \<and>
         b' = int (hb_height e2) - int (hb_height c2) \<and>
         lb' = int (hb_height (Node c2 k2 d2 b' e2)) - int (hb_height a2) \<and>
         (b2 = - 2 \<and> lb \<le> 0 \<longrightarrow>
            (lb \<noteq> 0 \<longleftrightarrow>
               hb_height (Node a2 lk ld lb' (Node c2 k2 d2 b' e2)) \<noteq>
                 hb_height (Node (Node a2 lk ld lb c2) k2 d2 b2 e2)))))"
proof (intro conjI impI)
  assume h: "b = int (hb_height (Node c rk rd rb e)) - int (hb_height a) \<and>
    rb = int (hb_height e) - int (hb_height c) \<and> \<bar>b\<bar> \<le> 2 \<and> \<bar>rb\<bar> \<le> 2"
  then have h1: "b = int (hb_height (Node c rk rd rb e)) - int (hb_height a)"
    and h2: "rb = int (hb_height e) - int (hb_height c)" and h3: "\<bar>b\<bar> \<le> 2" and h4: "\<bar>rb\<bar> \<le> 2"
    by blast+
  have rot: "rot_left (Node a k d b (Node c rk rd rb e)) =
           Inr (rb \<noteq> 0,
                Node (Node a k d (int (hb_height c) - int (hb_height a)) c) rk rd
                  (int (hb_height e) - int (hb_height (Node a k d 0 c))) e)"
    by (rule rot_left_true [OF h1 h2 h3 h4])
  have flag: "b = 2 \<and> 0 \<le> rb \<longrightarrow>
      (rb \<noteq> 0 \<longleftrightarrow>
         hb_height (Node (Node a k d (int (hb_height c) - int (hb_height a)) c) rk rd
                     (int (hb_height e) - int (hb_height (Node a k d 0 c))) e) \<noteq>
           hb_height (Node a k d b (Node c rk rd rb e)))"
    using h by (auto simp add: max_def split: if_splits)
  show "\<exists>b' rb'.
         rot_left (Node a k d b (Node c rk rd rb e)) =
           Inr (rb \<noteq> 0, Node (Node a k d b' c) rk rd rb' e) \<and>
         b' = int (hb_height c) - int (hb_height a) \<and>
         rb' = int (hb_height e) - int (hb_height (Node a k d b' c)) \<and>
         (b = 2 \<and> 0 \<le> rb \<longrightarrow>
            (rb \<noteq> 0 \<longleftrightarrow>
               hb_height (Node (Node a k d b' c) rk rd rb' e) \<noteq>
                 hb_height (Node a k d b (Node c rk rd rb e))))"
    using rot flag
    by (intro exI [of _ "int (hb_height c) - int (hb_height a)"]
        exI [of _ "int (hb_height e) - int (hb_height (Node a k d 0 c))"]) simp
next
  assume h: "b2 = int (hb_height e2) - int (hb_height (Node a2 lk ld lb c2)) \<and>
    lb = int (hb_height c2) - int (hb_height a2) \<and> \<bar>b2\<bar> \<le> 2 \<and> \<bar>lb\<bar> \<le> 2"
  then have h1: "b2 = int (hb_height e2) - int (hb_height (Node a2 lk ld lb c2))"
    and h2: "lb = int (hb_height c2) - int (hb_height a2)" and h3: "\<bar>b2\<bar> \<le> 2" and h4: "\<bar>lb\<bar> \<le> 2"
    by blast+
  have rot: "rot_right (Node (Node a2 lk ld lb c2) k2 d2 b2 e2) =
           Inr (lb \<noteq> 0,
                Node a2 lk ld (int (hb_height (Node c2 k2 d2 0 e2)) - int (hb_height a2))
                  (Node c2 k2 d2 (int (hb_height e2) - int (hb_height c2)) e2))"
    by (rule rot_right_true [OF h1 h2 h3 h4])
  have flag: "b2 = - 2 \<and> lb \<le> 0 \<longrightarrow>
      (lb \<noteq> 0 \<longleftrightarrow>
         hb_height (Node a2 lk ld (int (hb_height (Node c2 k2 d2 0 e2)) - int (hb_height a2))
                     (Node c2 k2 d2 (int (hb_height e2) - int (hb_height c2)) e2)) \<noteq>
           hb_height (Node (Node a2 lk ld lb c2) k2 d2 b2 e2))"
    using h by (auto simp add: max_def split: if_splits)
  show "\<exists>b' lb'.
         rot_right (Node (Node a2 lk ld lb c2) k2 d2 b2 e2) =
           Inr (lb \<noteq> 0, Node a2 lk ld lb' (Node c2 k2 d2 b' e2)) \<and>
         b' = int (hb_height e2) - int (hb_height c2) \<and>
         lb' = int (hb_height (Node c2 k2 d2 b' e2)) - int (hb_height a2) \<and>
         (b2 = - 2 \<and> lb \<le> 0 \<longrightarrow>
            (lb \<noteq> 0 \<longleftrightarrow>
               hb_height (Node a2 lk ld lb' (Node c2 k2 d2 b' e2)) \<noteq>
                 hb_height (Node (Node a2 lk ld lb c2) k2 d2 b2 e2)))"
    using rot flag
    by (intro exI [of _ "int (hb_height e2) - int (hb_height c2)"]
        exI [of _ "int (hb_height (Node c2 k2 d2 0 e2)) - int (hb_height a2)"]) simp
qed

text \<open>A tree of four keys that is balanced and whose root has balance +1, as its
  right child has; and the tree of three keys that remains when a key has been taken
  from the left of a balanced tree, with balance +2 at the root.\<close>

definition right_heavy_tree :: "(int, int) hb_node" where
  "right_heavy_tree =
     Node (Node Null 1 (Some 10) 0 Null) 2 (Some 20) 1
       (Node Null 3 (Some 30) 1 (Node Null 4 (Some 40) 0 Null))"

theorem rotation_balances_and_flag_witness:
  "rot_left (Node Null 2 (Some 20) 2 (Node Null 3 (Some 30) 1 (Node Null 4 (Some 40) 0 Null))) =
     Inr (True, Node (Node Null 2 (Some 20) 0 Null) 3 (Some 30) 0 (Node Null (4::int) (Some (40::int)) 0 Null)) \<and>
   rot_right (Node (Node (Node Null 1 (Some 10) 0 Null) 2 (Some 20) (- 1) Null) 3 (Some 30) (- 2) Null) =
     Inr (True, Node (Node Null 1 (Some 10) 0 Null) 2 (Some 20) 0 (Node Null (3::int) (Some (30::int)) 0 Null))"
  using rotation_balances_and_flag [of 2 Null 3 "Some 30" 1 "Node Null 4 (Some 40) 0 Null" Null
      2 "Some (20::int)" "- 2" Null "Node Null 1 (Some 10) 0 Null" "2::int" "Some 20" "- 1" Null
      3 "Some (30::int)"]
  by simp

text \<open>The claim as stated (the flag says whether the height changed, on every
  balanced subtree) fails: \<^verbatim>\<open>rot_left\<close> on the balanced tree above returns true and
  leaves the height at 3.\<close>

theorem rot_left_flag_counterexample:
  "hb_avl right_heavy_tree \<and>
   rot_left right_heavy_tree =
     Inr (True, Node (Node (Node Null 1 (Some 10) 0 Null) 2 (Some 20) (- 1) Null) 3 (Some 30) (- 1)
                  (Node Null 4 (Some 40) 0 Null)) \<and>
   hb_height (Node (Node (Node Null 1 (Some 10) 0 Null) 2 (Some 20) (- 1) Null) 3 (Some 30) (- 1)
                (Node Null 4 (Some 40) 0 Null)) = hb_height right_heavy_tree"
  by (simp add: right_heavy_tree_def schar_def Let_def)

section \<open>The invariant of the tree\<close>

text \<open>The binary search tree property under the comparison \<open>c\<close>: every key of the
  left subtree compares less than the key of the node, which compares less than
  every key of the right subtree.\<close>

fun hb_keys :: "('k, 'd) hb_node \<Rightarrow> 'k set" where
  "hb_keys Null = {}"
| "hb_keys (Node l k d b r) = hb_keys l \<union> {k} \<union> hb_keys r"

fun hb_bst :: "('k \<Rightarrow> 'k \<Rightarrow> int) \<Rightarrow> ('k, 'd) hb_node \<Rightarrow> bool" where
  "hb_bst c Null = True"
| "hb_bst c (Node l k d b r) =
     (hb_bst c l \<and> hb_bst c r \<and> (\<forall>x \<in> hb_keys l. c x k < 0) \<and> (\<forall>x \<in> hb_keys r. c k x < 0))"

text \<open>The invariant of a tree: search tree, balance factors, and the count (modulo
  \<open>2^64\<close>) is the number of nodes.\<close>

definition hb_inv :: "('k, 'd) hb_tree \<Rightarrow> bool" where
  "hb_inv t \<longleftrightarrow>
     hb_bst (hb_cmp_func t) (root t) \<and> hb_avl (root t) \<and>
     hb_count t = of_nat (hb_nodes (root t))"

text \<open>Entries in ascending key order.\<close>

definition hb_sorted :: "('k \<Rightarrow> 'k \<Rightarrow> int) \<Rightarrow> ('k \<times> 'd option) list \<Rightarrow> bool" where
  "hb_sorted c es = sorted_wrt (\<lambda>x y. c x y < 0) (map fst es)"

text \<open>The entries that precede the subtree below the ancestors \<open>ps\<close>.\<close>

fun hb_entries_before :: "('k, 'd) hb_parent list \<Rightarrow> ('k \<times> 'd option) list" where
  "hb_entries_before [] = []"
| "hb_entries_before (Parent left k d b sib # ps) =
     (if left then hb_entries_before ps else hb_entries_before ps @ hb_entries sib @ [(k, d)])"

text \<open>The operations of claim C1 and the run of a sequence of them; the answers of
  the allocator are part of the operations.\<close>

datatype ('k, 'd) hb_op =
  Insert 'k "'d option" bool bool
  | Probe 'k "'d option" bool
  | Remove 'k
  | Clear

fun hb_apply :: "('k, 'd) hb_tree \<Rightarrow> ('k, 'd) hb_op \<Rightarrow> error + ('k, 'd) hb_tree" where
  "hb_apply t (Insert ky dt ow alloc) =
     (case hb_tree_insert t ky dt ow alloc of Inl e \<Rightarrow> Inl e | Inr (rc, t') \<Rightarrow> Inr t')"
| "hb_apply t (Probe ky dt alloc) =
     (case hb_tree_probe t ky dt alloc of Inl e \<Rightarrow> Inl e | Inr (rc, dt', t') \<Rightarrow> Inr t')"
| "hb_apply t (Remove ky) =
     (case hb_tree_remove t ky of Inl e \<Rightarrow> Inl e | Inr (rc, t') \<Rightarrow> Inr t')"
| "hb_apply t Clear =
     (case hb_tree_clear t of Inl e \<Rightarrow> Inl e | Inr (n, t') \<Rightarrow> Inr t')"

fun hb_run :: "('k, 'd) hb_tree \<Rightarrow> ('k, 'd) hb_op list \<Rightarrow> error + ('k, 'd) hb_tree" where
  "hb_run t [] = Inr t"
| "hb_run t (x # xs) = (case hb_apply t x of Inl e \<Rightarrow> Inl e | Inr t' \<Rightarrow> hb_run t' xs)"

text \<open>Every ancestor in the list has balance 0; the first ancestor of the list, if
  there is one, has a balance other than 0.\<close>

fun hb_flat :: "('k, 'd) hb_parent list \<Rightarrow> bool" where
  "hb_flat [] = True"
| "hb_flat (Parent left k d b sib # ps) = (b = 0 \<and> hb_flat ps)"

fun hb_heavy :: "('k, 'd) hb_parent list \<Rightarrow> bool" where
  "hb_heavy [] = True"
| "hb_heavy (Parent left k d b sib # ps) = (b \<noteq> 0)"

text \<open>The key \<open>ky\<close> lies between the entries before and the entries after the
  ancestors.\<close>

definition hb_between ::
  "('k \<Rightarrow> 'k \<Rightarrow> int) \<Rightarrow> 'k \<Rightarrow> ('k, 'd) hb_parent list \<Rightarrow> bool" where
  "hb_between c ky ps \<longleftrightarrow>
     (\<forall>x \<in> set (hb_entries_before ps). c (fst x) ky < 0) \<and>
     (\<forall>x \<in> set (hb_entries_after ps). c ky (fst x) < 0)"

subsection \<open>Entries, ancestors and the search tree property\<close>

lemma hb_keys_entries: "hb_keys t = fst ` set (hb_entries t)"
  by (induction t) auto

lemma hb_nodes_entries: "hb_nodes t = length (hb_entries t)"
  by (induction t) auto

lemma cmp_trans: "strict_total_order c \<Longrightarrow> c x y < 0 \<Longrightarrow> c y z < 0 \<Longrightarrow> c x z < 0"
  unfolding strict_total_order_def by blast

lemma cmp_flip: "strict_total_order c \<Longrightarrow> (0 < c x y) = (c y x < 0)"
  unfolding strict_total_order_def by blast

lemma cmp_eq: "strict_total_order c \<Longrightarrow> (c x y = 0) = (x = y)"
  unfolding strict_total_order_def by blast

lemma cmp_irrefl: "strict_total_order c \<Longrightarrow> \<not> c x x < 0"
  unfolding strict_total_order_def by (metis less_irrefl)

lemma cmp_asym: "strict_total_order c \<Longrightarrow> c x y < 0 \<Longrightarrow> \<not> c y x < 0"
  unfolding strict_total_order_def by (metis less_asym)

lemma hb_bst_sorted:
  assumes "strict_total_order c"
  shows "hb_bst c t = hb_sorted c (hb_entries t)"
proof (induction t)
  case Null
  show ?case by (simp add: hb_sorted_def)
next
  case (Node l k d b r)
  have tr: "\<And>x y. x \<in> set (hb_entries l) \<Longrightarrow> y \<in> set (hb_entries r) \<Longrightarrow>
      c (fst x) k < 0 \<Longrightarrow> c k (fst y) < 0 \<Longrightarrow> c (fst x) (fst y) < 0"
    using cmp_trans [OF assms] by blast
  show ?case
    using Node tr
    by (fastforce simp add: hb_sorted_def sorted_wrt_append hb_keys_entries)
qed

lemma hb_entries_attach:
  "hb_entries (hb_attach p n) =
     hb_entries_before [p] @ hb_entries n @ hb_entries_after [p]"
  by (cases p; cases "case p of Parent left k d b sib \<Rightarrow> left") auto

lemma hb_entries_rebuild:
  "hb_entries (hb_rebuild n ps) = hb_entries_before ps @ hb_entries n @ hb_entries_after ps"
proof (induction ps arbitrary: n)
  case Nil
  show ?case by simp
next
  case (Cons p ps)
  obtain left k d b sib where p: "p = Parent left k d b sib" by (cases p)
  show ?case using Cons [of "hb_attach p n"] by (cases left) (simp_all add: p)
qed

lemma hb_rebuild_append: "hb_rebuild n (ps @ qs) = hb_rebuild (hb_rebuild n ps) qs"
  by (induction ps arbitrary: n) simp_all

lemma hb_entries_before_append:
  "hb_entries_before (ps @ qs) = hb_entries_before qs @ hb_entries_before ps"
  by (induction ps rule: hb_entries_before.induct) simp_all

lemma hb_entries_after_append:
  "hb_entries_after (ps @ qs) = hb_entries_after ps @ hb_entries_after qs"
  by (induction ps rule: hb_entries_after.induct) simp_all

lemma rot_left_entries: "rot_left t = Inr (hc, t') \<Longrightarrow> hb_entries t' = hb_entries t"
  by (induction t rule: rot_left.induct) (auto simp add: Let_def)

lemma rot_right_entries: "rot_right t = Inr (hc, t') \<Longrightarrow> hb_entries t' = hb_entries t"
  by (induction t rule: rot_right.induct) (auto simp add: Let_def)

subsection \<open>Balance through rebuilding and retracing\<close>

lemma hb_avl_attach_swap:
  assumes "hb_avl (hb_attach p n)" and "hb_avl n'" and "hb_height n' = hb_height n"
  shows "hb_avl (hb_attach p n') \<and> hb_height (hb_attach p n') = hb_height (hb_attach p n)"
proof -
  obtain left k d b sib where p: "p = Parent left k d b sib" by (cases p)
  show ?thesis using assms by (cases left) (simp_all add: p)
qed

lemma hb_avl_attach_D: "hb_avl (hb_attach p n) \<Longrightarrow> hb_avl n"
proof -
  assume a: "hb_avl (hb_attach p n)"
  obtain left k d b sib where p: "p = Parent left k d b sib" by (cases p)
  show ?thesis using a by (cases left) (simp_all add: p)
qed

lemma hb_avl_rebuild_D: "hb_avl (hb_rebuild n ps) \<Longrightarrow> hb_avl n"
  by (induction ps arbitrary: n) (auto dest: hb_avl_attach_D)

lemma hb_avl_rebuild_swap:
  "hb_avl (hb_rebuild n ps) \<Longrightarrow> hb_avl n' \<Longrightarrow> hb_height n' = hb_height n \<Longrightarrow>
     hb_avl (hb_rebuild n' ps)"
proof (induction ps arbitrary: n n')
  case Nil
  then show ?case by simp
next
  case (Cons p ps)
  from Cons.prems(1) have "hb_avl (hb_attach p n)"
    by (auto dest: hb_avl_rebuild_D)
  with Cons.prems(2,3)
  have "hb_avl (hb_attach p n') \<and> hb_height (hb_attach p n') = hb_height (hb_attach p n)"
    by (intro hb_avl_attach_swap)
  with Cons.IH [of "hb_attach p n" "hb_attach p n'"] Cons.prems(1) show ?case by simp
qed

lemma hb_insert_retrace_avl:
  "hb_avl (hb_rebuild n0 ps) \<Longrightarrow> hb_flat ps \<Longrightarrow> hb_avl n1 \<Longrightarrow>
   hb_height n1 = hb_height n0 + 1 \<Longrightarrow>
     hb_avl (hb_insert_retrace n1 ps) \<and>
     hb_height (hb_insert_retrace n1 ps) = hb_height (hb_rebuild n0 ps) + 1"
proof (induction ps arbitrary: n0 n1)
  case Nil
  then show ?case by simp
next
  case (Cons p ps)
  obtain left k d b sib where p: "p = Parent left k d b sib" by (cases p)
  from Cons.prems(2) have b: "b = 0" and flat: "hb_flat ps" by (simp_all add: p)
  from Cons.prems(1) have old: "hb_avl (hb_attach p n0)"
    by (auto dest: hb_avl_rebuild_D)
  let ?n1 = "hb_attach (Parent left k d (if left then - 1 else 1) sib) n1"
  have new: "hb_avl ?n1 \<and> hb_height ?n1 = hb_height (hb_attach p n0) + 1"
    using old Cons.prems(3,4) by (cases left) (auto simp add: p b)
  from Cons.IH [of "hb_attach p n0" ?n1] Cons.prems(1) flat new
  show ?case by (simp add: p)
qed

lemma hb_insert_retrace_entries:
  "hb_entries (hb_insert_retrace n ps) = hb_entries (hb_rebuild n ps)"
proof (induction n ps rule: hb_insert_retrace.induct)
  case (1 n)
  show ?case by simp
next
  case (2 n left k d b sib ps)
  have "hb_entries (hb_rebuild (hb_attach (Parent left k d (if left then - 1 else 1) sib) n) ps)
      = hb_entries (hb_rebuild (hb_attach (Parent left k d b sib) n) ps)"
    by (cases left) (simp_all add: hb_entries_rebuild)
  with 2 show ?case by simp
qed

text \<open>The balance at the root of what the retracing loop returns.\<close>

lemma hb_insert_retrace_bal:
  "ps \<noteq> [] \<Longrightarrow> \<exists>l k d b r. hb_insert_retrace n ps = Node l k d b r \<and> (b = - 1 \<or> b = 1)"
proof (induction n ps rule: hb_insert_retrace.induct)
  case (1 n)
  then show ?case by simp
next
  case (2 n left k d b sib ps)
  show ?case
  proof (cases ps)
    case Nil
    then show ?thesis by (cases left) simp_all
  next
    case (Cons q qs)
    with 2 show ?thesis by simp
  qed
qed

subsection \<open>The adjustment after an insertion\<close>

lemma hb_height_0 [simp]: "(hb_height t = 0) = (t = Null)"
  by (cases t) simp_all

lemma hb_insert_fix_left:
  assumes old: "hb_avl (Node n0 k d b sib)" and b: "b \<noteq> 0"
    and new: "hb_avl n1" and h: "hb_height n1 = hb_height n0 + 1"
    and rb: "n1 = Node Null ky dt 0 Null \<or>
             (\<exists>l k' d' b' r. n1 = Node l k' d' b' r \<and> (b' = - 1 \<or> b' = 1))"
  shows "\<exists>t. hb_insert_fix n1 (Parent True k d b sib) = Inr t \<and> hb_avl t \<and>
           hb_height t = hb_height (Node n0 k d b sib) \<and>
           hb_entries t = hb_entries (Node n1 k d b sib)"
proof -
  from old b have "b = 1 \<or> b = - 1" by auto
  then show ?thesis
  proof
    assume b1: "b = 1"
    then show ?thesis
      using old new h by (auto simp add: hb_insert_fix_def schar_def)
  next
    assume b1: "b = - 1"
    with old have hs: "int (hb_height sib) = int (hb_height n0) - 1" by simp
    with h have "2 \<le> hb_height n1" by simp
    with rb obtain l k' d' b' r where n1': "n1 = Node l k' d' b' r" and b': "b' = - 1 \<or> b' = 1"
      by auto
    from b' show ?thesis
    proof
      assume m: "b' = - 1"
      with n1' have n1: "n1 = Node l k' d' (- 1) r" by simp
      let ?t = "Node l k' d' (int (hb_height (Node r k d 0 sib)) - int (hb_height l))
                  (Node r k d (int (hb_height sib) - int (hb_height r)) sib)"
      have rot: "rot_right (Node (Node l k' d' (- 1) r) k d (- 2) sib) = Inr (- 1 \<noteq> (0::int), ?t)"
        using new hs h by (intro rot_right_true) (auto simp add: n1)
      have eq: "hb_insert_fix n1 (Parent True k d b sib) = Inr ?t"
        by (simp add: hb_insert_fix_def schar_def n1 b1 rot del: rot_right.simps)
      have "hb_avl ?t \<and> hb_height ?t = hb_height (Node n0 k d b sib) \<and>
           hb_entries ?t = hb_entries (Node n1 k d b sib)"
        using new hs h old by (auto simp add: n1 b1)
      with eq show ?thesis by blast
    next
      assume m: "b' = 1"
      with new n1' obtain c rk rd rb e where r: "r = Node c rk rd rb e"
        by (cases r) auto
      from m n1' r have n1: "n1 = Node l k' d' 1 (Node c rk rd rb e)" by simp
      let ?n' = "Node (Node l k' d' (int (hb_height c) - int (hb_height l)) c) rk rd
                  (int (hb_height e) - int (hb_height (Node l k' d' 0 c))) e"
      have rot1: "rot_left (Node l k' d' 1 (Node c rk rd rb e)) = Inr (rb \<noteq> 0, ?n')"
        using new by (intro rot_left_true) (auto simp add: n1)
      let ?t = "Node (Node l k' d' (int (hb_height c) - int (hb_height l)) c) rk rd
                  (int (hb_height (Node e k d 0 sib))
                    - int (hb_height (Node l k' d' (int (hb_height c) - int (hb_height l)) c)))
                  (Node e k d (int (hb_height sib) - int (hb_height e)) sib)"
      have rot2: "rot_right (Node ?n' k d (- 2) sib) =
           Inr (int (hb_height e) - int (hb_height (Node l k' d' 0 c)) \<noteq> 0, ?t)"
        using new hs h by (intro rot_right_true) (auto simp add: n1)
      have eq: "hb_insert_fix n1 (Parent True k d b sib) = Inr ?t"
        by (simp add: hb_insert_fix_def schar_def n1 b1 rot1 rot2
            del: rot_left.simps rot_right.simps hb_height.simps)
      have "hb_avl ?t \<and> hb_height ?t = hb_height (Node n0 k d b sib) \<and>
           hb_entries ?t = hb_entries (Node n1 k d b sib)"
        using new hs h old by (auto simp add: n1 b1)
      with eq show ?thesis by blast
    qed
  qed
qed


lemma hb_insert_fix_right:
  assumes old: "hb_avl (Node sib k d b n0)" and b: "b \<noteq> 0"
    and new: "hb_avl n1" and h: "hb_height n1 = hb_height n0 + 1"
    and rb: "n1 = Node Null ky dt 0 Null \<or>
             (\<exists>l k' d' b' r. n1 = Node l k' d' b' r \<and> (b' = - 1 \<or> b' = 1))"
  shows "\<exists>t. hb_insert_fix n1 (Parent False k d b sib) = Inr t \<and> hb_avl t \<and>
           hb_height t = hb_height (Node sib k d b n0) \<and>
           hb_entries t = hb_entries (Node sib k d b n1)"
proof -
  from old b have "b = - 1 \<or> b = 1" by auto
  then show ?thesis
  proof
    assume b1: "b = - 1"
    then show ?thesis
      using old new h by (auto simp add: hb_insert_fix_def schar_def)
  next
    assume b1: "b = 1"
    with old have hs: "int (hb_height sib) = int (hb_height n0) - 1" by simp
    with h have "2 \<le> hb_height n1" by simp
    with rb obtain l k' d' b' r where n1': "n1 = Node l k' d' b' r" and b': "b' = 1 \<or> b' = - 1"
      by auto
    from b' show ?thesis
    proof
      assume m: "b' = 1"
      with n1' have n1: "n1 = Node l k' d' 1 r" by simp
      let ?t = "Node (Node sib k d (int (hb_height l) - int (hb_height sib)) l) k' d'
                  (int (hb_height r) - int (hb_height (Node sib k d 0 l))) r"
      have rot: "rot_left (Node sib k d 2 (Node l k' d' 1 r)) = Inr (1 \<noteq> (0::int), ?t)"
        using new hs h by (intro rot_left_true) (auto simp add: n1)
      have eq: "hb_insert_fix n1 (Parent False k d b sib) = Inr ?t"
        by (simp add: hb_insert_fix_def schar_def n1 b1 rot del: rot_left.simps)
      have "hb_avl ?t \<and> hb_height ?t = hb_height (Node sib k d b n0) \<and>
           hb_entries ?t = hb_entries (Node sib k d b n1)"
        using new hs h old by (auto simp add: n1 b1)
      with eq show ?thesis by blast
    next
      assume m: "b' = - 1"
      with new n1' obtain a lk ld lb c where l: "l = Node a lk ld lb c"
        by (cases l) auto
      from m n1' l have n1: "n1 = Node (Node a lk ld lb c) k' d' (- 1) r" by simp
      let ?n' = "Node a lk ld (int (hb_height (Node c k' d' 0 r)) - int (hb_height a))
                  (Node c k' d' (int (hb_height r) - int (hb_height c)) r)"
      have rot1: "rot_right (Node (Node a lk ld lb c) k' d' (- 1) r) = Inr (lb \<noteq> 0, ?n')"
        using new by (intro rot_right_true) (auto simp add: n1)
      let ?t = "Node (Node sib k d (int (hb_height a) - int (hb_height sib)) a) lk ld
                  (int (hb_height (Node c k' d' (int (hb_height r) - int (hb_height c)) r))
                    - int (hb_height (Node sib k d 0 a)))
                  (Node c k' d' (int (hb_height r) - int (hb_height c)) r)"
      have rot2: "rot_left (Node sib k d 2 ?n') =
           Inr (int (hb_height (Node c k' d' 0 r)) - int (hb_height a) \<noteq> 0, ?t)"
        using new hs h by (intro rot_left_true) (auto simp add: n1)
      have eq: "hb_insert_fix n1 (Parent False k d b sib) = Inr ?t"
        by (simp add: hb_insert_fix_def schar_def n1 b1 rot1 rot2
            del: rot_left.simps rot_right.simps hb_height.simps)
      have "hb_avl ?t \<and> hb_height ?t = hb_height (Node sib k d b n0) \<and>
           hb_entries ?t = hb_entries (Node sib k d b n1)"
        using new hs h old by (auto simp add: n1 b1)
      with eq show ?thesis by blast
    qed
  qed
qed

lemma hb_insert_fix_avl:
  assumes old: "hb_avl (hb_attach (Parent left k d b sib) n0)" and b: "b \<noteq> 0"
    and new: "hb_avl n1" and h: "hb_height n1 = hb_height n0 + 1"
    and rb: "n1 = Node Null ky dt 0 Null \<or>
             (\<exists>l k' d' b' r. n1 = Node l k' d' b' r \<and> (b' = - 1 \<or> b' = 1))"
  shows "\<exists>t. hb_insert_fix n1 (Parent left k d b sib) = Inr t \<and> hb_avl t \<and>
           hb_height t = hb_height (hb_attach (Parent left k d b sib) n0) \<and>
           hb_entries t = hb_entries (hb_attach (Parent left k d b sib) n1)"
proof (cases left)
  case True
  with hb_insert_fix_left [of n0 k d b sib n1 ky dt] assms show ?thesis by simp
next
  case False
  with hb_insert_fix_right [of sib k d b n0 n1 ky dt] assms show ?thesis by simp
qed

subsection \<open>The descent\<close>

lemma hb_insert_find_path:
  "hb_insert_find c ky n ps qs = (n', ps', qs') \<Longrightarrow>
     hb_remove_find c ky n (ps @ qs) = (n', ps' @ qs')"
  by (induction c ky n ps qs rule: hb_insert_find.induct) (auto split: if_splits)

lemma hb_insert_find_flat:
  "hb_insert_find c ky n ps qs = (n', ps', qs') \<Longrightarrow> hb_flat ps \<Longrightarrow> hb_heavy qs \<Longrightarrow>
     hb_flat ps' \<and> hb_heavy qs'"
  by (induction c ky n ps qs rule: hb_insert_find.induct) (auto split: if_splits)

lemma hb_remove_find_rebuild:
  "hb_remove_find c ky n ps = (n', ps') \<Longrightarrow> hb_rebuild n' ps' = hb_rebuild n ps"
  by (induction c ky n ps rule: hb_remove_find.induct) (auto split: if_splits)

lemma hb_remove_find_node:
  "hb_remove_find c ky n ps = (n', ps') \<Longrightarrow>
     n' = Null \<or> (\<exists>l k d b r. n' = Node l k d b r \<and> c ky k = 0)"
  by (induction c ky n ps rule: hb_remove_find.induct) (auto split: if_splits)

lemma hb_remove_find_between:
  assumes sto: "strict_total_order c"
  shows "hb_remove_find c ky n ps = (n', ps') \<Longrightarrow> hb_bst c n \<Longrightarrow> hb_between c ky ps \<Longrightarrow>
     hb_between c ky ps'"
proof (induction n arbitrary: ps)
  case Null
  then show ?case by simp
next
  case (Node l k d b r)
  note 2 = Node
  note tr = cmp_trans [OF sto]
  show ?case
  proof (cases "c ky k = 0")
    case True
    with 2 show ?thesis by simp
  next
    case False
    show ?thesis
    proof (cases "c ky k < 0")
      case True
      have "c ky (fst x) < 0" if "x \<in> set (hb_entries r)" for x
      proof -
        from that Node.prems(2) have "c k (fst x) < 0" by (simp add: hb_keys_entries)
        with True show ?thesis by (rule tr)
      qed
      then have "hb_between c ky (Parent True k d b r # ps)"
        using Node.prems(3) True by (auto simp add: hb_between_def)
      with 2 True False show ?thesis by simp
    next
      case F: False
      with False have "0 < c ky k" by simp
      then have lt: "c k ky < 0" using sto by (simp add: cmp_flip)
      have "c (fst x) ky < 0" if "x \<in> set (hb_entries l)" for x
      proof -
        from that Node.prems(2) have "c (fst x) k < 0" by (simp add: hb_keys_entries)
        then show ?thesis using lt by (rule tr)
      qed
      then have "hb_between c ky (Parent False k d b l # ps)"
        using Node.prems(3) lt by (auto simp add: hb_between_def)
      with 2 F False show ?thesis by simp
    qed
  qed
qed

subsection \<open>Insertion\<close>

lemma hb_insert_new_ok:
  assumes avl: "hb_avl (hb_rebuild Null (ps @ qs))" and flat: "hb_flat ps" and heavy: "hb_heavy qs"
    and cnt: "hb_count t = of_nat (hb_nodes (hb_rebuild Null (ps @ qs)))"
  shows "\<exists>r. hb_insert_new t ky dt ps qs True =
               Inr (Some (t\<lparr>root := r, hb_count := hb_count t + 1\<rparr>)) \<and>
             hb_avl r \<and>
             hb_entries r =
               hb_entries_before (ps @ qs) @ (ky, dt) # hb_entries_after (ps @ qs)"
proof -
  let ?leaf = "Node Null ky dt 0 Null"
  let ?s0 = "hb_rebuild Null ps"
  let ?s1 = "hb_insert_retrace ?leaf ps"
  from avl have avl0: "hb_avl ?s0"
    by (auto simp add: hb_rebuild_append dest: hb_avl_rebuild_D)
  have s1: "hb_avl ?s1 \<and> hb_height ?s1 = hb_height ?s0 + 1"
    using avl0 flat by (intro hb_insert_retrace_avl) simp_all
  have e1: "hb_entries ?s1 = hb_entries_before ps @ (ky, dt) # hb_entries_after ps"
    by (simp add: hb_insert_retrace_entries hb_entries_rebuild)
  show ?thesis
  proof (cases qs)
    case Nil
    show ?thesis
    proof (cases ps)
      case ps: Nil
      with Nil cnt have "hb_count t = 0" by simp
      then have "hb_insert_new t ky dt ps qs True =
               Inr (Some (t\<lparr>root := Node Null ky dt 0 Null, hb_count := hb_count t + 1\<rparr>))"
        by (simp add: hb_insert_new_def Nil ps)
      then show ?thesis by (intro exI [of _ "Node Null ky dt 0 Null"]) (simp add: Nil ps)
    next
      case (Cons p ps')
      then have "hb_insert_new t ky dt ps qs True =
               Inr (Some (t\<lparr>root := hb_insert_retrace (Node Null ky dt 0 Null) ps,
                              hb_count := hb_count t + 1\<rparr>))"
        by (simp add: hb_insert_new_def Nil)
      then show ?thesis using s1 e1
        by (intro exI [of _ "hb_insert_retrace (Node Null ky dt 0 Null) ps"]) (simp add: Nil)
    qed
  next
    case (Cons q qs')
    obtain left k d b sib where q: "q = Parent left k d b sib" by (cases q)
    from heavy Cons q have b: "b \<noteq> 0" by simp
    from avl have old: "hb_avl (hb_rebuild (hb_attach q ?s0) qs')"
      by (simp add: hb_rebuild_append Cons)
    then have oldq: "hb_avl (hb_attach (Parent left k d b sib) ?s0)"
      unfolding q by (rule hb_avl_rebuild_D)
    have rb: "?s1 = Node Null ky dt 0 Null \<or>
             (\<exists>l k' d' b' r. ?s1 = Node l k' d' b' r \<and> (b' = - 1 \<or> b' = 1))"
    proof (cases ps)
      case Nil
      then show ?thesis by simp
    next
      case (Cons p ps')
      then have "ps \<noteq> []" by simp
      from hb_insert_retrace_bal [OF this, of ?leaf] show ?thesis by blast
    qed
    from hb_insert_fix_avl [OF oldq b _ _ rb] s1
    obtain t1 where fx: "hb_insert_fix ?s1 (Parent left k d b sib) = Inr t1"
      and avl1: "hb_avl t1"
      and h1: "hb_height t1 = hb_height (hb_attach (Parent left k d b sib) ?s0)"
      and en1: "hb_entries t1 = hb_entries (hb_attach (Parent left k d b sib) ?s1)"
      by blast
    have avlr: "hb_avl (hb_rebuild t1 qs')"
      using old avl1 h1 unfolding q by (rule hb_avl_rebuild_swap)
    have "hb_entries (hb_rebuild t1 qs') = hb_entries (hb_rebuild ?s1 (q # qs'))"
      by (simp add: hb_entries_rebuild en1 q)
    also have "\<dots> = hb_entries_before (ps @ qs) @ (ky, dt) # hb_entries_after (ps @ qs)"
      by (simp add: hb_entries_rebuild e1 Cons hb_entries_before_append hb_entries_after_append
          del: hb_rebuild.simps)
    finally have enr: "hb_entries (hb_rebuild t1 qs') =
        hb_entries_before (ps @ qs) @ (ky, dt) # hb_entries_after (ps @ qs)" .
    have "hb_insert_new t ky dt ps qs True =
            Inr (Some (t\<lparr>root := hb_rebuild t1 qs', hb_count := hb_count t + 1\<rparr>))"
      by (simp add: hb_insert_new_def Cons q fx)
    with avlr enr show ?thesis by blast
  qed
qed

lemma hb_sorted_append:
  "hb_sorted c (xs @ ys) \<longleftrightarrow>
     hb_sorted c xs \<and> hb_sorted c ys \<and> (\<forall>x \<in> set xs. \<forall>y \<in> set ys. c (fst x) (fst y) < 0)"
  by (auto simp add: hb_sorted_def sorted_wrt_append)

lemma hb_sorted_Cons:
  "hb_sorted c (x # ys) \<longleftrightarrow> hb_sorted c ys \<and> (\<forall>y \<in> set ys. c (fst x) (fst y) < 0)"
  by (auto simp add: hb_sorted_def)

text \<open>What the descent of insert and probe finds in a tree that satisfies the
  invariant: a null link between the entries \<open>B\<close> and \<open>A\<close>, or the node of the key.\<close>

lemma hb_insert_find_cases:
  assumes inv: "hb_inv t" and sto: "strict_total_order (hb_cmp_func t)"
  shows "\<exists>n ps qs. hb_insert_find (hb_cmp_func t) ky (root t) [] [] = (n, ps, qs) \<and>
           hb_rebuild n (ps @ qs) = root t \<and> hb_flat ps \<and> hb_heavy qs \<and>
           hb_between (hb_cmp_func t) ky (ps @ qs) \<and>
           (n = Null \<or> (\<exists>l d b r. n = Node l ky d b r \<and>
                (\<forall>x \<in> set (hb_entries l). hb_cmp_func t (fst x) ky < 0) \<and>
                (\<forall>x \<in> set (hb_entries r). hb_cmp_func t ky (fst x) < 0)))"
proof -
  let ?c = "hb_cmp_func t"
  obtain n ps qs where f: "hb_insert_find ?c ky (root t) [] [] = (n, ps, qs)"
    by (cases "hb_insert_find ?c ky (root t) [] []") auto
  from hb_insert_find_path [OF f] have p: "hb_remove_find ?c ky (root t) [] = (n, ps @ qs)"
    by simp
  from hb_remove_find_rebuild [OF p] have rb: "hb_rebuild n (ps @ qs) = root t" by simp
  from hb_insert_find_flat [OF f] have fl: "hb_flat ps" "hb_heavy qs" by simp_all
  from inv have bst: "hb_bst ?c (root t)" by (simp add: hb_inv_def)
  have btw: "hb_between ?c ky (ps @ qs)"
    using hb_remove_find_between [OF sto p bst] by (simp add: hb_between_def)
  from bst have srt: "hb_sorted ?c (hb_entries (hb_rebuild n (ps @ qs)))"
    by (simp add: hb_bst_sorted [OF sto] rb)
  have "n = Null \<or> (\<exists>l d b r. n = Node l ky d b r \<and>
                (\<forall>x \<in> set (hb_entries l). ?c (fst x) ky < 0) \<and>
                (\<forall>x \<in> set (hb_entries r). ?c ky (fst x) < 0))"
  proof (cases n)
    case Null
    then show ?thesis by simp
  next
    case (Node l k d b r)
    with hb_remove_find_node [OF p] have "?c ky k = 0" by simp
    with sto have k: "k = ky" by (simp add: cmp_eq)
    from srt have "hb_sorted ?c (hb_entries n)"
      by (simp add: hb_entries_rebuild hb_sorted_append)
    then show ?thesis
      unfolding Node k by (auto simp add: hb_sorted_append hb_sorted_Cons)
  qed
  with f rb fl btw show ?thesis by blast
qed

text \<open>The effect of \<^verbatim>\<open>hb_tree_insert\<close> on a tree that satisfies the invariant, in terms of
  the entries \<open>B\<close> before and \<open>A\<close> after the place of the key.\<close>

lemma hb_tree_insert_effect:
  assumes inv: "hb_inv t" and sto: "strict_total_order (hb_cmp_func t)"
  shows "\<exists>B A.
     (\<forall>x \<in> set B. hb_cmp_func t (fst x) ky < 0) \<and>
     (\<forall>x \<in> set A. hb_cmp_func t ky (fst x) < 0) \<and>
     ((hb_entries (root t) = B @ A \<and>
       (if alloc
        then \<exists>r. hb_tree_insert t ky dt ow alloc =
                    Inr (0, t\<lparr>root := r, hb_count := hb_count t + 1\<rparr>) \<and>
                  hb_avl r \<and> hb_entries r = B @ (ky, dt) # A
        else hb_tree_insert t ky dt ow alloc = Inr (- 1, t))) \<or>
      (\<exists>d. hb_entries (root t) = B @ (ky, d) # A \<and>
       (if ow
        then \<exists>r. hb_tree_insert t ky dt ow alloc =
                    Inr (0, t\<lparr>root := r,
                                hb_deleted := (if hb_del_func t then hb_deleted t @ [(ky, d)]
                                               else hb_deleted t)\<rparr>) \<and>
                  hb_avl r \<and> hb_entries r = B @ (ky, dt) # A
        else hb_tree_insert t ky dt ow alloc = Inr (1, t))))"
proof -
  let ?c = "hb_cmp_func t"
  from hb_insert_find_cases [OF inv sto, of ky]
  obtain n ps qs where f: "hb_insert_find ?c ky (root t) [] [] = (n, ps, qs)"
    and rb: "hb_rebuild n (ps @ qs) = root t" and fl: "hb_flat ps" "hb_heavy qs"
    and btw: "hb_between ?c ky (ps @ qs)"
    and n: "n = Null \<or> (\<exists>l d b r. n = Node l ky d b r \<and>
                (\<forall>x \<in> set (hb_entries l). ?c (fst x) ky < 0) \<and>
                (\<forall>x \<in> set (hb_entries r). ?c ky (fst x) < 0))"
    by blast
  from inv have avl: "hb_avl (root t)" and cnt: "hb_count t = of_nat (hb_nodes (root t))"
    by (simp_all add: hb_inv_def)
  from n show ?thesis
  proof
    assume nn: "n = Null"
    let ?B = "hb_entries_before (ps @ qs)" and ?A = "hb_entries_after (ps @ qs)"
    have en: "hb_entries (root t) = ?B @ ?A"
      using rb [symmetric] by (simp add: hb_entries_rebuild nn)
    have res: "if alloc
        then \<exists>r. hb_tree_insert t ky dt ow alloc =
                    Inr (0, t\<lparr>root := r, hb_count := hb_count t + 1\<rparr>) \<and>
                  hb_avl r \<and> hb_entries r = ?B @ (ky, dt) # ?A
        else hb_tree_insert t ky dt ow alloc = Inr (- 1, t)"
    proof (cases alloc)
      case True
      from hb_insert_new_ok [of ps qs t ky dt] avl cnt fl rb nn
      obtain r where "hb_insert_new t ky dt ps qs True =
               Inr (Some (t\<lparr>root := r, hb_count := hb_count t + 1\<rparr>))"
        and "hb_avl r" and "hb_entries r = ?B @ (ky, dt) # ?A"
        by auto
      then show ?thesis
        using True by (auto simp add: hb_tree_insert_def f nn)
    next
      case False
      then show ?thesis by (simp add: hb_tree_insert_def f nn hb_insert_new_def)
    qed
    from btw en res show ?thesis
      unfolding hb_between_def by blast
  next
    assume "\<exists>l d b r. n = Node l ky d b r \<and>
                (\<forall>x \<in> set (hb_entries l). ?c (fst x) ky < 0) \<and>
                (\<forall>x \<in> set (hb_entries r). ?c ky (fst x) < 0)"
    then obtain l d b r where nn: "n = Node l ky d b r"
      and lo: "\<forall>x \<in> set (hb_entries l). ?c (fst x) ky < 0"
      and hi: "\<forall>x \<in> set (hb_entries r). ?c ky (fst x) < 0"
      by blast
    let ?B = "hb_entries_before (ps @ qs) @ hb_entries l"
    let ?A = "hb_entries r @ hb_entries_after (ps @ qs)"
    have en: "hb_entries (root t) = ?B @ (ky, d) # ?A"
      using rb [symmetric] by (simp add: hb_entries_rebuild nn)
    have B: "\<forall>x \<in> set ?B. ?c (fst x) ky < 0" and A: "\<forall>x \<in> set ?A. ?c ky (fst x) < 0"
      using btw lo hi by (auto simp add: hb_between_def)
    let ?r = "hb_rebuild (Node l ky dt b r) (ps @ qs)"
    from avl rb nn have old: "hb_avl (hb_rebuild (Node l ky d b r) (ps @ qs))" by simp
    then have "hb_avl (Node l ky d b r)" by (rule hb_avl_rebuild_D)
    then have "hb_avl (Node l ky dt b r)"
      and "hb_height (Node l ky dt b r) = hb_height (Node l ky d b r)"
      by simp_all
    with old have avlr: "hb_avl ?r"
      by (rule hb_avl_rebuild_swap)
    have enr: "hb_entries ?r = ?B @ (ky, dt) # ?A"
      by (simp add: hb_entries_rebuild)
    have res: "if ow
        then \<exists>r. hb_tree_insert t ky dt ow alloc =
                    Inr (0, t\<lparr>root := r,
                                hb_deleted := (if hb_del_func t then hb_deleted t @ [(ky, d)]
                                               else hb_deleted t)\<rparr>) \<and>
                  hb_avl r \<and> hb_entries r = ?B @ (ky, dt) # ?A
        else hb_tree_insert t ky dt ow alloc = Inr (1, t)"
    proof (cases ow)
      case True
      have "hb_tree_insert t ky dt ow alloc =
                    Inr (0, t\<lparr>root := ?r,
                                hb_deleted := (if hb_del_func t then hb_deleted t @ [(ky, d)]
                                               else hb_deleted t)\<rparr>)"
        using True by (simp add: hb_tree_insert_def f nn)
      with avlr enr True show ?thesis by auto
    next
      case False
      then show ?thesis by (simp add: hb_tree_insert_def f nn)
    qed
    from B A en res show ?thesis by blast
  qed
qed

lemma hb_tree_probe_effect:
  assumes inv: "hb_inv t" and sto: "strict_total_order (hb_cmp_func t)"
  shows "\<exists>B A.
     (\<forall>x \<in> set B. hb_cmp_func t (fst x) ky < 0) \<and>
     (\<forall>x \<in> set A. hb_cmp_func t ky (fst x) < 0) \<and>
     ((hb_entries (root t) = B @ A \<and>
       (if alloc
        then \<exists>r. hb_tree_probe t ky dt alloc =
                    Inr (1, dt, t\<lparr>root := r, hb_count := hb_count t + 1\<rparr>) \<and>
                  hb_avl r \<and> hb_entries r = B @ (ky, dt) # A
        else hb_tree_probe t ky dt alloc = Inr (- 1, dt, t))) \<or>
      (\<exists>d. hb_entries (root t) = B @ (ky, d) # A \<and>
            hb_tree_probe t ky dt alloc = Inr (0, d, t)))"
proof -
  let ?c = "hb_cmp_func t"
  from hb_insert_find_cases [OF inv sto, of ky]
  obtain n ps qs where f: "hb_insert_find ?c ky (root t) [] [] = (n, ps, qs)"
    and rb: "hb_rebuild n (ps @ qs) = root t" and fl: "hb_flat ps" "hb_heavy qs"
    and btw: "hb_between ?c ky (ps @ qs)"
    and n: "n = Null \<or> (\<exists>l d b r. n = Node l ky d b r \<and>
                (\<forall>x \<in> set (hb_entries l). ?c (fst x) ky < 0) \<and>
                (\<forall>x \<in> set (hb_entries r). ?c ky (fst x) < 0))"
    by blast
  from inv have avl: "hb_avl (root t)" and cnt: "hb_count t = of_nat (hb_nodes (root t))"
    by (simp_all add: hb_inv_def)
  from n show ?thesis
  proof
    assume nn: "n = Null"
    let ?B = "hb_entries_before (ps @ qs)" and ?A = "hb_entries_after (ps @ qs)"
    have en: "hb_entries (root t) = ?B @ ?A"
      using rb [symmetric] by (simp add: hb_entries_rebuild nn)
    have res: "if alloc
        then \<exists>r. hb_tree_probe t ky dt alloc =
                    Inr (1, dt, t\<lparr>root := r, hb_count := hb_count t + 1\<rparr>) \<and>
                  hb_avl r \<and> hb_entries r = ?B @ (ky, dt) # ?A
        else hb_tree_probe t ky dt alloc = Inr (- 1, dt, t)"
    proof (cases alloc)
      case True
      from hb_insert_new_ok [of ps qs t ky dt] avl cnt fl rb nn
      obtain r where "hb_insert_new t ky dt ps qs True =
               Inr (Some (t\<lparr>root := r, hb_count := hb_count t + 1\<rparr>))"
        and "hb_avl r" and "hb_entries r = ?B @ (ky, dt) # ?A"
        by auto
      then show ?thesis
        using True by (auto simp add: hb_tree_probe_def f nn)
    next
      case False
      then show ?thesis by (simp add: hb_tree_probe_def f nn hb_insert_new_def)
    qed
    from btw en res show ?thesis
      unfolding hb_between_def by blast
  next
    assume "\<exists>l d b r. n = Node l ky d b r \<and>
                (\<forall>x \<in> set (hb_entries l). ?c (fst x) ky < 0) \<and>
                (\<forall>x \<in> set (hb_entries r). ?c ky (fst x) < 0)"
    then obtain l d b r where nn: "n = Node l ky d b r"
      and lo: "\<forall>x \<in> set (hb_entries l). ?c (fst x) ky < 0"
      and hi: "\<forall>x \<in> set (hb_entries r). ?c ky (fst x) < 0"
      by blast
    let ?B = "hb_entries_before (ps @ qs) @ hb_entries l"
    let ?A = "hb_entries r @ hb_entries_after (ps @ qs)"
    have en: "hb_entries (root t) = ?B @ (ky, d) # ?A"
      using rb [symmetric] by (simp add: hb_entries_rebuild nn)
    have B: "\<forall>x \<in> set ?B. ?c (fst x) ky < 0" and A: "\<forall>x \<in> set ?A. ?c ky (fst x) < 0"
      using btw lo hi by (auto simp add: hb_between_def)
    have "hb_tree_probe t ky dt alloc = Inr (0, d, t)"
      by (simp add: hb_tree_probe_def f nn)
    with B A en show ?thesis by blast
  qed
qed

lemma hb_inv_inserted:
  assumes inv: "hb_inv t" and sto: "strict_total_order (hb_cmp_func t)"
    and en: "hb_entries (root t) = B @ A"
    and B: "\<forall>x \<in> set B. hb_cmp_func t (fst x) ky < 0"
    and A: "\<forall>x \<in> set A. hb_cmp_func t ky (fst x) < 0"
    and r: "hb_avl r" "hb_entries r = B @ (ky, dt) # A"
  shows "hb_inv (t\<lparr>root := r, hb_count := hb_count t + 1\<rparr>)"
proof -
  from inv en have "hb_sorted (hb_cmp_func t) (B @ A)"
    by (simp add: hb_inv_def hb_bst_sorted [OF sto])
  with B A have "hb_sorted (hb_cmp_func t) (B @ (ky, dt) # A)"
    by (auto simp add: hb_sorted_append hb_sorted_Cons)
  with r have bst: "hb_bst (hb_cmp_func t) r" by (simp add: hb_bst_sorted [OF sto])
  from inv en have "hb_count t + 1 = of_nat (hb_nodes r)"
    by (simp add: hb_inv_def hb_nodes_entries r)
  with bst r(1) show ?thesis by (simp add: hb_inv_def)
qed

lemma hb_inv_replaced:
  assumes inv: "hb_inv t" and sto: "strict_total_order (hb_cmp_func t)"
    and en: "hb_entries (root t) = B @ (ky, d) # A"
    and r: "hb_avl r" "hb_entries r = B @ (ky, dt) # A"
  shows "hb_inv (t\<lparr>root := r, hb_deleted := lg\<rparr>)"
proof -
  from inv en have "hb_sorted (hb_cmp_func t) (B @ (ky, d) # A)"
    by (simp add: hb_inv_def hb_bst_sorted [OF sto])
  then have "hb_sorted (hb_cmp_func t) (B @ (ky, dt) # A)"
    by (simp add: hb_sorted_def)
  with r have bst: "hb_bst (hb_cmp_func t) r" by (simp add: hb_bst_sorted [OF sto])
  from inv en have "hb_count t = of_nat (hb_nodes r)"
    by (simp add: hb_inv_def hb_nodes_entries r)
  with bst r(1) show ?thesis by (simp add: hb_inv_def)
qed

lemma hb_tree_insert_inv:
  assumes inv: "hb_inv t" and sto: "strict_total_order (hb_cmp_func t)"
  shows "\<exists>rc t'. hb_tree_insert t ky dt ow alloc = Inr (rc, t') \<and> hb_inv t' \<and>
           hb_cmp_func t' = hb_cmp_func t"
proof -
  from hb_tree_insert_effect [OF inv sto, of ky alloc dt ow]
  obtain B A where B: "\<forall>x \<in> set B. hb_cmp_func t (fst x) ky < 0"
    and A: "\<forall>x \<in> set A. hb_cmp_func t ky (fst x) < 0"
    and eff: "(hb_entries (root t) = B @ A \<and>
       (if alloc
        then \<exists>r. hb_tree_insert t ky dt ow alloc =
                    Inr (0, t\<lparr>root := r, hb_count := hb_count t + 1\<rparr>) \<and>
                  hb_avl r \<and> hb_entries r = B @ (ky, dt) # A
        else hb_tree_insert t ky dt ow alloc = Inr (- 1, t))) \<or>
      (\<exists>d. hb_entries (root t) = B @ (ky, d) # A \<and>
       (if ow
        then \<exists>r. hb_tree_insert t ky dt ow alloc =
                    Inr (0, t\<lparr>root := r,
                                hb_deleted := (if hb_del_func t then hb_deleted t @ [(ky, d)]
                                               else hb_deleted t)\<rparr>) \<and>
                  hb_avl r \<and> hb_entries r = B @ (ky, dt) # A
        else hb_tree_insert t ky dt ow alloc = Inr (1, t)))"
    by blast
  from eff show ?thesis
  proof
    assume a: "hb_entries (root t) = B @ A \<and>
       (if alloc
        then \<exists>r. hb_tree_insert t ky dt ow alloc =
                    Inr (0, t\<lparr>root := r, hb_count := hb_count t + 1\<rparr>) \<and>
                  hb_avl r \<and> hb_entries r = B @ (ky, dt) # A
        else hb_tree_insert t ky dt ow alloc = Inr (- 1, t))"
    show ?thesis
    proof (cases alloc)
      case True
      with a obtain r where "hb_tree_insert t ky dt ow alloc =
                    Inr (0, t\<lparr>root := r, hb_count := hb_count t + 1\<rparr>)"
        and "hb_avl r" and "hb_entries r = B @ (ky, dt) # A"
        by auto
      with hb_inv_inserted [OF inv sto _ B A, of r dt] a show ?thesis by simp
    next
      case False
      with a inv show ?thesis by simp
    qed
  next
    assume "\<exists>d. hb_entries (root t) = B @ (ky, d) # A \<and>
       (if ow
        then \<exists>r. hb_tree_insert t ky dt ow alloc =
                    Inr (0, t\<lparr>root := r,
                                hb_deleted := (if hb_del_func t then hb_deleted t @ [(ky, d)]
                                               else hb_deleted t)\<rparr>) \<and>
                  hb_avl r \<and> hb_entries r = B @ (ky, dt) # A
        else hb_tree_insert t ky dt ow alloc = Inr (1, t))"
    then obtain d where en: "hb_entries (root t) = B @ (ky, d) # A"
      and a: "if ow
        then \<exists>r. hb_tree_insert t ky dt ow alloc =
                    Inr (0, t\<lparr>root := r,
                                hb_deleted := (if hb_del_func t then hb_deleted t @ [(ky, d)]
                                               else hb_deleted t)\<rparr>) \<and>
                  hb_avl r \<and> hb_entries r = B @ (ky, dt) # A
        else hb_tree_insert t ky dt ow alloc = Inr (1, t)"
      by blast
    show ?thesis
    proof (cases ow)
      case True
      with a obtain r where "hb_tree_insert t ky dt ow alloc =
                    Inr (0, t\<lparr>root := r,
                                hb_deleted := (if hb_del_func t then hb_deleted t @ [(ky, d)]
                                               else hb_deleted t)\<rparr>)"
        and "hb_avl r" and "hb_entries r = B @ (ky, dt) # A"
        by auto
      with hb_inv_replaced [OF inv sto en, of r dt] show ?thesis by simp
    next
      case False
      with a inv show ?thesis by simp
    qed
  qed
qed

lemma hb_tree_probe_inv:
  assumes inv: "hb_inv t" and sto: "strict_total_order (hb_cmp_func t)"
  shows "\<exists>rc dt' t'. hb_tree_probe t ky dt alloc = Inr (rc, dt', t') \<and> hb_inv t' \<and>
           hb_cmp_func t' = hb_cmp_func t"
proof -
  from hb_tree_probe_effect [OF inv sto, of ky alloc dt]
  obtain B A where B: "\<forall>x \<in> set B. hb_cmp_func t (fst x) ky < 0"
    and A: "\<forall>x \<in> set A. hb_cmp_func t ky (fst x) < 0"
    and eff: "(hb_entries (root t) = B @ A \<and>
       (if alloc
        then \<exists>r. hb_tree_probe t ky dt alloc =
                    Inr (1, dt, t\<lparr>root := r, hb_count := hb_count t + 1\<rparr>) \<and>
                  hb_avl r \<and> hb_entries r = B @ (ky, dt) # A
        else hb_tree_probe t ky dt alloc = Inr (- 1, dt, t))) \<or>
      (\<exists>d. hb_entries (root t) = B @ (ky, d) # A \<and>
            hb_tree_probe t ky dt alloc = Inr (0, d, t))"
    by blast
  from eff show ?thesis
  proof
    assume a: "hb_entries (root t) = B @ A \<and>
       (if alloc
        then \<exists>r. hb_tree_probe t ky dt alloc =
                    Inr (1, dt, t\<lparr>root := r, hb_count := hb_count t + 1\<rparr>) \<and>
                  hb_avl r \<and> hb_entries r = B @ (ky, dt) # A
        else hb_tree_probe t ky dt alloc = Inr (- 1, dt, t))"
    show ?thesis
    proof (cases alloc)
      case True
      with a obtain r where "hb_tree_probe t ky dt alloc =
                    Inr (1, dt, t\<lparr>root := r, hb_count := hb_count t + 1\<rparr>)"
        and "hb_avl r" and "hb_entries r = B @ (ky, dt) # A"
        by auto
      with hb_inv_inserted [OF inv sto _ B A, of r dt] a show ?thesis by simp
    next
      case False
      with a inv show ?thesis by simp
    qed
  next
    assume "\<exists>d. hb_entries (root t) = B @ (ky, d) # A \<and>
            hb_tree_probe t ky dt alloc = Inr (0, d, t)"
    with inv show ?thesis by auto
  qed
qed

subsection \<open>Removal\<close>

text \<open>One round of the retracing loop of removal, coming up from the left: either the
  loop goes on above with a subtree that is one lower than before, or it stops with a
  subtree of the old height.\<close>

lemma hb_remove_step_left:
  assumes old: "hb_avl (Node n0 k d b sib)" and new: "hb_avl n1"
    and h: "hb_height n0 = hb_height n1 + 1"
  shows "\<exists>t. hb_avl t \<and> hb_entries t = hb_entries (Node n1 k d b sib) \<and>
     ((\<forall>ps. hb_remove_retrace n1 (Parent True k d b sib # ps) = hb_remove_retrace t ps) \<and>
        hb_height (Node n0 k d b sib) = hb_height t + 1 \<or>
      (\<forall>ps. hb_remove_retrace n1 (Parent True k d b sib # ps) = Inr (hb_rebuild t ps)) \<and>
        hb_height t = hb_height (Node n0 k d b sib))"
proof -
  from old have "b = - 1 \<or> b = 0 \<or> b = 1" by auto
  then show ?thesis
  proof (elim disjE)
    assume b: "b = - 1"
    show ?thesis
      using old new h
      by (intro exI [of _ "Node n1 k d 0 sib"]) (auto simp add: b schar_def)
  next
    assume b: "b = 0"
    show ?thesis
      using old new h
      by (intro exI [of _ "Node n1 k d 1 sib"]) (auto simp add: b schar_def)
  next
    assume b: "b = 1"
    with old h have hs: "int (hb_height sib) = int (hb_height n1) + 2" by simp
    then obtain sl sk sd sb sr where sib: "sib = Node sl sk sd sb sr"
      by (cases sib) auto
    from old sib have "sb = - 1 \<or> sb = 0 \<or> sb = 1" by auto
    then show ?thesis
    proof (elim disjE)
      assume sb: "sb = - 1"
      with old sib obtain a lk ld lb c where sl: "sl = Node a lk ld lb c"
        by (cases sl) auto
      let ?sib' = "Node a lk ld (int (hb_height (Node c sk sd 0 sr)) - int (hb_height a))
                     (Node c sk sd (int (hb_height sr) - int (hb_height c)) sr)"
      have rot1: "rot_right (Node (Node a lk ld lb c) sk sd (- 1) sr) = Inr (lb \<noteq> 0, ?sib')"
        using old by (intro rot_right_true) (auto simp add: sib sl sb)
      let ?t = "Node (Node n1 k d (int (hb_height a) - int (hb_height n1)) a) lk ld
                  (int (hb_height (Node c sk sd (int (hb_height sr) - int (hb_height c)) sr))
                     - int (hb_height (Node n1 k d 0 a)))
                  (Node c sk sd (int (hb_height sr) - int (hb_height c)) sr)"
      have rot2: "rot_left (Node n1 k d 2 ?sib') =
           Inr (int (hb_height (Node c sk sd 0 sr)) - int (hb_height a) \<noteq> 0, ?t)"
        using old hs by (intro rot_left_true) (auto simp add: sib sl sb)
      have eq: "hb_remove_retrace n1 (Parent True k d b sib # ps) = hb_remove_retrace ?t ps"
        for ps
        by (simp add: schar_def b sib sl sb rot1 rot2
            del: rot_left.simps rot_right.simps hb_height.simps)
      have "hb_avl ?t \<and> hb_entries ?t = hb_entries (Node n1 k d b sib) \<and>
            hb_height (Node n0 k d b sib) = hb_height ?t + 1"
        using old new h hs by (auto simp add: sib sl sb b)
      with eq show ?thesis by blast
    next
      assume sb: "sb = 0"
      from old sib sb hs have "sr \<noteq> Null" by auto
      let ?t = "Node (Node n1 k d (int (hb_height sl) - int (hb_height n1)) sl) sk sd
                  (int (hb_height sr) - int (hb_height (Node n1 k d 0 sl))) sr"
      have rot: "rot_left (Node n1 k d 2 (Node sl sk sd 0 sr)) = Inr ((0::int) \<noteq> 0, ?t)"
        using old hs by (intro rot_left_true) (auto simp add: sib sb)
      have eq: "hb_remove_retrace n1 (Parent True k d b sib # ps) = Inr (hb_rebuild ?t ps)"
        for ps
        using \<open>sr \<noteq> Null\<close>
        by (simp add: schar_def b sib sb rot del: rot_left.simps hb_height.simps)
      have "hb_avl ?t \<and> hb_entries ?t = hb_entries (Node n1 k d b sib) \<and>
            hb_height ?t = hb_height (Node n0 k d b sib)"
        using old new h hs by (auto simp add: sib sb b)
      with eq show ?thesis by blast
    next
      assume sb: "sb = 1"
      from old sib sb hs have "sr \<noteq> Null" by auto
      let ?t = "Node (Node n1 k d (int (hb_height sl) - int (hb_height n1)) sl) sk sd
                  (int (hb_height sr) - int (hb_height (Node n1 k d 0 sl))) sr"
      have rot: "rot_left (Node n1 k d 2 (Node sl sk sd 1 sr)) = Inr ((1::int) \<noteq> 0, ?t)"
        using old hs by (intro rot_left_true) (auto simp add: sib sb)
      have eq: "hb_remove_retrace n1 (Parent True k d b sib # ps) = hb_remove_retrace ?t ps"
        for ps
        using \<open>sr \<noteq> Null\<close>
        by (simp add: schar_def b sib sb rot del: rot_left.simps hb_height.simps)
      from old hs have hl: "hb_height sl = hb_height n1" and hr: "hb_height sr = hb_height n1 + 1"
        by (auto simp add: sib sb b)
      from old have sub: "hb_avl sl" "hb_avl sr" by (simp_all add: sib)
      have "hb_avl ?t \<and> hb_entries ?t = hb_entries (Node n1 k d b sib) \<and>
            hb_height (Node n0 k d b sib) = hb_height ?t + 1"
        using new sub h by (simp add: sib hl hr)
      with eq show ?thesis by blast
    qed
  qed
qed


text \<open>The same round coming up from the right.\<close>

lemma hb_remove_step_right:
  assumes old: "hb_avl (Node sib k d b n0)" and new: "hb_avl n1"
    and h: "hb_height n0 = hb_height n1 + 1"
  shows "\<exists>t. hb_avl t \<and> hb_entries t = hb_entries (Node sib k d b n1) \<and>
     ((\<forall>ps. hb_remove_retrace n1 (Parent False k d b sib # ps) = hb_remove_retrace t ps) \<and>
        hb_height (Node sib k d b n0) = hb_height t + 1 \<or>
      (\<forall>ps. hb_remove_retrace n1 (Parent False k d b sib # ps) = Inr (hb_rebuild t ps)) \<and>
        hb_height t = hb_height (Node sib k d b n0))"
proof -
  from old have "b = 1 \<or> b = 0 \<or> b = - 1" by auto
  then show ?thesis
  proof (elim disjE)
    assume b: "b = 1"
    show ?thesis
      using old new h
      by (intro exI [of _ "Node sib k d 0 n1"]) (auto simp add: b schar_def)
  next
    assume b: "b = 0"
    show ?thesis
      using old new h
      by (intro exI [of _ "Node sib k d (- 1) n1"]) (auto simp add: b schar_def)
  next
    assume b: "b = - 1"
    with old h have hs: "int (hb_height sib) = int (hb_height n1) + 2" by simp
    then obtain sl sk sd sb sr where sib: "sib = Node sl sk sd sb sr"
      by (cases sib) auto
    from old sib have "sb = 1 \<or> sb = 0 \<or> sb = - 1" by auto
    then show ?thesis
    proof (elim disjE)
      assume sb: "sb = 1"
      with old sib obtain a rk rd rb c where sr: "sr = Node a rk rd rb c"
        by (cases sr) auto
      let ?sib' = "Node (Node sl sk sd (int (hb_height a) - int (hb_height sl)) a) rk rd
                     (int (hb_height c) - int (hb_height (Node sl sk sd 0 a))) c"
      have rot1: "rot_left (Node sl sk sd 1 (Node a rk rd rb c)) = Inr (rb \<noteq> 0, ?sib')"
        using old by (intro rot_left_true) (auto simp add: sib sr sb)
      let ?t = "Node (Node sl sk sd (int (hb_height a) - int (hb_height sl)) a) rk rd
                  (int (hb_height (Node c k d 0 n1))
                     - int (hb_height (Node sl sk sd (int (hb_height a) - int (hb_height sl)) a)))
                  (Node c k d (int (hb_height n1) - int (hb_height c)) n1)"
      have rot2: "rot_right (Node ?sib' k d (- 2) n1) =
           Inr (int (hb_height c) - int (hb_height (Node sl sk sd 0 a)) \<noteq> 0, ?t)"
        using old hs by (intro rot_right_true) (auto simp add: sib sr sb)
      have eq: "hb_remove_retrace n1 (Parent False k d b sib # ps) = hb_remove_retrace ?t ps"
        for ps
        by (simp add: schar_def b sib sr sb rot1 rot2
            del: rot_left.simps rot_right.simps hb_height.simps)
      from old hs have hl: "hb_height sl = hb_height n1"
        and hr: "max (hb_height a) (hb_height c) = hb_height n1"
        and rb: "rb = int (hb_height c) - int (hb_height a)" "- 1 \<le> rb" "rb \<le> 1"
        by (auto simp add: sib sr sb b)
      from old have sub: "hb_avl sl" "hb_avl a" "hb_avl c" by (simp_all add: sib sr)
      have "hb_avl ?t \<and> hb_entries ?t = hb_entries (Node sib k d b n1) \<and>
            hb_height (Node sib k d b n0) = hb_height ?t + 1"
        using new sub h hr rb by (auto simp add: sib sr hl max_def split: if_splits)
      with eq show ?thesis by blast
    next
      assume sb: "sb = 0"
      from old sib sb hs have "sl \<noteq> Null" by auto
      let ?t = "Node sl sk sd (int (hb_height (Node sr k d 0 n1)) - int (hb_height sl))
                  (Node sr k d (int (hb_height n1) - int (hb_height sr)) n1)"
      have rot: "rot_right (Node (Node sl sk sd 0 sr) k d (- 2) n1) = Inr ((0::int) \<noteq> 0, ?t)"
        using old hs by (intro rot_right_true) (auto simp add: sib sb)
      have eq: "hb_remove_retrace n1 (Parent False k d b sib # ps) = Inr (hb_rebuild ?t ps)"
        for ps
        using \<open>sl \<noteq> Null\<close>
        by (simp add: schar_def b sib sb rot del: rot_right.simps hb_height.simps)
      from old hs have hl: "hb_height sl = hb_height n1 + 1" and hr: "hb_height sr = hb_height n1 + 1"
        by (auto simp add: sib sb b)
      from old have sub: "hb_avl sl" "hb_avl sr" by (simp_all add: sib)
      have "hb_avl ?t \<and> hb_entries ?t = hb_entries (Node sib k d b n1) \<and>
            hb_height ?t = hb_height (Node sib k d b n0)"
        using new sub h by (simp add: sib hl hr)
      with eq show ?thesis by blast
    next
      assume sb: "sb = - 1"
      from old sib sb hs have "sl \<noteq> Null" by auto
      let ?t = "Node sl sk sd (int (hb_height (Node sr k d 0 n1)) - int (hb_height sl))
                  (Node sr k d (int (hb_height n1) - int (hb_height sr)) n1)"
      have rot: "rot_right (Node (Node sl sk sd (- 1) sr) k d (- 2) n1) = Inr ((- 1::int) \<noteq> 0, ?t)"
        using old hs by (intro rot_right_true) (auto simp add: sib sb)
      have eq: "hb_remove_retrace n1 (Parent False k d b sib # ps) = hb_remove_retrace ?t ps"
        for ps
        using \<open>sl \<noteq> Null\<close>
        by (simp add: schar_def b sib sb rot del: rot_right.simps hb_height.simps)
      from old hs have hl: "hb_height sl = hb_height n1 + 1" and hr: "hb_height sr = hb_height n1"
        by (auto simp add: sib sb b)
      from old have sub: "hb_avl sl" "hb_avl sr" by (simp_all add: sib)
      have "hb_avl ?t \<and> hb_entries ?t = hb_entries (Node sib k d b n1) \<and>
            hb_height (Node sib k d b n0) = hb_height ?t + 1"
        using new sub h by (simp add: sib hl hr)
      with eq show ?thesis by blast
    qed
  qed
qed

lemma hb_remove_retrace_ok:
  "hb_avl (hb_rebuild n0 ps) \<Longrightarrow> hb_avl n1 \<Longrightarrow> hb_height n0 = hb_height n1 + 1 \<Longrightarrow>
     \<exists>rt. hb_remove_retrace n1 ps = Inr rt \<and> hb_avl rt \<and>
          hb_entries rt = hb_entries (hb_rebuild n1 ps)"
proof (induction ps arbitrary: n0 n1)
  case Nil
  then show ?case by simp
next
  case (Cons p ps)
  obtain left k d b sib where p: "p = Parent left k d b sib" by (cases p)
  from Cons.prems(1) have up: "hb_avl (hb_rebuild (hb_attach p n0) ps)" by simp
  then have old: "hb_avl (hb_attach p n0)" by (rule hb_avl_rebuild_D)
  have "\<exists>t. hb_avl t \<and> hb_entries t = hb_entries (hb_attach p n1) \<and>
     ((\<forall>ps. hb_remove_retrace n1 (p # ps) = hb_remove_retrace t ps) \<and>
        hb_height (hb_attach p n0) = hb_height t + 1 \<or>
      (\<forall>ps. hb_remove_retrace n1 (p # ps) = Inr (hb_rebuild t ps)) \<and>
        hb_height t = hb_height (hb_attach p n0))"
  proof (cases left)
    case True
    with hb_remove_step_left [of n0 k d b sib n1] old Cons.prems(2,3) show ?thesis
      by (simp add: p)
  next
    case False
    with hb_remove_step_right [of sib k d b n0 n1] old Cons.prems(2,3) show ?thesis
      by (simp add: p)
  qed
  then obtain t where t: "hb_avl t" and en: "hb_entries t = hb_entries (hb_attach p n1)"
    and alt: "(\<forall>ps. hb_remove_retrace n1 (p # ps) = hb_remove_retrace t ps) \<and>
        hb_height (hb_attach p n0) = hb_height t + 1 \<or>
      (\<forall>ps. hb_remove_retrace n1 (p # ps) = Inr (hb_rebuild t ps)) \<and>
        hb_height t = hb_height (hb_attach p n0)"
    by blast
  have en': "hb_entries (hb_rebuild t ps) = hb_entries (hb_rebuild n1 (p # ps))"
    by (simp add: hb_entries_rebuild en)
  from alt show ?case
  proof
    assume a: "(\<forall>ps. hb_remove_retrace n1 (p # ps) = hb_remove_retrace t ps) \<and>
        hb_height (hb_attach p n0) = hb_height t + 1"
    with Cons.IH [OF up t] en' show ?thesis by simp
  next
    assume a: "(\<forall>ps. hb_remove_retrace n1 (p # ps) = Inr (hb_rebuild t ps)) \<and>
        hb_height t = hb_height (hb_attach p n0)"
    with hb_avl_rebuild_swap [OF up t] en' show ?thesis by simp
  qed
qed

lemma hb_leftmost_rebuild:
  "hb_leftmost n ps = (n', ps') \<Longrightarrow> hb_rebuild n' ps' = hb_rebuild n ps"
  by (induction n ps rule: hb_leftmost.induct) auto

lemma hb_leftmost_shape:
  "hb_leftmost n ps = (n', ps') \<Longrightarrow> n \<noteq> Null \<Longrightarrow> \<exists>k d b r. n' = Node Null k d b r"
  by (induction n ps rule: hb_leftmost.induct) auto

lemma hb_leftmost_entries:
  "hb_leftmost n [] = (n', ls) \<Longrightarrow>
     hb_entries_before ls = [] \<and> hb_entries n = hb_entries n' @ hb_entries_after ls"
proof -
  have "hb_leftmost n ps = (n', ps') \<Longrightarrow>
     hb_entries_before ps' = hb_entries_before ps \<and>
     hb_entries n @ hb_entries_after ps = hb_entries n' @ hb_entries_after ps'" for ps ps'
    by (induction n ps rule: hb_leftmost.induct) auto
  from this [of "[]" ls] show "hb_leftmost n [] = (n', ls) \<Longrightarrow>
     hb_entries_before ls = [] \<and> hb_entries n = hb_entries n' @ hb_entries_after ls"
    by simp
qed

lemma hb_avl_rebuild_rekey:
  assumes "hb_avl (hb_rebuild n (ps1 @ Parent left k d b sib # ps2))"
  shows "hb_avl (hb_rebuild n (ps1 @ Parent left k' d' b sib # ps2))"
proof -
  let ?m = "hb_rebuild n ps1"
  from assms have up: "hb_avl (hb_rebuild (hb_attach (Parent left k d b sib) ?m) ps2)"
    by (simp add: hb_rebuild_append)
  then have "hb_avl (hb_attach (Parent left k d b sib) ?m)" by (rule hb_avl_rebuild_D)
  then have "hb_avl (hb_attach (Parent left k' d' b sib) ?m)"
    and "hb_height (hb_attach (Parent left k' d' b sib) ?m)
           = hb_height (hb_attach (Parent left k d b sib) ?m)"
    by (cases left; simp)+
  with up have "hb_avl (hb_rebuild (hb_attach (Parent left k' d' b sib) ?m) ps2)"
    by (rule hb_avl_rebuild_swap)
  then show ?thesis by (simp add: hb_rebuild_append)
qed

text \<open>Unlinking a node of a balanced tree: the swap with the successor, the splice
  and the retracing, from the node \<open>Node l k d b r\<close> below the ancestors \<open>ps\<close>.\<close>

lemma hb_remove_unlink:
  assumes avl: "hb_avl (hb_rebuild (Node l k d b r) ps)"
  shows "\<exists>nl nb nr ps' rt.
           hb_remove_swap (Node l k d b r) ps = Inr (Node nl k d nb nr, ps') \<and>
           (if ps' = [] then Inr (if nl \<noteq> Null then nl else nr)
            else hb_remove_retrace (if nl \<noteq> Null then nl else nr) ps') = Inr rt \<and>
           hb_avl rt \<and>
           hb_entries rt =
             hb_entries_before ps @ hb_entries l @ hb_entries r @ hb_entries_after ps"
proof (cases "l \<noteq> Null \<and> r \<noteq> Null")
  case False
  let ?out = "if l \<noteq> Null then l else r"
  from avl have node: "hb_avl (Node l k d b r)" by (rule hb_avl_rebuild_D)
  with False have h: "hb_height (Node l k d b r) = hb_height ?out + 1" and o: "hb_avl ?out"
    by auto
  from hb_remove_retrace_ok [OF avl o h]
  obtain rt where rt: "hb_remove_retrace ?out ps = Inr rt" and a: "hb_avl rt"
    and e: "hb_entries rt = hb_entries (hb_rebuild ?out ps)"
    by blast
  have sw: "hb_remove_swap (Node l k d b r) ps = Inr (Node l k d b r, ps)"
    using False by (auto simp add: hb_remove_swap_def)
  have r2: "(if ps = [] then Inr ?out else hb_remove_retrace ?out ps) = Inr rt"
    using rt by (cases ps) simp_all
  have "hb_entries rt =
          hb_entries_before ps @ hb_entries l @ hb_entries r @ hb_entries_after ps"
    using False by (auto simp add: e hb_entries_rebuild)
  with sw r2 a show ?thesis by blast
next
  case True
  obtain out ls where lm: "hb_leftmost r [] = (out, ls)"
    by (cases "hb_leftmost r []") auto
  with True obtain ok od ob orr where out: "out = Node Null ok od ob orr"
    by (auto dest: hb_leftmost_shape)
  from hb_leftmost_rebuild [OF lm] have rr: "hb_rebuild out ls = r" by simp
  let ?ps' = "ls @ Parent False ok od b l # ps"
  have sw: "hb_remove_swap (Node l k d b r) ps = Inr (Node Null k d ob orr, ?ps')"
    using True by (simp add: hb_remove_swap_def lm out)
  have "hb_rebuild out (ls @ Parent False k d b l # ps) = hb_rebuild (Node l k d b r) ps"
    by (simp add: hb_rebuild_append rr)
  with avl have "hb_avl (hb_rebuild out (ls @ Parent False k d b l # ps))" by simp
  then have avl': "hb_avl (hb_rebuild out ?ps')" by (rule hb_avl_rebuild_rekey)
  then have "hb_avl out" by (rule hb_avl_rebuild_D)
  then have o: "hb_avl orr" and h: "hb_height out = hb_height orr + 1"
    by (simp_all add: out)
  from hb_remove_retrace_ok [OF avl' o h]
  obtain rt where rt: "hb_remove_retrace orr ?ps' = Inr rt" and a: "hb_avl rt"
    and e: "hb_entries rt = hb_entries (hb_rebuild orr ?ps')"
    by blast
  have r2: "(if ?ps' = [] then Inr (if Null \<noteq> Null then Null else orr)
            else hb_remove_retrace (if Null \<noteq> Null then Null else orr) ?ps') = Inr rt"
    using rt by simp
  from hb_leftmost_entries [OF lm]
  have "hb_entries_before ls = []" and "hb_entries r = hb_entries out @ hb_entries_after ls"
    by simp_all
  then have "hb_entries rt =
          hb_entries_before ps @ hb_entries l @ hb_entries r @ hb_entries_after ps"
    by (simp add: e hb_entries_rebuild hb_entries_before_append hb_entries_after_append out)
  with sw r2 a show ?thesis by blast
qed

lemma hb_tree_remove_effect:
  assumes inv: "hb_inv t" and sto: "strict_total_order (hb_cmp_func t)"
  shows "((\<forall>x \<in> set (hb_entries (root t)). fst x \<noteq> ky) \<and>
            hb_tree_remove t ky = Inr (False, t)) \<or>
         (\<exists>B d A r. hb_entries (root t) = B @ (ky, d) # A \<and>
            hb_tree_remove t ky =
              Inr (True, t\<lparr>root := r, hb_count := hb_count t - 1,
                            hb_deleted := (if hb_del_func t then hb_deleted t @ [(ky, d)]
                                           else hb_deleted t)\<rparr>) \<and>
            hb_avl r \<and> hb_entries r = B @ A)"
proof -
  let ?c = "hb_cmp_func t"
  obtain n ps where f: "hb_remove_find ?c ky (root t) [] = (n, ps)"
    by (cases "hb_remove_find ?c ky (root t) []") auto
  from hb_remove_find_rebuild [OF f] have rb: "hb_rebuild n ps = root t" by simp
  from inv have bst: "hb_bst ?c (root t)" and avl: "hb_avl (root t)"
    by (simp_all add: hb_inv_def)
  have btw: "hb_between ?c ky ps"
    using hb_remove_find_between [OF sto f bst] by (simp add: hb_between_def)
  show ?thesis
  proof (cases n)
    case Null
    have en: "hb_entries (root t) = hb_entries_before ps @ hb_entries_after ps"
      using rb [symmetric] by (simp add: hb_entries_rebuild Null)
    have "\<forall>x \<in> set (hb_entries (root t)). fst x \<noteq> ky"
      using btw cmp_irrefl [OF sto] unfolding en hb_between_def by auto
    moreover have "hb_tree_remove t ky = Inr (False, t)"
      by (simp add: hb_tree_remove_def f Null)
    ultimately show ?thesis by blast
  next
    case (Node l k d b r)
    with hb_remove_find_node [OF f] have "?c ky k = 0" by simp
    with sto have k: "k = ky" by (simp add: cmp_eq)
    from avl rb Node k have avl': "hb_avl (hb_rebuild (Node l ky d b r) ps)" by simp
    from hb_remove_unlink [OF avl']
    obtain nl nb nr ps' rt where
      sw: "hb_remove_swap (Node l ky d b r) ps = Inr (Node nl ky d nb nr, ps')"
      and rt: "(if ps' = [] then Inr (if nl \<noteq> Null then nl else nr)
            else hb_remove_retrace (if nl \<noteq> Null then nl else nr) ps') = Inr rt"
      and a: "hb_avl rt"
      and e: "hb_entries rt =
             hb_entries_before ps @ hb_entries l @ hb_entries r @ hb_entries_after ps"
      by blast
    let ?B = "hb_entries_before ps @ hb_entries l" and ?A = "hb_entries r @ hb_entries_after ps"
    have en: "hb_entries (root t) = ?B @ (ky, d) # ?A"
      using rb [symmetric] by (simp add: hb_entries_rebuild Node k)
    have "hb_tree_remove t ky =
              Inr (True, t\<lparr>root := rt, hb_count := hb_count t - 1,
                            hb_deleted := (if hb_del_func t then hb_deleted t @ [(ky, d)]
                                           else hb_deleted t)\<rparr>)"
      using rt by (simp add: hb_tree_remove_def f Node k sw Let_def)
    with en a e show ?thesis
      by (intro disjI2 exI [of _ ?B] exI [of _ d] exI [of _ ?A] exI [of _ rt]) simp
  qed
qed

lemma hb_tree_remove_inv:
  assumes inv: "hb_inv t" and sto: "strict_total_order (hb_cmp_func t)"
  shows "\<exists>rc t'. hb_tree_remove t ky = Inr (rc, t') \<and> hb_inv t' \<and>
           hb_cmp_func t' = hb_cmp_func t"
proof -
  from hb_tree_remove_effect [OF inv sto, of ky] show ?thesis
  proof
    assume "(\<forall>x \<in> set (hb_entries (root t)). fst x \<noteq> ky) \<and>
            hb_tree_remove t ky = Inr (False, t)"
    with inv show ?thesis by blast
  next
    assume "\<exists>B d A r. hb_entries (root t) = B @ (ky, d) # A \<and>
            hb_tree_remove t ky =
              Inr (True, t\<lparr>root := r, hb_count := hb_count t - 1,
                            hb_deleted := (if hb_del_func t then hb_deleted t @ [(ky, d)]
                                           else hb_deleted t)\<rparr>) \<and>
            hb_avl r \<and> hb_entries r = B @ A"
    then obtain B d A r where en: "hb_entries (root t) = B @ (ky, d) # A"
      and rm: "hb_tree_remove t ky =
              Inr (True, t\<lparr>root := r, hb_count := hb_count t - 1,
                            hb_deleted := (if hb_del_func t then hb_deleted t @ [(ky, d)]
                                           else hb_deleted t)\<rparr>)"
      and a: "hb_avl r" and e: "hb_entries r = B @ A"
      by blast
    from inv en have "hb_sorted (hb_cmp_func t) (B @ (ky, d) # A)"
      by (simp add: hb_inv_def hb_bst_sorted [OF sto])
    then have "hb_sorted (hb_cmp_func t) (B @ A)"
      by (auto simp add: hb_sorted_append hb_sorted_Cons)
    with e have bst: "hb_bst (hb_cmp_func t) r" by (simp add: hb_bst_sorted [OF sto])
    from inv en have "hb_count t - 1 = of_nat (hb_nodes r)"
      by (simp add: hb_inv_def hb_nodes_entries e)
    with bst a have "hb_inv (t\<lparr>root := r, hb_count := hb_count t - 1,
                            hb_deleted := (if hb_del_func t then hb_deleted t @ [(ky, d)]
                                           else hb_deleted t)\<rparr>)"
      by (simp add: hb_inv_def)
    with rm show ?thesis by (intro exI conjI) (assumption, assumption, simp)
  qed
qed

subsection \<open>Clearing\<close>

lemma hb_clear_loop_result:
  "nd \<noteq> Null \<or> ps = [] \<Longrightarrow>
     hb_clear_loop del nd ps n lg =
       (n - of_nat (hb_nodes nd + hb_nodes_up ps), snd (hb_clear_loop del nd ps n lg))"
proof (induction del nd ps n lg rule: hb_clear_loop.induct)
  case (1 del ps n lg)
  then show ?case by simp
next
  case (2 del l k d b r ps n lg)
  show ?case
  proof (cases "l \<noteq> Null")
    case True
    with "2.IH"(1) show ?thesis by (simp add: prod_eq_iff)
  next
    case l: False
    show ?thesis
    proof (cases "r \<noteq> Null")
      case True
      with l "2.IH"(2) show ?thesis by (simp add: prod_eq_iff)
    next
      case r: False
      show ?thesis
      proof (cases ps)
        case Nil
        with l r show ?thesis by (simp add: prod_eq_iff Let_def)
      next
        case (Cons p ps')
        obtain left pk pd pb sib where p: "p = Parent left pk pd pb sib" by (cases p)
        let ?lg = "if del then lg @ [(k, d)] else lg"
        have "hb_clear_loop del (hb_attach (Parent left pk pd pb sib) Null) ps' (n - 1) ?lg =
                (n - 1 - of_nat (hb_nodes (hb_attach (Parent left pk pd pb sib) Null)
                                  + hb_nodes_up ps'),
                 snd (hb_clear_loop del (hb_attach (Parent left pk pd pb sib) Null) ps' (n - 1) ?lg))"
          using l r Cons p by (intro "2.IH"(4) [of ?lg p ps' left pk pd pb sib]) (cases left; simp_all)+
        with l r Cons p show ?thesis by (simp add: prod_eq_iff Let_def)
      qed
    qed
  qed
qed

lemma hb_tree_clear_inv:
  assumes inv: "hb_inv t"
  shows "\<exists>n t'. hb_tree_clear t = Inr (n, t') \<and> hb_inv t' \<and> root t' = Null \<and>
           hb_cmp_func t' = hb_cmp_func t"
proof -
  have "root t \<noteq> Null \<or> ([] :: ('a, 'b) hb_parent list) = []" by simp
  from hb_clear_loop_result [OF this, of "hb_del_func t" "hb_count t" "hb_deleted t"] inv
  have "fst (hb_clear_loop (hb_del_func t) (root t) [] (hb_count t) (hb_deleted t)) = 0"
    by (simp add: hb_inv_def prod_eq_iff)
  then show ?thesis
    by (simp add: hb_tree_clear_def split_beta hb_inv_def)
qed

subsection \<open>Sequences of operations\<close>

lemma hb_apply_inv:
  assumes inv: "hb_inv t" and sto: "strict_total_order (hb_cmp_func t)"
  shows "\<exists>t'. hb_apply t x = Inr t' \<and> hb_inv t' \<and> hb_cmp_func t' = hb_cmp_func t"
proof (cases x)
  case (Insert ky dt ow alloc)
  from hb_tree_insert_inv [OF inv sto, of ky dt ow alloc] show ?thesis
    by (auto simp add: Insert)
next
  case (Probe ky dt alloc)
  from hb_tree_probe_inv [OF inv sto, of ky dt alloc] show ?thesis
    by (auto simp add: Probe)
next
  case (Remove ky)
  from hb_tree_remove_inv [OF inv sto, of ky] show ?thesis
    by (auto simp add: Remove)
next
  case Clear
  from hb_tree_clear_inv [OF inv] show ?thesis
    by (auto simp add: Clear)
qed

lemma hb_run_inv:
  "hb_inv t \<Longrightarrow> strict_total_order (hb_cmp_func t) \<Longrightarrow>
     \<exists>t'. hb_run t xs = Inr t' \<and> hb_inv t' \<and> hb_cmp_func t' = hb_cmp_func t"
proof (induction xs arbitrary: t)
  case Nil
  then show ?case by simp
next
  case (Cons x xs)
  from hb_apply_inv [OF Cons.prems, of x]
  obtain t1 where a: "hb_apply t x = Inr t1" and i: "hb_inv t1"
    and c: "hb_cmp_func t1 = hb_cmp_func t"
    by blast
  from Cons.IH [OF i] Cons.prems(2) c
  obtain t' where "hb_run t1 xs = Inr t'" and "hb_inv t'" and "hb_cmp_func t' = hb_cmp_func t1"
    by auto
  with a c show ?case by simp
qed

lemma hb_tree_new_inv: "hb_tree_new dpc cmp del alloc = Some t \<Longrightarrow> hb_inv t"
  by (auto simp add: hb_tree_new_def hb_inv_def split: if_splits)

text \<open>
  Claim C1. A tree is built by \<^verbatim>\<open>hb_tree_new\<close> with a comparison that is a strict total
  order. Then every sequence of insert, probe, remove and clear operations (whatever
  the allocator answers) runs to its end without a failed assertion, and in the tree
  it leaves the keys are in search tree order and every node stores the height of its
  right subtree minus the height of its left subtree, a value of -1, 0 or 1.
\<close>

theorem hb_tree_invariant:
  assumes new: "hb_tree_new dpc cmp del alloc = Some t0"
    and sto: "strict_total_order (hb_cmp_func t0)"
  shows "\<exists>t. hb_run t0 ops = Inr t \<and> hb_bst (hb_cmp_func t0) (root t) \<and> hb_avl (root t)"
proof -
  from new have "hb_inv t0" by (rule hb_tree_new_inv)
  from hb_run_inv [OF this sto, of ops] show ?thesis
    by (auto simp add: hb_inv_def)
qed

text \<open>The scenario of the specification: the keys 5, 3, 8, 1, 4, 7, 9 are inserted and
  3 is removed.\<close>

definition scenario_ops :: "(int, int) hb_op list" where
  "scenario_ops =
     [Insert 5 (Some 50) False True, Insert 3 (Some 30) False True,
      Insert 8 (Some 80) False True, Insert 1 (Some 10) False True,
      Insert 4 (Some 40) False True, Insert 7 (Some 70) False True,
      Insert 9 (Some 90) False True, Remove 3]"

definition empty_tree :: "(int, int) hb_tree" where
  "empty_tree = \<lparr>root = Null, hb_count = 0, hb_cmp_func = int_cmp, hb_del_func = True,
                 hb_deleted = []\<rparr>"

lemma hb_scenario:
  "(case hb_run empty_tree scenario_ops of
      Inl e \<Rightarrow> False
    | Inr t \<Rightarrow> map fst (hb_entries (root t)) = [1, 4, 5, 7, 8, 9] \<and> hb_avl (root t) \<and> hb_count t = 6
          \<and> hb_deleted t = [(3, Some 30)])"
  by code_simp

theorem hb_tree_invariant_witness:
  "\<exists>t. hb_run empty_tree scenario_ops = Inr t \<and> hb_bst int_cmp (root t) \<and> hb_avl (root t)"
proof -
  have new: "hb_tree_new int_cmp None True True = Some empty_tree"
    by (simp add: hb_tree_new_def empty_tree_def)
  have sto: "strict_total_order (hb_cmp_func empty_tree)"
    by (simp add: empty_tree_def strict_total_order_int_cmp)
  from hb_tree_invariant [OF new sto, of scenario_ops] show ?thesis
    by (simp add: empty_tree_def)
qed

section \<open>Multi-step iteration\<close>

text \<open>A tree with the keys 1 and 2, and an iterator that is not yet positioned.\<close>

definition two_key_tree :: "(int, int) hb_tree" where
  "two_key_tree =
     \<lparr>root = Node Null 1 (Some 10) 1 (Node Null 2 (Some 20) 0 Null), hb_count = 2,
      hb_cmp_func = int_cmp, hb_del_func = False, hb_deleted = []\<rparr>"

text \<open>
  Claim C2 at a concrete input. The iterator is moved to the first entry of the tree
  (key 1). A step forward reaches key 2. \<^verbatim>\<open>hb_itor_nextn\<close> with the count 1 steps
  backward instead (its loop calls \<^verbatim>\<open>hb_itor_prev\<close>): it reports failure and leaves the
  iterator invalid.
\<close>

theorem hb_itor_nextn_steps_backward:
  "\<exists>it1 it2.
     hb_itor_first \<lparr>itor_tree = two_key_tree, itor_node = None\<rparr> = Inr (True, it1) \<and>
     hb_itor_key it1 = Some 1 \<and>
     hb_itor_next it1 = Inr (True, it2) \<and> hb_itor_key it2 = Some 2 \<and>
     hb_itor_nextn it1 1 = Inr (False, it1\<lparr>itor_node := None\<rparr>)"
  by (simp add: two_key_tree_def hb_itor_first_def hb_node_min_def hb_itor_key_def
      hb_itor_next_def hb_node_next_def hb_itor_prev_def hb_node_prev_def)

text \<open>The forward multi-step of the skip list is the repeated single step.\<close>

fun skiplist_next_times ::
  "('k, 'd) skiplist_itor \<Rightarrow> nat \<Rightarrow> error + (bool \<times> ('k, 'd) skiplist_itor)" where
  "skiplist_next_times it 0 = Inr (VALID it, it)"
| "skiplist_next_times it (Suc n) =
     (case skiplist_itor_next it of
        Inl e \<Rightarrow> Inl e
      | Inr (ok, it') \<Rightarrow> if ok then skiplist_next_times it' n else Inr (False, it'))"

lemma skiplist_itor_nextn_next_times: "skiplist_itor_nextn it n = skiplist_next_times it n"
  by (induction n arbitrary: it) (auto split: sum.splits)

section \<open>The top level of the skip list\<close>

text \<open>
  Claim C3 at a concrete input. Into the empty list with \<open>max_link = 8\<close> the keys 1
  (three levels are drawn) and 2 (one level) are inserted: \<open>top_link\<close> is 3, the largest
  level count, and \<^verbatim>\<open>skiplist_verify\<close> passes. Then key 1 is removed: the node of key 2
  is still linked at level 0 and has level count 1, \<open>top_link\<close> has been lowered to 0,
  and \<^verbatim>\<open>skiplist_verify\<close> fails on its assertion \<^verbatim>\<open>node->link_count <= top_link\<close>.
\<close>

theorem skiplist_remove_top_link:
  "(case skiplist_insert (empty_skiplist 8) (Some 1) (Some 10) False (Some 1) of
      Inl e \<Rightarrow> False
    | Inr (rc1, l1) \<Rightarrow>
        rc1 = 0 \<and> top_link l1 = 3 \<and> map_option link_count (heap l1 1) = Some 3 \<and>
        (case skiplist_insert l1 (Some 2) (Some 20) False (Some 2) of
           Inl e \<Rightarrow> False
         | Inr (rc2, l2) \<Rightarrow>
             rc2 = 0 \<and> top_link l2 = 3 \<and> skiplist_verify l2 = Inr () \<and>
             (case skiplist_remove l2 (Some 1) of
                Inl e \<Rightarrow> False
              | Inr (rc3, l3) \<Rightarrow>
                  rc3 \<and> top_link l3 = 0 \<and> heap l3 1 = None \<and>
                  map_option link_count (heap l3 2) = Some 1 \<and>
                  load_link (heap l3) (Some (head l3)) 0 = Inr (Some 2) \<and>
                  skiplist_verify l3 = Inl AssertFailed)))"
  by code_simp

section \<open>Allocation failure\<close>

lemma hb_tree_insert_alloc_failure:
  "hb_tree_insert t ky dt ow alloc = Inr (- 1, t') \<Longrightarrow> t' = t"
  by (auto simp add: hb_tree_insert_def hb_insert_new_def
      split: prod.splits hb_node.splits if_splits sum.splits option.splits list.splits)

lemma hb_tree_probe_alloc_failure:
  "hb_tree_probe t ky dt alloc = Inr (- 1, dt', t') \<Longrightarrow> t' = t \<and> dt' = dt"
  by (auto simp add: hb_tree_probe_def hb_insert_new_def
      split: prod.splits hb_node.splits if_splits sum.splits option.splits list.splits)

lemma node_insert_alloc_failure:
  "node_insert l ky dt upd alloc = Inr (None, l') \<Longrightarrow>
     l' = l\<lparr>randgen := randgen l * RGEN_A + RGEN_M\<rparr>"
  by (auto simp add: node_insert_def node_new_def rand_link_count_def Let_def
      split: prod.splits if_splits sum.splits option.splits)

lemma skiplist_insert_alloc_failure:
  "skiplist_insert l ky dt ow alloc = Inr (- 1, l') \<Longrightarrow>
     l' = l\<lparr>randgen := randgen l * RGEN_A + RGEN_M\<rparr>"
  by (auto simp add: skiplist_insert_def dest: node_insert_alloc_failure
      split: prod.splits if_splits sum.splits option.splits)

lemma skiplist_probe_alloc_failure:
  "skiplist_probe l ky dt alloc = Inr (- 1, dt', l') \<Longrightarrow>
     l' = l\<lparr>randgen := randgen l * RGEN_A + RGEN_M\<rparr> \<and> dt' = dt"
  by (auto simp add: skiplist_probe_def dest: node_insert_alloc_failure
      split: prod.splits if_splits sum.splits option.splits)

text \<open>
  Claim C4, as the code has it. Whenever insert or probe reports the allocation
  failure (the code -1), the tree is the tree before the call, and the skip list is
  the list before the call but for its generator state, which has advanced by one
  draw: the store (entries, links, level counts), \<open>top_link\<close>, the count and the
  cleanup log are unchanged. Probe leaves the caller's datum as it was.
\<close>

theorem alloc_failure_leaves_container:
  "(hb_tree_insert t ky dt ow alloc = Inr (- 1, t') \<longrightarrow> t' = t) \<and>
   (hb_tree_probe t ky dt alloc = Inr (- 1, dt', t'') \<longrightarrow> t'' = t \<and> dt' = dt) \<and>
   (skiplist_insert l sk sd sow salloc = Inr (- 1, l') \<longrightarrow>
      l' = l\<lparr>randgen := randgen l * RGEN_A + RGEN_M\<rparr> \<and>
      heap l' = heap l \<and> top_link l' = top_link l \<and> count l' = count l \<and>
      deleted l' = deleted l) \<and>
   (skiplist_probe l sk sd salloc = Inr (- 1, sd', l'') \<longrightarrow>
      l'' = l\<lparr>randgen := randgen l * RGEN_A + RGEN_M\<rparr> \<and> sd' = sd \<and>
      heap l'' = heap l \<and> top_link l'' = top_link l \<and> count l'' = count l \<and>
      deleted l'' = deleted l)"
proof (intro conjI impI)
  assume "hb_tree_insert t ky dt ow alloc = Inr (- 1, t')"
  then show "t' = t" by (rule hb_tree_insert_alloc_failure)
next
  assume a: "hb_tree_probe t ky dt alloc = Inr (- 1, dt', t'')"
  from hb_tree_probe_alloc_failure [OF a] show "t'' = t" and "dt' = dt" by simp_all
next
  assume a: "skiplist_insert l sk sd sow salloc = Inr (- 1, l')"
  from skiplist_insert_alloc_failure [OF a]
  show "l' = l\<lparr>randgen := randgen l * RGEN_A + RGEN_M\<rparr>" and "heap l' = heap l"
    and "top_link l' = top_link l" and "count l' = count l" and "deleted l' = deleted l"
    by simp_all
next
  assume a: "skiplist_probe l sk sd salloc = Inr (- 1, sd', l'')"
  from skiplist_probe_alloc_failure [OF a]
  show "l'' = l\<lparr>randgen := randgen l * RGEN_A + RGEN_M\<rparr>" and "sd' = sd"
    and "heap l'' = heap l" and "top_link l'' = top_link l" and "count l'' = count l"
    and "deleted l'' = deleted l"
    by simp_all
qed

lemma skiplist_insert_empty_alloc_failure:
  "skiplist_insert (empty_skiplist 8) (Some 1) (Some 10) False None =
     Inr (- 1, (empty_skiplist 8)\<lparr>randgen := 1025555898\<rparr>)"
  by (simp add: skiplist_insert_def empty_skiplist_def deref_def load_link_def get_link_def
      skip_advance_end array_set_def MAX_LINK_def node_insert_def rand_link_count_def
      node_new_def RGEN_A_def RGEN_M_def rand_link_loop.simps)

theorem alloc_failure_leaves_container_witness:
  "hb_tree_insert two_key_tree 3 (Some 30) False False = Inr (- 1, two_key_tree) \<and>
   skiplist_insert (empty_skiplist 8) (Some 1) (Some 10) False None =
     Inr (- 1, (empty_skiplist 8)\<lparr>randgen := 1025555898\<rparr>) \<and>
   heap ((empty_skiplist 8)\<lparr>randgen := 1025555898\<rparr>) = heap (empty_skiplist 8)"
proof -
  have a: "hb_tree_insert two_key_tree 3 (Some 30) False False
             = Inr (- 1, snd (projr (hb_tree_insert two_key_tree 3 (Some 30) False False)))"
    by (simp add: hb_tree_insert_def two_key_tree_def int_cmp_def hb_insert_new_def)
  note b = skiplist_insert_empty_alloc_failure
  from alloc_failure_leaves_container [of two_key_tree 3 "Some 30" False False
      "snd (projr (hb_tree_insert two_key_tree 3 (Some 30) False False))" None two_key_tree
      "empty_skiplist 8" "Some 1" "Some 10" False None
      "(empty_skiplist 8)\<lparr>randgen := 1025555898\<rparr>" None "empty_skiplist 8"] a b
  show ?thesis by simp
qed

text \<open>The claim as stated (the container is left unchanged) fails for the skip list:
  the failed insert into the empty list returns a list that differs from it.\<close>

theorem skiplist_alloc_failure_counterexample:
  "skiplist_insert (empty_skiplist 8) (Some 1) (Some 10) False None =
     Inr (- 1, (empty_skiplist 8)\<lparr>randgen := 1025555898\<rparr>) \<and>
   (empty_skiplist 8)\<lparr>randgen := 1025555898\<rparr> \<noteq> empty_skiplist 8"
proof -
  have "randgen ((empty_skiplist 8)\<lparr>randgen := 1025555898\<rparr>) \<noteq> randgen (empty_skiplist 8)"
    by (simp add: empty_skiplist_def)
  then have "(empty_skiplist 8)\<lparr>randgen := 1025555898\<rparr> \<noteq> empty_skiplist 8"
    by metis
  with skiplist_insert_empty_alloc_failure show ?thesis by simp
qed

section \<open>The invariant of the skip list\<close>

text \<open>The level count, key and datum of the node at an address (0 and null where
  there is no node).\<close>

definition sl_lc :: "('k, 'd) store \<Rightarrow> addr \<Rightarrow> nat" where
  "sl_lc h a = (case h a of None \<Rightarrow> 0 | Some n \<Rightarrow> link_count n)"

definition sl_key :: "('k, 'd) store \<Rightarrow> addr \<Rightarrow> 'k option" where
  "sl_key h a = (case h a of None \<Rightarrow> None | Some n \<Rightarrow> key n)"

definition sl_datum :: "('k, 'd) store \<Rightarrow> addr \<Rightarrow> 'd option" where
  "sl_datum h a = (case h a of None \<Rightarrow> None | Some n \<Rightarrow> datum n)"

text \<open>The forward links of level \<open>k\<close> lead from \<open>x\<close> through exactly the nodes \<open>as\<close>, in
  this order, and end in the null pointer.\<close>

fun sl_chain :: "('k, 'd) store \<Rightarrow> nat \<Rightarrow> addr \<Rightarrow> addr list \<Rightarrow> bool" where
  "sl_chain h k x [] = (load_link h (Some x) k = Inr None)"
| "sl_chain h k x (a # as) = (load_link h (Some x) k = Inr (Some a) \<and> sl_chain h k a as)"

text \<open>The nodes of \<open>ns\<close> that have a link of level \<open>k\<close>.\<close>

definition sl_level :: "('k, 'd) store \<Rightarrow> nat \<Rightarrow> addr list \<Rightarrow> addr list" where
  "sl_level h k ns = filter (\<lambda>a. k < sl_lc h a) ns"

text \<open>A node of the list: allocated with as many links as its level count says, at
  least one and at most \<open>tp + 1\<close>.\<close>

definition sl_node_ok :: "('k, 'd) store \<Rightarrow> nat \<Rightarrow> addr \<Rightarrow> bool" where
  "sl_node_ok h tp a \<longleftrightarrow>
     (\<exists>n. h a = Some n \<and> length (link n) = link_count n \<and> 1 \<le> link_count n \<and>
          link_count n \<le> tp + 1)"

text \<open>The list \<open>l\<close> holds the nodes \<open>ns\<close>, in this order: the head has \<open>max_link\<close>
  links, \<open>top_link\<close> is a level of the head, every node is well-formed, the chain of
  every level leads from the head through the nodes with a link of that level, and
  the keys ascend.\<close>

definition sl_inv :: "('k, 'd) skiplist \<Rightarrow> addr list \<Rightarrow> bool" where
  "sl_inv l ns \<longleftrightarrow>
     distinct (head l # ns) \<and>
     (\<exists>hn. heap l (head l) = Some hn \<and> length (link hn) = max_link l \<and>
           link_count hn = max_link l) \<and>
     top_link l < max_link l \<and> max_link l \<le> MAX_LINK \<and>
     (\<forall>a \<in> set ns. sl_node_ok (heap l) (top_link l) a) \<and>
     (\<forall>k < max_link l. sl_chain (heap l) k (head l) (sl_level (heap l) k ns)) \<and>
     sorted_wrt (\<lambda>a b. cmp_func l (sl_key (heap l) a) (sl_key (heap l) b) < 0) ns"

text \<open>The entries of the nodes \<open>ns\<close>.\<close>

definition sl_entries :: "('k, 'd) store \<Rightarrow> addr list \<Rightarrow> ('k option \<times> 'd option) list" where
  "sl_entries h ns = map (\<lambda>a. (sl_key h a, sl_datum h a)) ns"

text \<open>Two stores hold nodes at the same addresses, with the same keys, data, level
  counts and numbers of links.\<close>

definition sl_same :: "('k, 'd) store \<Rightarrow> ('k, 'd) store \<Rightarrow> bool" where
  "sl_same h h' \<longleftrightarrow>
     (\<forall>a. (case h a of
             None \<Rightarrow> h' a = None
           | Some n \<Rightarrow>
               (\<exists>n'. h' a = Some n' \<and> key n' = key n \<and> datum n' = datum n \<and>
                     link_count n' = link_count n \<and> length (link n') = length (link n))))"

text \<open>What a traversal does on a list of entries: the visitor is called on the
  entries in their order until it answers stop or the entries are exhausted; the
  result is the number of calls and the last state of the visitor.\<close>

fun visit_entries ::
  "('s \<Rightarrow> 'k \<Rightarrow> 'd option \<Rightarrow> bool \<times> 's) \<Rightarrow> ('k \<times> 'd option) list \<Rightarrow> nat \<Rightarrow> 's \<Rightarrow> nat \<times> 's" where
  "visit_entries visit [] n s = (n, s)"
| "visit_entries visit ((k, d) # es) n s =
     (case visit s k d of
        (go, s') \<Rightarrow> if go then visit_entries visit es (n + 1) s' else (n + 1, s'))"

text \<open>The node on which the descent stands after level \<open>k\<close>: the last of the nodes
  with a smaller key that has a link of level \<open>k\<close>, or the head.\<close>

definition sl_pred :: "('k, 'd) skiplist \<Rightarrow> nat \<Rightarrow> addr list \<Rightarrow> addr" where
  "sl_pred l k lo = last (head l # sl_level (heap l) k lo)"


text \<open>What the descent of insert leaves in the \<^verbatim>\<open>update\<close> array.\<close>

definition sl_update :: "('k, 'd) skiplist \<Rightarrow> addr list \<Rightarrow> addr option list \<Rightarrow> bool" where
  "sl_update l lo upd \<longleftrightarrow>
     length upd = MAX_LINK \<and>
     (\<forall>k < MAX_LINK. upd ! k = (if k \<le> top_link l then Some (sl_pred l k lo) else None))"


text \<open>Sequences of insert and remove operations on a skip list. An insert carries what
  \<^verbatim>\<open>MALLOC\<close> answers; \<open>sl_fresh\<close> says that every address it answers during the run is
  not allocated at that moment.\<close>

datatype ('k, 'd) sl_op =
  SlInsert "'k option" "'d option" bool "addr option"
  | SlRemove "'k option"

fun sl_apply :: "('k, 'd) skiplist \<Rightarrow> ('k, 'd) sl_op \<Rightarrow> error + ('k, 'd) skiplist" where
  "sl_apply l (SlInsert ky dt ow alloc) =
     (case skiplist_insert l ky dt ow alloc of Inl e \<Rightarrow> Inl e | Inr (rc, l') \<Rightarrow> Inr l')"
| "sl_apply l (SlRemove ky) =
     (case skiplist_remove l ky of Inl e \<Rightarrow> Inl e | Inr (rc, l') \<Rightarrow> Inr l')"

fun sl_fresh_op :: "('k, 'd) skiplist \<Rightarrow> ('k, 'd) sl_op \<Rightarrow> bool" where
  "sl_fresh_op l (SlInsert ky dt ow (Some x)) = (heap l x = None)"
| "sl_fresh_op l _ = True"

fun sl_run :: "('k, 'd) skiplist \<Rightarrow> ('k, 'd) sl_op list \<Rightarrow> error + ('k, 'd) skiplist" where
  "sl_run l [] = Inr l"
| "sl_run l (x # xs) = (case sl_apply l x of Inl e \<Rightarrow> Inl e | Inr l' \<Rightarrow> sl_run l' xs)"

fun sl_fresh :: "('k, 'd) skiplist \<Rightarrow> ('k, 'd) sl_op list \<Rightarrow> bool" where
  "sl_fresh l [] = True"
| "sl_fresh l (x # xs) =
     (sl_fresh_op l x \<and> (case sl_apply l x of Inl e \<Rightarrow> True | Inr l' \<Rightarrow> sl_fresh l' xs))"
subsection \<open>Loads and stores\<close>

lemma load_link_Some:
  "h a = Some n \<Longrightarrow> k < length (link n) \<Longrightarrow> load_link h (Some a) k = Inr (link n ! k)"
  by (simp add: load_link_def deref_def get_link_def)

lemma load_link_InrD:
  "load_link h (Some a) k = Inr v \<Longrightarrow> \<exists>n. h a = Some n \<and> k < length (link n) \<and> link n ! k = v"
  by (auto simp add: load_link_def deref_def get_link_def split: option.splits if_splits)

lemma deref_Some [simp]: "h a = Some n \<Longrightarrow> deref h (Some a) = Inr n"
  by (simp add: deref_def)

lemma deref_InrD: "deref h p = Inr n \<Longrightarrow> \<exists>a. p = Some a \<and> h a = Some n"
  by (auto simp add: deref_def split: option.splits)

lemma store_link_Some:
  "h a = Some n \<Longrightarrow> k < length (link n) \<Longrightarrow>
     store_link h (Some a) k v = Inr (h(a \<mapsto> n\<lparr>link := (link n)[k := v]\<rparr>))"
  by (simp add: store_link_def)

lemma store_prev_Some:
  "h a = Some n \<Longrightarrow> store_prev h (Some a) v = Inr (h(a \<mapsto> n\<lparr>prev := v\<rparr>))"
  by (simp add: store_prev_def)

lemma sl_same_refl [simp]: "sl_same h h"
  by (auto simp add: sl_same_def split: option.splits)

lemma sl_same_trans: "sl_same h1 h2 \<Longrightarrow> sl_same h2 h3 \<Longrightarrow> sl_same h1 h3"
  unfolding sl_same_def
proof (intro allI)
  fix a
  assume 1: "\<forall>a. case h1 a of None \<Rightarrow> h2 a = None
        | Some n \<Rightarrow> \<exists>n'. h2 a = Some n' \<and> key n' = key n \<and> datum n' = datum n \<and>
                     link_count n' = link_count n \<and> length (link n') = length (link n)"
    and 2: "\<forall>a. case h2 a of None \<Rightarrow> h3 a = None
        | Some n \<Rightarrow> \<exists>n'. h3 a = Some n' \<and> key n' = key n \<and> datum n' = datum n \<and>
                     link_count n' = link_count n \<and> length (link n') = length (link n)"
  from 1 [rule_format, of a] 2 [rule_format, of a]
  show "case h1 a of None \<Rightarrow> h3 a = None
        | Some n \<Rightarrow> \<exists>n'. h3 a = Some n' \<and> key n' = key n \<and> datum n' = datum n \<and>
                     link_count n' = link_count n \<and> length (link n') = length (link n)"
    by (auto split: option.splits)
qed

lemma sl_same_store_link: "store_link h p k v = Inr h' \<Longrightarrow> sl_same h h'"
  by (auto simp add: store_link_def sl_same_def split: option.splits if_splits)

lemma sl_same_store_prev: "store_prev h p v = Inr h' \<Longrightarrow> sl_same h h'"
  by (auto simp add: store_prev_def sl_same_def split: option.splits if_splits)

lemma sl_same_lc: "sl_same h h' \<Longrightarrow> sl_lc h' a = sl_lc h a"
  unfolding sl_same_def sl_lc_def
  by (erule allE [of _ a]) (auto split: option.splits)

lemma sl_same_key: "sl_same h h' \<Longrightarrow> sl_key h' a = sl_key h a"
  unfolding sl_same_def sl_key_def
  by (erule allE [of _ a]) (auto split: option.splits)

lemma sl_same_datum: "sl_same h h' \<Longrightarrow> sl_datum h' a = sl_datum h a"
  unfolding sl_same_def sl_datum_def
  by (erule allE [of _ a]) (auto split: option.splits)

lemma sl_same_node_ok: "sl_same h h' \<Longrightarrow> sl_node_ok h' tp a = sl_node_ok h tp a"
  unfolding sl_same_def sl_node_ok_def
  by (erule allE [of _ a]) (auto split: option.splits)

lemma sl_same_level: "sl_same h h' \<Longrightarrow> sl_level h' k ns = sl_level h k ns"
  by (simp add: sl_level_def sl_same_lc)

lemma load_link_store_link_other:
  "store_link h p j v = Inr h' \<Longrightarrow> p \<noteq> Some a \<or> j \<noteq> k \<Longrightarrow>
     load_link h' (Some a) k = load_link h (Some a) k"
  by (auto simp add: store_link_def load_link_def deref_def get_link_def
      split: option.splits if_splits)

lemma load_link_store_link_same:
  "store_link h (Some a) k v = Inr h' \<Longrightarrow> load_link h' (Some a) k = Inr v"
  by (auto simp add: store_link_def load_link_def deref_def get_link_def
      split: option.splits if_splits)

lemma load_link_store_prev:
  "store_prev h p v = Inr h' \<Longrightarrow> load_link h' q k = load_link h q k"
  by (auto simp add: store_prev_def load_link_def deref_def get_link_def
      split: option.splits if_splits)

subsection \<open>Chains\<close>

lemma sl_chain_frame:
  "(\<forall>a \<in> set (x # as). load_link h' (Some a) k = load_link h (Some a) k) \<Longrightarrow>
     sl_chain h' k x as = sl_chain h k x as"
  by (induction as arbitrary: x) auto

lemma sl_chain_append:
  "sl_chain h k x (as @ bs) \<Longrightarrow> sl_chain h k (last (x # as)) bs"
  by (induction as arbitrary: x) auto

lemma sl_chain_next:
  "sl_chain h k x as \<Longrightarrow>
     load_link h (Some x) k = Inr (case as of [] \<Rightarrow> None | a # _ \<Rightarrow> Some a)"
  by (cases as) simp_all

text \<open>Linking \<open>x\<close> in after the last node of \<open>as\<close>.\<close>

lemma sl_chain_splice:
  assumes "sl_chain h k s (as @ bs)" and "distinct (s # as @ bs)" and "x \<notin> set (s # as @ bs)"
    and "load_link h' (Some x) k = load_link h (Some (last (s # as))) k"
    and "load_link h' (Some (last (s # as))) k = Inr (Some x)"
    and "\<forall>a. a \<noteq> x \<longrightarrow> a \<noteq> last (s # as) \<longrightarrow> load_link h' (Some a) k = load_link h (Some a) k"
  shows "sl_chain h' k s (as @ x # bs)"
  using assms
proof (induction as arbitrary: s)
  case Nil
  from Nil.prems(1) have nx: "load_link h (Some s) k = Inr (case bs of [] \<Rightarrow> None | a # _ \<Rightarrow> Some a)"
    by (simp add: sl_chain_next)
  have fr: "sl_chain h' k b bs' = sl_chain h k b bs'" if "bs = b # bs'" for b bs'
    using Nil.prems(2,3,6) that by (intro sl_chain_frame) auto
  show ?case
  proof (cases bs)
    case Nil
    with nx \<open>load_link h' (Some x) k = load_link h (Some (last (s # []))) k\<close>
      \<open>load_link h' (Some (last (s # []))) k = Inr (Some x)\<close>
    show ?thesis by simp
  next
    case (Cons b bs')
    with nx Nil.prems(1,4,5) fr [OF Cons] show ?thesis by simp
  qed
next
  case (Cons a as)
  have "last (a # as) \<in> set (a # as)" by (rule last_in_set) simp
  moreover from Cons.prems(2) have "s \<notin> set (a # as)" by simp
  ultimately have sa: "s \<noteq> last (a # as)" by metis
  have sx: "s \<noteq> x" using Cons.prems(3) by simp
  from Cons.prems(6) sa sx have "load_link h' (Some s) k = load_link h (Some s) k"
    by simp
  moreover have "sl_chain h' k a (as @ x # bs)"
    using Cons.prems by (intro Cons.IH) auto
  ultimately show ?case using Cons.prems(1) by simp
qed

text \<open>Taking the node \<open>x\<close> that follows the last node of \<open>as\<close> out of the chain.\<close>

lemma sl_chain_unlink:
  assumes "sl_chain h k s (as @ x # bs)" and "distinct (s # as @ x # bs)"
    and "load_link h' (Some (last (s # as))) k = load_link h (Some x) k"
    and "\<forall>a. a \<noteq> last (s # as) \<longrightarrow> load_link h' (Some a) k = load_link h (Some a) k"
  shows "sl_chain h' k s (as @ bs)"
  using assms
proof (induction as arbitrary: s)
  case Nil
  from Nil.prems(1) have "sl_chain h k x bs" by simp
  then have nx: "load_link h (Some x) k = Inr (case bs of [] \<Rightarrow> None | a # _ \<Rightarrow> Some a)"
    by (rule sl_chain_next)
  have fr: "sl_chain h' k b bs' = sl_chain h k b bs'" if "bs = b # bs'" for b bs'
    using Nil.prems(2,4) that by (intro sl_chain_frame) auto
  show ?case
  proof (cases bs)
    case Nil
    with nx \<open>load_link h' (Some (last (s # []))) k = load_link h (Some x) k\<close> show ?thesis by simp
  next
    case (Cons b bs')
    with nx Nil.prems(1,3) fr [OF Cons] show ?thesis by simp
  qed
next
  case (Cons a as)
  have "last (a # as) \<in> set (a # as)" by (rule last_in_set) simp
  moreover from Cons.prems(2) have "s \<notin> set (a # as)" by simp
  ultimately have sa: "s \<noteq> last (a # as)" by metis
  from Cons.prems(4) sa have "load_link h' (Some s) k = load_link h (Some s) k"
    by simp
  moreover have "sl_chain h' k a (as @ bs)"
    using Cons.prems by (intro Cons.IH) auto
  ultimately show ?case using Cons.prems(1) by simp
qed

subsection \<open>The descent in a well-formed list\<close>

lemma filter_prefix_last:
  assumes "\<And>a. P' a \<Longrightarrow> P a"
  shows "\<exists>A R. filter P xs = A @ R \<and> last (s # A) = last (s # filter P' xs)"
proof (induction xs rule: rev_induct)
  case Nil
  show ?case by simp
next
  case (snoc a xs)
  then obtain A R where f: "filter P xs = A @ R" and l: "last (s # A) = last (s # filter P' xs)"
    by blast
  show ?case
  proof (cases "P' a")
    case True
    with assms have "P a" by simp
    with True have "filter P (xs @ [a]) = (filter P xs @ [a]) @ []"
      and "last (s # filter P xs @ [a]) = last (s # filter P' (xs @ [a]))"
      by simp_all
    then show ?thesis by blast
  next
    case False
    then have "filter P (xs @ [a]) = A @ (R @ filter P [a])"
      and "last (s # A) = last (s # filter P' (xs @ [a]))"
      using f l by simp_all
    then show ?thesis by blast
  qed
qed

lemma sl_level_append: "sl_level h k (xs @ ys) = sl_level h k xs @ sl_level h k ys"
  by (simp add: sl_level_def)

lemma sl_level_subset: "set (sl_level h k xs) \<subseteq> set xs"
  by (auto simp add: sl_level_def)

lemma sl_level_mem: "a \<in> set (sl_level h k xs) \<longleftrightarrow> a \<in> set xs \<and> k < sl_lc h a"
  by (auto simp add: sl_level_def)

lemma sl_level_step:
  "\<exists>A R. sl_level h k xs = A @ R \<and> last (s # A) = last (s # sl_level h (Suc k) xs)"
  unfolding sl_level_def by (rule filter_prefix_last) simp

lemma sl_key_Some: "h a = Some n \<Longrightarrow> sl_key h a = key n"
  by (simp add: sl_key_def)

lemma skip_advance_chain:
  assumes "sl_chain (heap l) k y (R @ T)"
    and "\<forall>a \<in> set R. 0 < cmp_func l ky (sl_key (heap l) a)"
    and "T = [] \<or> \<not> 0 < cmp_func l ky (sl_key (heap l) (hd T))"
    and "\<forall>a \<in> set (R @ T). heap l a \<noteq> None"
  shows "skip_advance l ky k y = Some (Inr (last (y # R)))"
  using assms
proof (induction R arbitrary: y)
  case Nil
  show ?case
  proof (cases T)
    case Nil
    with Nil.prems(1) show ?thesis by (subst skip_advance.simps) simp
  next
    case (Cons t T')
    with Nil.prems(4) obtain tn where tn: "heap l t = Some tn" by auto
    with Cons Nil.prems(3) have "\<not> 0 < cmp_func l ky (key tn)" by (simp add: sl_key_Some)
    with Cons Nil.prems(1) tn show ?thesis by (subst skip_advance.simps) simp
  qed
next
  case (Cons a R)
  from Cons.prems(4) obtain an where an: "heap l a = Some an" by auto
  with Cons.prems(2) have gt: "0 < cmp_func l ky (key an)" by (simp add: sl_key_Some)
  have "skip_advance l ky k a = Some (Inr (last (a # R)))"
    using Cons.prems by (intro Cons.IH) auto
  with Cons.prems(1) an gt show ?case by (subst skip_advance.simps) simp
qed

lemma skip_seek_chain_stop:
  assumes "sl_chain (heap l) k y (R @ T)"
    and "\<forall>a \<in> set R. 0 < cmp_func l ky (sl_key (heap l) a)"
    and "T = [] \<or> cmp_func l ky (sl_key (heap l) (hd T)) < 0"
    and "\<forall>a \<in> set (R @ T). heap l a \<noteq> None"
  shows "skip_seek l False ky k y = Some (Inr (False, last (y # R)))"
  using assms
proof (induction R arbitrary: y)
  case Nil
  show ?case
  proof (cases T)
    case Nil
    with Nil.prems(1) show ?thesis by (subst skip_seek.simps) simp
  next
    case (Cons t T')
    with Nil.prems(4) obtain tn where tn: "heap l t = Some tn" by auto
    with Cons Nil.prems(3) have "cmp_func l ky (key tn) < 0" by (simp add: sl_key_Some)
    with Cons Nil.prems(1) tn show ?thesis by (subst skip_seek.simps) simp
  qed
next
  case (Cons a R)
  from Cons.prems(4) obtain an where an: "heap l a = Some an" by auto
  with Cons.prems(2) have gt: "0 < cmp_func l ky (key an)" by (simp add: sl_key_Some)
  have "skip_seek l False ky k a = Some (Inr (False, last (a # R)))"
    using Cons.prems by (intro Cons.IH) auto
  with Cons.prems(1) an gt show ?case by (subst skip_seek.simps) simp
qed

lemma skip_seek_chain_found:
  assumes "sl_chain (heap l) k y (R @ t # T)"
    and "\<forall>a \<in> set R. 0 < cmp_func l ky (sl_key (heap l) a)"
    and "cmp_func l ky (sl_key (heap l) t) = 0"
    and "\<forall>a \<in> set (R @ [t]). heap l a \<noteq> None"
  shows "skip_seek l False ky k y = Some (Inr (True, t))"
  using assms
proof (induction R arbitrary: y)
  case Nil
  then obtain tn where tn: "heap l t = Some tn" by auto
  with Nil.prems(3) have "cmp_func l ky (key tn) = 0" by (simp add: sl_key_Some)
  with Nil.prems(1) tn show ?case by (subst skip_seek.simps) simp
next
  case (Cons a R)
  from Cons.prems(4) obtain an where an: "heap l a = Some an" by auto
  with Cons.prems(2) have gt: "0 < cmp_func l ky (key an)" by (simp add: sl_key_Some)
  have "skip_seek l False ky k a = Some (Inr (True, t))"
    using Cons.prems by (intro Cons.IH) auto
  with Cons.prems(1) an gt show ?case by (subst skip_seek.simps) simp
qed

lemma sl_inv_node:
  "sl_inv l ns \<Longrightarrow> a \<in> set ns \<Longrightarrow>
     \<exists>n. heap l a = Some n \<and> length (link n) = link_count n \<and> 1 \<le> link_count n \<and>
         link_count n \<le> top_link l + 1 \<and> sl_lc (heap l) a = link_count n"
  by (auto simp add: sl_inv_def sl_node_ok_def sl_lc_def)

lemma sl_inv_head:
  "sl_inv l ns \<Longrightarrow>
     \<exists>hn. heap l (head l) = Some hn \<and> length (link hn) = max_link l \<and>
          link_count hn = max_link l \<and> sl_lc (heap l) (head l) = max_link l"
  by (auto simp add: sl_inv_def sl_lc_def)

lemma sl_inv_level0: "sl_inv l ns \<Longrightarrow> set xs \<subseteq> set ns \<Longrightarrow> sl_level (heap l) 0 xs = xs"
  unfolding sl_level_def
  by (rule filter_True) (auto dest: sl_inv_node)

lemma sl_inv_level_top:
  "sl_inv l ns \<Longrightarrow> set xs \<subseteq> set ns \<Longrightarrow> top_link l < k \<Longrightarrow> sl_level (heap l) k xs = []"
  unfolding sl_level_def
  by (rule filter_False) (auto dest: sl_inv_node)

lemma sl_inv_chain:
  "sl_inv l ns \<Longrightarrow> k < max_link l \<Longrightarrow> sl_chain (heap l) k (head l) (sl_level (heap l) k ns)"
  by (simp add: sl_inv_def)

lemma sl_pred_mem: "sl_pred l k lo = head l \<or> (sl_pred l k lo \<in> set lo \<and> k < sl_lc (heap l) (sl_pred l k lo))"
proof (cases "sl_level (heap l) k lo = []")
  case True
  then show ?thesis by (simp add: sl_pred_def)
next
  case False
  then have "last (sl_level (heap l) k lo) \<in> set (sl_level (heap l) k lo)" by (rule last_in_set)
  with False show ?thesis by (simp add: sl_pred_def sl_level_mem)
qed

lemma sl_pred_lc:
  assumes "sl_inv l (lo @ hi)" and "k < max_link l"
  shows "k < sl_lc (heap l) (sl_pred l k lo)"
  using sl_pred_mem [of l k lo] sl_inv_head [OF assms(1)] assms(2) by auto

lemma sl_pred_node:
  assumes "sl_inv l (lo @ hi)"
  shows "\<exists>n. heap l (sl_pred l k lo) = Some n \<and> link_count n = sl_lc (heap l) (sl_pred l k lo)
            \<and> length (link n) = link_count n"
  using sl_pred_mem [of l k lo] sl_inv_head [OF assms] sl_inv_node [OF assms, of "sl_pred l k lo"]
  by auto

text \<open>The chain of level \<open>k\<close> from the node reached on the level above.\<close>

lemma sl_chain_from_pred:
  assumes inv: "sl_inv l (lo @ hi)" and k: "k < max_link l"
  shows "\<exists>R. sl_chain (heap l) k (sl_pred l (Suc k) lo) (R @ sl_level (heap l) k hi) \<and>
             set R \<subseteq> set lo \<and> last (sl_pred l (Suc k) lo # R) = sl_pred l k lo"
proof -
  from sl_level_step [of "heap l" k lo "head l"]
  obtain A R where ar: "sl_level (heap l) k lo = A @ R"
    and la: "last (head l # A) = sl_pred l (Suc k) lo"
    by (auto simp add: sl_pred_def)
  from sl_inv_chain [OF inv k]
  have "sl_chain (heap l) k (head l) (A @ (R @ sl_level (heap l) k hi))"
    by (simp add: sl_level_append ar)
  then have c: "sl_chain (heap l) k (sl_pred l (Suc k) lo) (R @ sl_level (heap l) k hi)"
    unfolding la [symmetric] by (rule sl_chain_append)
  have "set R \<subseteq> set lo"
    using sl_level_subset [of "heap l" k lo] ar by auto
  moreover have "last (sl_pred l (Suc k) lo # R) = sl_pred l k lo"
  proof (cases R)
    case Nil
    with la ar show ?thesis by (simp add: sl_pred_def)
  next
    case (Cons r R')
    with ar show ?thesis by (simp add: sl_pred_def)
  qed
  ultimately show ?thesis using c by blast
qed

lemma skip_find_update:
  assumes inv: "sl_inv l (lo @ hi)"
    and lo: "\<forall>a \<in> set lo. 0 < cmp_func l ky (sl_key (heap l) a)"
    and hi: "\<forall>a \<in> set hi. \<not> 0 < cmp_func l ky (sl_key (heap l) a)"
  shows "lv \<le> top_link l + 1 \<Longrightarrow> length upd = MAX_LINK \<Longrightarrow>
     \<exists>upd'. skip_find l ky lv (sl_pred l lv lo) upd = Inr (last (head l # lo), upd') \<and>
            length upd' = MAX_LINK \<and>
            (\<forall>k < lv. upd' ! k = Some (sl_pred l k lo)) \<and>
            (\<forall>k \<ge> lv. upd' ! k = upd ! k)"
proof (induction lv arbitrary: upd)
  case 0
  have "sl_level (heap l) 0 lo = lo"
    by (rule sl_inv_level0 [OF inv]) simp
  then show ?case using 0 by (simp add: sl_pred_def)
next
  case (Suc lv)
  from inv have tm: "top_link l < max_link l" and mm: "max_link l \<le> MAX_LINK"
    by (simp_all add: sl_inv_def)
  with Suc.prems have k: "lv < max_link l" and kl: "lv < length upd" by simp_all
  let ?x = "sl_pred l (Suc lv) lo"
  from sl_pred_node [OF inv, of "Suc lv"]
  obtain xn where xn: "heap l ?x = Some xn" and xc: "link_count xn = sl_lc (heap l) ?x" by blast
  have xl: "lv < link_count xn"
  proof (cases "Suc lv < max_link l")
    case True
    from sl_pred_lc [OF inv True] xc show ?thesis by simp
  next
    case False
    with k tm Suc.prems(1) have "top_link l < Suc lv" by simp
    from sl_inv_level_top [OF inv _ this, of lo] have "sl_level (heap l) (Suc lv) lo = []"
      by simp
    then have "?x = head l" by (simp add: sl_pred_def)
    with sl_inv_head [OF inv] xc k show ?thesis by auto
  qed
  from sl_chain_from_pred [OF inv k]
  obtain R where c: "sl_chain (heap l) lv ?x (R @ sl_level (heap l) lv hi)"
    and R: "set R \<subseteq> set lo" and lst: "last (?x # R) = sl_pred l lv lo"
    by blast
  have adv: "skip_advance l ky lv ?x = Some (Inr (sl_pred l lv lo))"
    unfolding lst [symmetric]
  proof (rule skip_advance_chain [OF c])
    show "\<forall>a \<in> set R. 0 < cmp_func l ky (sl_key (heap l) a)" using R lo by auto
    show "sl_level (heap l) lv hi = [] \<or>
          \<not> 0 < cmp_func l ky (sl_key (heap l) (hd (sl_level (heap l) lv hi)))"
    proof (cases "sl_level (heap l) lv hi")
      case Nil
      then show ?thesis by simp
    next
      case (Cons t T)
      then have "t \<in> set hi" using sl_level_subset [of "heap l" lv hi] by auto
      with hi Cons show ?thesis by simp
    qed
    show "\<forall>a \<in> set (R @ sl_level (heap l) lv hi). heap l a \<noteq> None"
      using R sl_level_subset [of "heap l" lv hi] sl_inv_node [OF inv] by fastforce
  qed
  from Suc.IH [of "upd[lv := Some (sl_pred l lv lo)]"] Suc.prems
  obtain upd' where
    f: "skip_find l ky lv (sl_pred l lv lo) (upd[lv := Some (sl_pred l lv lo)])
          = Inr (last (head l # lo), upd')"
    and len: "length upd' = MAX_LINK"
    and low: "\<forall>k < lv. upd' ! k = Some (sl_pred l k lo)"
    and high: "\<forall>k \<ge> lv. upd' ! k = (upd[lv := Some (sl_pred l lv lo)]) ! k"
    by auto
  have "skip_find l ky (Suc lv) ?x upd = Inr (last (head l # lo), upd')"
    using xn xl adv kl f by (simp add: array_set_def)
  moreover have "\<forall>k < Suc lv. upd' ! k = Some (sl_pred l k lo)"
    using low high kl by (auto simp add: less_Suc_eq)
  moreover have "\<forall>k \<ge> Suc lv. upd' ! k = upd ! k"
    using high by auto
  ultimately show ?case using len by blast
qed

lemma sl_datum_Some: "h a = Some n \<Longrightarrow> sl_datum h a = datum n"
  by (simp add: sl_datum_def)

lemma skip_search_levels_absent:
  assumes inv: "sl_inv l (lo @ hi)"
    and lo: "\<forall>a \<in> set lo. 0 < cmp_func l ky (sl_key (heap l) a)"
    and hi: "\<forall>a \<in> set hi. cmp_func l ky (sl_key (heap l) a) < 0"
  shows "lv \<le> top_link l + 1 \<Longrightarrow> skip_search_levels l ky lv (sl_pred l lv lo) = Inr None"
proof (induction lv)
  case 0
  show ?case by simp
next
  case (Suc lv)
  from inv have tm: "top_link l < max_link l" by (simp add: sl_inv_def)
  with Suc.prems have k: "lv < max_link l" by simp
  from sl_chain_from_pred [OF inv k]
  obtain R where c: "sl_chain (heap l) lv (sl_pred l (Suc lv) lo) (R @ sl_level (heap l) lv hi)"
    and R: "set R \<subseteq> set lo" and lst: "last (sl_pred l (Suc lv) lo # R) = sl_pred l lv lo"
    by blast
  have "skip_seek l False ky lv (sl_pred l (Suc lv) lo) = Some (Inr (False, sl_pred l lv lo))"
    unfolding lst [symmetric]
  proof (rule skip_seek_chain_stop [OF c])
    show "\<forall>a \<in> set R. 0 < cmp_func l ky (sl_key (heap l) a)" using R lo by auto
    show "sl_level (heap l) lv hi = [] \<or>
          cmp_func l ky (sl_key (heap l) (hd (sl_level (heap l) lv hi))) < 0"
    proof (cases "sl_level (heap l) lv hi")
      case Nil
      then show ?thesis by simp
    next
      case (Cons t T)
      then have "t \<in> set hi" using sl_level_subset [of "heap l" lv hi] by auto
      with hi Cons show ?thesis by simp
    qed
    show "\<forall>a \<in> set (R @ sl_level (heap l) lv hi). heap l a \<noteq> None"
      using R sl_level_subset [of "heap l" lv hi] sl_inv_node [OF inv] by fastforce
  qed
  with Suc show ?case by simp
qed

lemma skip_search_levels_present:
  assumes inv: "sl_inv l (lo @ t # hi)"
    and lo: "\<forall>a \<in> set lo. 0 < cmp_func l ky (sl_key (heap l) a)"
    and t: "cmp_func l ky (sl_key (heap l) t) = 0"
    and hi: "\<forall>a \<in> set hi. cmp_func l ky (sl_key (heap l) a) < 0"
  shows "lv \<le> top_link l + 1 \<Longrightarrow> 0 < lv \<Longrightarrow>
           skip_search_levels l ky lv (sl_pred l lv lo) = Inr (sl_datum (heap l) t)"
proof (induction lv)
  case 0
  then show ?case by simp
next
  case (Suc lv)
  from inv have tm: "top_link l < max_link l" by (simp add: sl_inv_def)
  with Suc.prems have k: "lv < max_link l" by simp
  from sl_inv_node [OF inv, of t]
  obtain tn where tn: "heap l t = Some tn" and t1: "1 \<le> link_count tn"
    and tc: "sl_lc (heap l) t = link_count tn"
    by auto
  from sl_chain_from_pred [OF inv k]
  obtain R where c: "sl_chain (heap l) lv (sl_pred l (Suc lv) lo) (R @ sl_level (heap l) lv (t # hi))"
    and R: "set R \<subseteq> set lo" and lst: "last (sl_pred l (Suc lv) lo # R) = sl_pred l lv lo"
    by blast
  have Rlo: "\<forall>a \<in> set R. 0 < cmp_func l ky (sl_key (heap l) a)" using R lo by auto
  show ?case
  proof (cases "lv < link_count tn")
    case True
    with tc have lvl: "sl_level (heap l) lv (t # hi) = t # sl_level (heap l) lv hi"
      by (simp add: sl_level_def)
    have "skip_seek l False ky lv (sl_pred l (Suc lv) lo) = Some (Inr (True, t))"
    proof (rule skip_seek_chain_found [OF c [unfolded lvl] Rlo t])
      show "\<forall>a \<in> set (R @ [t]). heap l a \<noteq> None"
        using R tn sl_inv_node [OF inv] by fastforce
    qed
    with tn show ?thesis by (simp add: sl_datum_Some)
  next
    case False
    with tc have lvl: "sl_level (heap l) lv (t # hi) = sl_level (heap l) lv hi"
      by (simp add: sl_level_def)
    from False t1 have pos: "0 < lv" by simp
    have "skip_seek l False ky lv (sl_pred l (Suc lv) lo) = Some (Inr (False, sl_pred l lv lo))"
      unfolding lst [symmetric]
    proof (rule skip_seek_chain_stop [OF c [unfolded lvl] Rlo])
      show "sl_level (heap l) lv hi = [] \<or>
            cmp_func l ky (sl_key (heap l) (hd (sl_level (heap l) lv hi))) < 0"
      proof (cases "sl_level (heap l) lv hi")
        case Nil
        then show ?thesis by simp
      next
        case (Cons b T)
        then have "b \<in> set hi" using sl_level_subset [of "heap l" lv hi] by auto
        with hi Cons show ?thesis by simp
      qed
      show "\<forall>a \<in> set (R @ sl_level (heap l) lv hi). heap l a \<noteq> None"
        using R sl_level_subset [of "heap l" lv hi] sl_inv_node [OF inv] by fastforce
    qed
    with Suc pos show ?thesis by simp
  qed
qed

text \<open>The nodes of a list split at a key: those with a smaller key, then possibly
  the node with the key, then those with a larger key.\<close>

lemma sl_split_key:
  assumes sto: "strict_total_order c"
    and srt: "sorted_wrt (\<lambda>a b. c (f a) (f b) < 0) ns"
  shows "\<exists>lo hi. (\<forall>a \<in> set lo. 0 < c ky (f a)) \<and> (\<forall>a \<in> set hi. c ky (f a) < 0) \<and>
           (ns = lo @ hi \<or> (\<exists>t. ns = lo @ t # hi \<and> f t = ky))"
  using srt
proof (induction ns)
  case Nil
  show ?case by (intro exI [of _ "[]"]) simp
next
  case (Cons a ns)
  then obtain lo hi where lo: "\<forall>a \<in> set lo. 0 < c ky (f a)" and hi: "\<forall>a \<in> set hi. c ky (f a) < 0"
    and sp: "ns = lo @ hi \<or> (\<exists>t. ns = lo @ t # hi \<and> f t = ky)"
    by auto
  from Cons.prems have all: "\<forall>b \<in> set ns. c (f a) (f b) < 0" by simp
  consider "0 < c ky (f a)" | "c ky (f a) < 0" | "c ky (f a) = 0"
    by linarith
  then show ?case
  proof cases
    case 1
    with lo have "\<forall>b \<in> set (a # lo). 0 < c ky (f b)" by simp
    moreover from sp have "a # ns = (a # lo) @ hi \<or> (\<exists>t. a # ns = (a # lo) @ t # hi \<and> f t = ky)"
      by auto
    ultimately show ?thesis using hi by blast
  next
    case 2
    with all cmp_trans [OF sto] have "\<forall>b \<in> set (a # ns). c ky (f b) < 0" by auto
    then show ?thesis by (intro exI [of _ "[]"] exI [of _ "a # ns"]) simp
  next
    case 3
    with sto have "f a = ky" by (simp add: cmp_eq)
    with all have "\<forall>b \<in> set ns. c ky (f b) < 0" by simp
    with \<open>f a = ky\<close> show ?thesis by (intro exI [of _ "[]"] exI [of _ ns]) simp
  qed
qed

subsection \<open>Search in a well-formed list\<close>

lemma sl_pred_top:
  assumes "sl_inv l (lo @ hi)" and "top_link l < k"
  shows "sl_pred l k lo = head l"
  using sl_inv_level_top [OF assms(1) _ assms(2), of lo] by (simp add: sl_pred_def)

lemma skiplist_search_absent:
  assumes inv: "sl_inv l ns" and sto: "strict_total_order (cmp_func l)"
    and abs: "\<forall>a \<in> set ns. sl_key (heap l) a \<noteq> ky"
  shows "skiplist_search l ky = Inr None"
proof -
  from inv have "sorted_wrt (\<lambda>a b. cmp_func l (sl_key (heap l) a) (sl_key (heap l) b) < 0) ns"
    by (simp add: sl_inv_def)
  from sl_split_key [OF sto this, of ky] abs
  obtain lo hi where lo: "\<forall>a \<in> set lo. 0 < cmp_func l ky (sl_key (heap l) a)"
    and hi: "\<forall>a \<in> set hi. cmp_func l ky (sl_key (heap l) a) < 0" and ns: "ns = lo @ hi"
    by auto
  from inv ns have inv': "sl_inv l (lo @ hi)" by simp
  from skip_search_levels_absent [OF inv' lo hi, of "top_link l + 1"]
    sl_pred_top [OF inv', of "top_link l + 1"]
  show ?thesis by (simp add: skiplist_search_def)
qed

lemma skiplist_search_present:
  assumes inv: "sl_inv l ns" and sto: "strict_total_order (cmp_func l)"
    and t: "t \<in> set ns" and k: "sl_key (heap l) t = ky"
  shows "skiplist_search l ky = Inr (sl_datum (heap l) t)"
proof -
  from inv have "sorted_wrt (\<lambda>a b. cmp_func l (sl_key (heap l) a) (sl_key (heap l) b) < 0) ns"
    by (simp add: sl_inv_def)
  from sl_split_key [OF sto this, of ky]
  obtain lo hi where lo: "\<forall>a \<in> set lo. 0 < cmp_func l ky (sl_key (heap l) a)"
    and hi: "\<forall>a \<in> set hi. cmp_func l ky (sl_key (heap l) a) < 0"
    and ns: "ns = lo @ hi \<or> (\<exists>t'. ns = lo @ t' # hi \<and> sl_key (heap l) t' = ky)"
    by blast
  have nlo: "t \<notin> set lo" using lo k cmp_irrefl [OF sto, of ky] cmp_flip [OF sto, of ky ky] by auto
  have nhi: "t \<notin> set hi" using hi k cmp_irrefl [OF sto, of ky] by auto
  from ns t nlo nhi have ns': "ns = lo @ t # hi" by auto
  from inv ns' have inv': "sl_inv l (lo @ t # hi)" by simp
  have t0: "cmp_func l ky (sl_key (heap l) t) = 0" using k sto by (simp add: cmp_eq)
  from skip_search_levels_present [OF inv' lo t0 hi, of "top_link l + 1"]
    sl_pred_top [OF inv', of "top_link l + 1"]
  show ?thesis by (simp add: skiplist_search_def)
qed

subsection \<open>Linking a new node in\<close>

text \<open>One round of the second loop of \<^verbatim>\<open>node_insert\<close>, at level \<open>j\<close>: the store \<open>h0\<close>
  gives the level counts, \<open>h\<close> is the store before the round.\<close>

lemma node_insert_splice_step:
  assumes same: "sl_same h0 h"
    and dist: "distinct (s # lo @ hi)" and x: "x \<notin> set (s # lo @ hi)"
    and chain: "sl_chain h j s (sl_level h0 j lo @ sl_level h0 j hi)"
    and u: "u = last (s # sl_level h0 j lo)"
    and un: "h0 u = Some un0" "length (link un0) = link_count un0" "j < link_count un0"
    and xn: "h0 x = Some xn0" "j < length (link xn0)"
  shows "\<exists>un nxt h1 h2.
           deref h (Some u) = Inr un \<and> j < link_count un \<and> get_link un j = Inr nxt \<and>
           store_link h (Some x) j nxt = Inr h1 \<and> store_link h1 (Some u) j (Some x) = Inr h2 \<and>
           sl_same h0 h2 \<and>
           sl_chain h2 j s (sl_level h0 j lo @ x # sl_level h0 j hi) \<and>
           (\<forall>a k. k \<noteq> j \<longrightarrow> load_link h2 (Some a) k = load_link h (Some a) k)"
proof -
  let ?as = "sl_level h0 j lo" and ?bs = "sl_level h0 j hi"
  have sub: "set ?as \<subseteq> set lo" "set ?bs \<subseteq> set hi" by (rule sl_level_subset)+
  have dist': "distinct (s # ?as @ ?bs)"
    using dist sub by (auto simp add: sl_level_def)
  have x': "x \<notin> set (s # ?as @ ?bs)" using x sub by auto
  have "last (s # ?as) \<in> set (s # ?as)" by (rule last_in_set) simp
  with u have uin: "u \<in> set (s # ?as)" by simp
  with x' have ux: "u \<noteq> x" by auto
  from same un obtain un where hu: "h u = Some un" and uc: "link_count un = link_count un0"
    and ul: "length (link un) = length (link un0)"
    unfolding sl_same_def by (auto dest!: spec [of _ u])
  from same xn obtain xn where hx: "h x = Some xn" and xl: "length (link xn) = length (link xn0)"
    unfolding sl_same_def by (auto dest!: spec [of _ x])
  from chain u have "sl_chain h j u ?bs" by (auto dest: sl_chain_append)
  then have nx: "load_link h (Some u) j = Inr (case ?bs of [] \<Rightarrow> None | a # _ \<Rightarrow> Some a)"
    by (rule sl_chain_next)
  let ?nxt = "case ?bs of [] \<Rightarrow> None | a # _ \<Rightarrow> Some a"
  from nx hu have gl: "get_link un j = Inr ?nxt" by (simp add: load_link_def)
  let ?h1 = "h(x \<mapsto> xn\<lparr>link := (link xn)[j := ?nxt]\<rparr>)"
  have s1: "store_link h (Some x) j ?nxt = Inr ?h1"
    using hx xl xn(2) by (simp add: store_link_Some)
  let ?h2 = "?h1(u \<mapsto> un\<lparr>link := (link un)[j := Some x]\<rparr>)"
  have s2: "store_link ?h1 (Some u) j (Some x) = Inr ?h2"
    using hu ux ul un(2,3) by (simp add: store_link_def)
  have same2: "sl_same h0 ?h2"
    using same sl_same_store_link [OF s1] sl_same_store_link [OF s2]
    by (blast intro: sl_same_trans)
  have lx: "load_link ?h2 (Some x) j = load_link h (Some u) j"
    using load_link_store_link_other [OF s2, of x j] load_link_store_link_same [OF s1] ux nx
    by simp
  have lu: "load_link ?h2 (Some u) j = Inr (Some x)"
    by (rule load_link_store_link_same [OF s2])
  have lo': "load_link ?h2 (Some a) j = load_link h (Some a) j" if "a \<noteq> x" "a \<noteq> u" for a
    using load_link_store_link_other [OF s2, of a j] load_link_store_link_other [OF s1, of a j] that
    by simp
  have ch: "sl_chain ?h2 j s (?as @ x # ?bs)"
    using chain dist' x' lx lu lo' unfolding u
    by (intro sl_chain_splice [of h]) auto
  have ot: "load_link ?h2 (Some a) k = load_link h (Some a) k" if "k \<noteq> j" for a k
    using load_link_store_link_other [OF s2, of a k] load_link_store_link_other [OF s1, of a k] that
    by simp
  from hu uc un(3) gl s1 s2 same2 ch ot show ?thesis
    by (intro exI [of _ un] exI [of _ ?nxt] exI [of _ ?h1] exI [of _ ?h2]) simp
qed

lemma sl_lc_Some: "h a = Some n \<Longrightarrow> sl_lc h a = link_count n"
  by (simp add: sl_lc_def)

lemma node_insert_splice_loop:
  assumes dist: "distinct (s # lo @ hi)" and x: "x \<notin> set (s # lo @ hi)"
    and valid: "\<forall>a \<in> set (s # lo). \<exists>n. h0 a = Some n \<and> length (link n) = link_count n"
    and ulc: "\<forall>k < nl. k < sl_lc h0 (last (s # sl_level h0 k lo))"
    and xn: "h0 x = Some xn0" "length (link xn0) = nl"
    and upd: "nl \<le> length upd" "\<forall>k < nl. upd ! k = Some (last (s # sl_level h0 k lo))"
    and nlml: "nl \<le> ml"
  shows "nl - j = d \<Longrightarrow> j \<le> nl \<Longrightarrow> sl_same h0 h \<Longrightarrow>
     (\<forall>k < j. sl_chain h k s (sl_level h0 k lo @ x # sl_level h0 k hi)) \<Longrightarrow>
     (\<forall>k. j \<le> k \<and> k < ml \<longrightarrow> sl_chain h k s (sl_level h0 k lo @ sl_level h0 k hi)) \<Longrightarrow>
     \<exists>h'. node_insert_splice x [j ..< nl] upd h = Inr h' \<and> sl_same h0 h' \<and>
          (\<forall>k < nl. sl_chain h' k s (sl_level h0 k lo @ x # sl_level h0 k hi)) \<and>
          (\<forall>k. nl \<le> k \<and> k < ml \<longrightarrow> sl_chain h' k s (sl_level h0 k lo @ sl_level h0 k hi))"
proof (induction d arbitrary: j h)
  case 0
  then have "j = nl" by simp
  with 0 show ?case by simp
next
  case (Suc d)
  then have jl: "j < nl" by simp
  let ?u = "last (s # sl_level h0 j lo)"
  have "?u \<in> set (s # sl_level h0 j lo)" by (rule last_in_set) simp
  then have "?u \<in> set (s # lo)" using sl_level_subset [of h0 j lo] by auto
  with valid obtain un0 where un0: "h0 ?u = Some un0" "length (link un0) = link_count un0"
    by blast
  from ulc jl have "j < sl_lc h0 ?u" by blast
  then have ul: "j < link_count un0" unfolding sl_lc_Some [of h0 ?u un0, OF un0(1)] .
  from Suc.prems(5) jl nlml
  have ch: "sl_chain h j s (sl_level h0 j lo @ sl_level h0 j hi)" by simp
  from node_insert_splice_step [OF Suc.prems(3) dist x ch refl un0 ul xn(1)] jl xn(2)
  obtain un nxt h1 h2 where
    d1: "deref h (Some ?u) = Inr un" and d2: "j < link_count un"
    and d3: "get_link un j = Inr nxt"
    and d4: "store_link h (Some x) j nxt = Inr h1"
    and d5: "store_link h1 (Some ?u) j (Some x) = Inr h2"
    and same2: "sl_same h0 h2"
    and chj: "sl_chain h2 j s (sl_level h0 j lo @ x # sl_level h0 j hi)"
    and other: "\<forall>a k. k \<noteq> j \<longrightarrow> load_link h2 (Some a) k = load_link h (Some a) k"
    by auto
  have fr: "sl_chain h2 k s as = sl_chain h k s as" if "k \<noteq> j" for k as
    using other that by (intro sl_chain_frame) simp
  have low: "\<forall>k < Suc j. sl_chain h2 k s (sl_level h0 k lo @ x # sl_level h0 k hi)"
    using Suc.prems(4) chj fr by (auto simp add: less_Suc_eq)
  have high: "\<forall>k. Suc j \<le> k \<and> k < ml \<longrightarrow> sl_chain h2 k s (sl_level h0 k lo @ sl_level h0 k hi)"
    using Suc.prems(5) fr by auto
  from Suc.prems(1) have "nl - Suc j = d" by simp
  from Suc.IH [OF this _ same2 low high] jl
  obtain h' where r: "node_insert_splice x [Suc j ..< nl] upd h2 = Inr h'"
    and "sl_same h0 h'"
    and "\<forall>k < nl. sl_chain h' k s (sl_level h0 k lo @ x # sl_level h0 k hi)"
    and "\<forall>k. nl \<le> k \<and> k < ml \<longrightarrow> sl_chain h' k s (sl_level h0 k lo @ sl_level h0 k hi)"
    by auto
  moreover have "node_insert_splice x [j ..< nl] upd h = Inr h'"
    using jl upd d1 d2 d3 d4 d5 r by (simp add: upt_conv_Cons array_get_def)
  ultimately show ?case by blast
qed

text \<open>The first loop of \<^verbatim>\<open>node_insert\<close>.\<close>

lemma node_insert_raise_ok:
  "distinct ks \<Longrightarrow> \<forall>k \<in> set ks. k < length upd \<and> upd ! k = None \<Longrightarrow>
     \<exists>upd'. node_insert_raise a ks upd = Inr upd' \<and> length upd' = length upd \<and>
            (\<forall>k. upd' ! k = (if k \<in> set ks then Some a else upd ! k))"
proof (induction ks arbitrary: upd)
  case Nil
  show ?case by simp
next
  case (Cons k ks)
  from Cons.prems have k: "k < length upd" "upd ! k = None" and nk: "k \<notin> set ks" by simp_all
  have "\<forall>j \<in> set ks. j < length (upd[k := Some a]) \<and> upd[k := Some a] ! j = None"
  proof
    fix j assume j: "j \<in> set ks"
    with nk have "j \<noteq> k" by blast
    with j Cons.prems(2) show "j < length (upd[k := Some a]) \<and> upd[k := Some a] ! j = None"
      by simp
  qed
  from Cons.IH [OF _ this] Cons.prems(1)
  obtain upd' where "node_insert_raise a ks (upd[k := Some a]) = Inr upd'"
    and "length upd' = length upd"
    and "\<forall>j. upd' ! j = (if j \<in> set ks then Some a else upd[k := Some a] ! j)"
    by auto
  with k show ?case
    by (intro exI [of _ upd']) (auto simp add: array_get_def array_set_def)
qed

lemma node_insert_prev_ok:
  assumes u: "0 < length upd" "upd ! 0 = Some u"
    and x: "h x = Some xn"
    and nx: "load_link h (Some u) 0 = Inr nx"
    and s: "\<forall>s. nx = Some s \<longrightarrow> h s \<noteq> None"
  shows "\<exists>h2. node_insert_prev x upd h = Inr h2 \<and> sl_same h h2 \<and>
              (\<forall>a k. load_link h2 a k = load_link h a k)"
proof -
  let ?h1 = "h(x \<mapsto> xn\<lparr>prev := Some u\<rparr>)"
  have s1: "store_prev h (Some x) (Some u) = Inr ?h1" using x by (rule store_prev_Some)
  have l1: "load_link ?h1 a k = load_link h a k" for a k
    using s1 by (rule load_link_store_prev)
  have same1: "sl_same h ?h1" using s1 by (rule sl_same_store_prev)
  show ?thesis
  proof (cases nx)
    case None
    with u s1 nx l1 [of "Some u" 0] same1 l1 show ?thesis
      by (auto simp add: node_insert_prev_def array_get_def)
  next
    case (Some sa)
    with s obtain sn where "h sa = Some sn" by auto
    then obtain sn1 where sn1: "?h1 sa = Some sn1" by (cases "sa = x") auto
    let ?h2 = "?h1(sa \<mapsto> sn1\<lparr>prev := Some x\<rparr>)"
    have s2: "store_prev ?h1 (Some sa) (Some x) = Inr ?h2" using sn1 by (rule store_prev_Some)
    have l2: "load_link ?h2 a k = load_link ?h1 a k" for a k
      using s2 by (rule load_link_store_prev)
    have same2: "sl_same ?h1 ?h2" using s2 by (rule sl_same_store_prev)
    have "node_insert_prev x upd h = Inr ?h2"
      using u s1 nx l1 [of "Some u" 0] s2 Some
      by (simp add: node_insert_prev_def array_get_def)
    moreover have "sl_same h ?h2" using same1 same2 by (rule sl_same_trans)
    moreover have "\<forall>a k. load_link ?h2 a k = load_link h a k" using l1 l2 by simp
    ultimately show ?thesis by blast
  qed
qed

lemma sl_level_fresh:
  "x \<notin> set ns \<Longrightarrow> sl_level (h(x \<mapsto> n)) k ns = sl_level h k ns"
  unfolding sl_level_def by (rule filter_cong) (auto simp add: sl_lc_def)

lemma load_link_fresh:
  "a \<noteq> x \<Longrightarrow> load_link (h(x \<mapsto> n)) (Some a) k = load_link h (Some a) k"
  by (simp add: load_link_def deref_def)

lemma sl_pred_next:
  assumes inv: "sl_inv l (lo @ hi)" and k: "k < max_link l"
  shows "load_link (heap l) (Some (sl_pred l k lo)) k =
           Inr (case sl_level (heap l) k hi of [] \<Rightarrow> None | a # _ \<Rightarrow> Some a)"
proof -
  from sl_inv_chain [OF inv k]
  have "sl_chain (heap l) k (head l) (sl_level (heap l) k lo @ sl_level (heap l) k hi)"
    by (simp add: sl_level_append)
  then have "sl_chain (heap l) k (sl_pred l k lo) (sl_level (heap l) k hi)"
    unfolding sl_pred_def by (rule sl_chain_append)
  then show ?thesis by (rule sl_chain_next)
qed

lemma sl_inv_allocated:
  "sl_inv l ns \<Longrightarrow> a \<in> set (head l # ns) \<Longrightarrow> heap l a \<noteq> None"
  using sl_inv_head [of l ns] sl_inv_node [of l ns a] by auto

lemma sl_sorted_cong:
  "sorted_wrt (\<lambda>a b. c (f a) (f b) < (0::int)) ns \<Longrightarrow> (\<And>a. a \<in> set ns \<Longrightarrow> g a = f a) \<Longrightarrow>
     sorted_wrt (\<lambda>a b. c (g a) (g b) < 0) ns"
  by (induction ns) auto

lemma node_insert_ok:
  assumes inv: "sl_inv l (lo @ hi)"
    and upd: "sl_update l lo upd"
    and fresh: "heap l x = None"
    and lok: "\<forall>a \<in> set lo. cmp_func l (sl_key (heap l) a) ky < 0"
    and hik: "\<forall>a \<in> set hi. cmp_func l ky (sl_key (heap l) a) < 0"
    and ml: "2 \<le> max_link l"
  shows "\<exists>l'. node_insert l ky dt upd (Some x) = Inr (Some x, l') \<and> sl_inv l' (lo @ x # hi) \<and>
           sl_key (heap l') x = ky \<and> sl_datum (heap l') x = dt \<and>
           (\<forall>a. a \<noteq> x \<longrightarrow> sl_key (heap l') a = sl_key (heap l) a \<and>
                            sl_datum (heap l') a = sl_datum (heap l) a) \<and>
           cmp_func l' = cmp_func l \<and> del_func l' = del_func l \<and> deleted l' = deleted l \<and>
           count l' = count l + 1 \<and> head l' = head l \<and> max_link l' = max_link l"
proof -
  define nl where "nl = fst (rand_link_count l)"
  define l1 where "l1 = snd (rand_link_count l)"
  have rl: "rand_link_count l = (nl, l1)" by (simp add: nl_def l1_def)
  have l1: "l1 = l\<lparr>randgen := randgen l * RGEN_A + RGEN_M\<rparr>"
    by (simp add: l1_def rand_link_count_def Let_def)
  have nl1: "1 \<le> nl" unfolding nl_def by (rule rand_link_count_lower)
  have nlm: "nl < max_link l" unfolding nl_def using ml by (rule rand_link_count_upper)
  from inv have mlM: "max_link l \<le> MAX_LINK" and tpm: "top_link l < max_link l"
    and dist: "distinct (head l # lo @ hi)"
    by (simp_all add: sl_inv_def)
  define xn0 :: "('a, 'b) skip_node" where
    "xn0 = \<lparr>key = ky, datum = dt, prev = None, link_count = nl, link = replicate nl None\<rparr>"
  define h1 where "h1 = (heap l)(x \<mapsto> xn0)"
  have nn: "node_new (heap l1) (Some x) ky dt nl = Inr (Some x, h1)"
    using nl1 by (simp add: node_new_def l1 h1_def xn0_def)
  have xnot: "x \<notin> set (head l # lo @ hi)"
    using sl_inv_allocated [OF inv, of x] fresh by blast
  have lev1: "sl_level h1 k ns = sl_level (heap l) k ns" if "set ns \<subseteq> set (lo @ hi)" for k ns
    unfolding h1_def using that xnot by (intro sl_level_fresh) auto
  have ld1: "load_link h1 (Some a) k = load_link (heap l) (Some a) k" if "a \<noteq> x" for a k
    unfolding h1_def using that by (rule load_link_fresh)
  define top2 where "top2 = (if top_link l < nl then nl else top_link l)"
  have top2: "top_link l \<le> top2" "nl \<le> top2" "top2 < max_link l"
    using nlm tpm by (simp_all add: top2_def)
  from upd have lupd: "length upd = MAX_LINK"
    and updk: "\<And>k. k < MAX_LINK \<Longrightarrow>
                 upd ! k = (if k \<le> top_link l then Some (sl_pred l k lo) else None)"
    by (simp_all add: sl_update_def)
  have "\<exists>upd2. (if top_link l1 < nl
                 then (case node_insert_raise (head l1) [top_link l1 + 1 ..< nl + 1] upd of
                         Inl e \<Rightarrow> Inl e
                       | Inr upd' \<Rightarrow> Inr (upd', nl))
                 else Inr (upd, top_link l1)) = Inr (upd2, top2) \<and>
               length upd2 = MAX_LINK \<and> (\<forall>k \<le> top2. upd2 ! k = Some (sl_pred l k lo))"
  proof (cases "top_link l < nl")
    case False
    then show ?thesis using lupd updk tpm mlM by (simp add: l1 top2_def)
  next
    case True
    have d: "distinct [top_link l + 1 ..< nl + 1]" by simp
    have n: "\<forall>k \<in> set [top_link l + 1 ..< nl + 1]. k < length upd \<and> upd ! k = None"
      using lupd updk nlm mlM by auto
    from node_insert_raise_ok [OF d n, of "head l"]
    obtain upd' where r: "node_insert_raise (head l) [top_link l + 1 ..< nl + 1] upd = Inr upd'"
      and len: "length upd' = length upd"
      and val: "\<And>k. upd' ! k = (if k \<in> set [top_link l + 1 ..< nl + 1] then Some (head l)
                                 else upd ! k)"
      by blast
    have "upd' ! k = Some (sl_pred l k lo)" if "k \<le> nl" for k
    proof (cases "k \<le> top_link l")
      case True
      then show ?thesis using val [of k] updk [of k] tpm mlM by simp
    next
      case False
      then have "top_link l < k" by simp
      with inv have "sl_level (heap l) k lo = []" by (intro sl_inv_level_top [of l "lo @ hi"]) auto
      then have "sl_pred l k lo = head l" by (simp add: sl_pred_def)
      with False that show ?thesis using val [of k] by simp
    qed
    with True r len lupd show ?thesis by (simp add: l1 top2_def)
  qed
  then obtain upd2 where raise: "(if top_link l1 < nl
                 then (case node_insert_raise (head l1) [top_link l1 + 1 ..< nl + 1] upd of
                         Inl e \<Rightarrow> Inl e
                       | Inr upd' \<Rightarrow> Inr (upd', nl))
                 else Inr (upd, top_link l1)) = Inr (upd2, top2)"
    and len2: "length upd2 = MAX_LINK"
    and val2: "\<And>k. k \<le> top2 \<Longrightarrow> upd2 ! k = Some (sl_pred l k lo)"
    by blast
  have predin: "sl_pred l k lo \<in> set (head l # lo)" for k
    using sl_pred_mem [of l k lo] by auto
  have prednx: "sl_pred l k lo \<noteq> x" for k
    using predin [of k] xnot by auto
  have x1: "h1 x = Some xn0" by (simp add: h1_def)
  have nx: "load_link h1 (Some (sl_pred l 0 lo)) 0 =
              Inr (case sl_level (heap l) 0 hi of [] \<Rightarrow> None | a # _ \<Rightarrow> Some a)"
    using sl_pred_next [OF inv, of 0] tpm ld1 [OF prednx] by simp
  have alloc1: "\<forall>s. (case sl_level (heap l) 0 hi of [] \<Rightarrow> None | a # _ \<Rightarrow> Some a) = Some s
                  \<longrightarrow> h1 s \<noteq> None"
  proof (intro allI impI)
    fix s assume "(case sl_level (heap l) 0 hi of [] \<Rightarrow> None | a # _ \<Rightarrow> Some a) = Some s"
    then have "s \<in> set (sl_level (heap l) 0 hi)" by (cases "sl_level (heap l) 0 hi") auto
    then have "s \<in> set hi" using sl_level_subset [of "heap l" 0 hi] by auto
    then have "heap l s \<noteq> None" using sl_inv_allocated [OF inv, of s] by simp
    then show "h1 s \<noteq> None" by (simp add: h1_def)
  qed
  have "0 < length upd2" by (simp add: len2 MAX_LINK_def)
  from node_insert_prev_ok [OF this val2 [of 0] x1 nx alloc1]
  obtain h2 where prev: "node_insert_prev x upd2 h1 = Inr h2" and same12: "sl_same h1 h2"
    and ld2: "\<And>a k. load_link h2 a k = load_link h1 a k"
    by auto
  have valid: "\<forall>a \<in> set (head l # lo). \<exists>n. h1 a = Some n \<and> length (link n) = link_count n"
  proof
    fix a assume a: "a \<in> set (head l # lo)"
    with xnot have ax: "a \<noteq> x" by auto
    from a sl_inv_head [OF inv] sl_inv_node [OF inv, of a]
    have "\<exists>n. heap l a = Some n \<and> length (link n) = link_count n" by auto
    with ax show "\<exists>n. h1 a = Some n \<and> length (link n) = link_count n" by (simp add: h1_def)
  qed
  have lc1: "sl_lc h1 a = sl_lc (heap l) a" if "a \<noteq> x" for a
    using that by (simp add: h1_def sl_lc_def)
  have lastp: "last (head l # sl_level h1 k lo) = sl_pred l k lo" for k
    by (simp add: sl_pred_def lev1 del: last.simps)
  have ulc: "\<forall>k < nl. k < sl_lc h1 (last (head l # sl_level h1 k lo))"
    unfolding lastp using sl_pred_lc [OF inv] nlm lc1 [OF prednx] by simp
  have updv: "\<forall>k < nl. upd2 ! k = Some (last (head l # sl_level h1 k lo))"
    unfolding lastp using val2 top2 by simp
  have nlu: "nl \<le> length upd2" using nlm mlM len2 by simp
  have xl: "length (link xn0) = nl" by (simp add: xn0_def)
  have ch0: "\<forall>k. 0 \<le> k \<and> k < max_link l \<longrightarrow>
               sl_chain h2 k (head l) (sl_level h1 k lo @ sl_level h1 k hi)"
  proof (intro allI impI)
    fix k assume "0 \<le> k \<and> k < max_link l"
    then have k: "k < max_link l" by simp
    have "sl_chain h2 k (head l) (sl_level (heap l) k (lo @ hi)) =
          sl_chain (heap l) k (head l) (sl_level (heap l) k (lo @ hi))"
    proof (rule sl_chain_frame, rule ballI)
      fix a assume "a \<in> set (head l # sl_level (heap l) k (lo @ hi))"
      then have "a \<in> set (head l # lo @ hi)" using sl_level_subset [of "heap l" k "lo @ hi"] by auto
      with xnot have "a \<noteq> x" by auto
      then show "load_link h2 (Some a) k = load_link (heap l) (Some a) k"
        by (simp add: ld2 ld1)
    qed
    with sl_inv_chain [OF inv k] show "sl_chain h2 k (head l) (sl_level h1 k lo @ sl_level h1 k hi)"
      by (simp add: lev1 sl_level_append)
  qed
  have "nl \<le> max_link l" using nlm by simp
  from node_insert_splice_loop [OF dist xnot valid ulc x1 xl nlu updv this refl _ same12 _ ch0]
  obtain h3 where splice: "node_insert_splice x [0 ..< nl] upd2 h2 = Inr h3"
    and same13: "sl_same h1 h3"
    and chlo: "\<And>k. k < nl \<Longrightarrow> sl_chain h3 k (head l) (sl_level h1 k lo @ x # sl_level h1 k hi)"
    and chhi: "\<And>k. nl \<le> k \<Longrightarrow> k < max_link l \<Longrightarrow>
                 sl_chain h3 k (head l) (sl_level h1 k lo @ sl_level h1 k hi)"
    by auto
  define l' where "l' = l1\<lparr>top_link := top2, heap := h3, count := count l1 + 1\<rparr>"
  have res: "node_insert l ky dt upd (Some x) = Inr (Some x, l')"
  proof -
    have m1: "nl < max_link l1" using nlm by (simp add: l1)
    show ?thesis
      by (simp only: node_insert_def rl Let_def prod.case m1 simp_thms if_False if_True nn
            sum.case option.case raise prev splice l'_def)
  qed
  have key3: "sl_key h3 a = sl_key h1 a" for a using same13 by (rule sl_same_key)
  have dat3: "sl_datum h3 a = sl_datum h1 a" for a using same13 by (rule sl_same_datum)
  have lc3: "sl_lc h3 a = sl_lc h1 a" for a using same13 by (rule sl_same_lc)
  have keyx: "sl_key h1 x = ky" "sl_datum h1 x = dt" "sl_lc h1 x = nl"
    by (simp_all add: h1_def xn0_def sl_key_def sl_datum_def sl_lc_def)
  have keyo: "sl_key h1 a = sl_key (heap l) a" "sl_datum h1 a = sl_datum (heap l) a"
    if "a \<noteq> x" for a
    using that by (simp_all add: h1_def sl_key_def sl_datum_def)
  have hd3: "\<exists>hn. h3 (head l) = Some hn \<and> length (link hn) = max_link l \<and>
                  link_count hn = max_link l"
  proof -
    from sl_inv_head [OF inv] xnot obtain hn where "h1 (head l) = Some hn"
      "length (link hn) = max_link l" "link_count hn = max_link l"
      by (auto simp add: h1_def)
    with same13 show ?thesis unfolding sl_same_def
      by (auto dest!: spec [of _ "head l"])
  qed
  have ok3: "sl_node_ok h3 top2 a" if "a \<in> set (lo @ x # hi)" for a
  proof (cases "a = x")
    case True
    have "sl_node_ok h1 top2 x" using nl1 top2 by (simp add: sl_node_ok_def h1_def xn0_def)
    with True show ?thesis by (simp add: sl_same_node_ok [OF same13])
  next
    case False
    with that have "a \<in> set (lo @ hi)" by auto
    with inv have "sl_node_ok (heap l) (top_link l) a" by (simp add: sl_inv_def)
    with False top2 have "sl_node_ok h1 top2 a" by (auto simp add: sl_node_ok_def h1_def)
    then show ?thesis by (simp add: sl_same_node_ok [OF same13])
  qed
  have lev3: "sl_level h3 k (lo @ x # hi) =
                sl_level h1 k lo @ (if k < nl then [x] else []) @ sl_level h1 k hi" for k
    by (simp add: sl_level_def lc3 keyx)
  have ch3: "sl_chain h3 k (head l) (sl_level h3 k (lo @ x # hi))" if "k < max_link l" for k
    unfolding lev3 using chlo [of k] chhi [of k] that by (cases "k < nl") simp_all
  from inv have srt: "sorted_wrt (\<lambda>a b. cmp_func l (sl_key (heap l) a) (sl_key (heap l) b) < 0)
                       (lo @ hi)"
    by (simp add: sl_inv_def)
  have key3o: "sl_key h3 a = sl_key (heap l) a" if "a \<in> set (lo @ hi)" for a
    using that xnot by (subst key3, subst keyo) auto
  have srt3: "sorted_wrt (\<lambda>a b. cmp_func l (sl_key h3 a) (sl_key h3 b) < 0) (lo @ x # hi)"
  proof -
    from srt have s: "sorted_wrt (\<lambda>a b. cmp_func l (sl_key h3 a) (sl_key h3 b) < 0) (lo @ hi)"
      by (rule sl_sorted_cong) (simp add: key3o)
    have kx: "sl_key h3 x = ky" by (simp add: key3 keyx)
    from s lok hik show ?thesis
      by (auto simp add: sorted_wrt_append kx key3o)
  qed
  have "sl_inv l' (lo @ x # hi)"
    unfolding sl_inv_def using dist xnot hd3 top2 mlM ok3 ch3 srt3
    by (simp add: l'_def l1)
  moreover have "sl_key (heap l') x = ky" "sl_datum (heap l') x = dt"
    by (simp_all add: l'_def key3 dat3 keyx)
  moreover have "\<forall>a. a \<noteq> x \<longrightarrow> sl_key (heap l') a = sl_key (heap l) a \<and>
                            sl_datum (heap l') a = sl_datum (heap l) a"
    by (simp add: l'_def key3 dat3 keyo)
  moreover have "cmp_func l' = cmp_func l" "del_func l' = del_func l" "deleted l' = deleted l"
    "count l' = count l + 1" "head l' = head l" "max_link l' = max_link l"
    by (simp_all add: l'_def l1)
  ultimately show ?thesis using res by blast
qed

subsection \<open>The effect of insert on a well-formed list\<close>

lemma skip_find_fresh:
  assumes inv: "sl_inv l (lo @ hi)"
    and lo: "\<forall>a \<in> set lo. 0 < cmp_func l ky (sl_key (heap l) a)"
    and hi: "\<forall>a \<in> set hi. \<not> 0 < cmp_func l ky (sl_key (heap l) a)"
  shows "\<exists>upd. skip_find l ky (top_link l + 1) (head l) (replicate MAX_LINK None) =
                 Inr (sl_pred l 0 lo, upd) \<and> sl_update l lo upd"
proof -
  have top: "sl_pred l (top_link l + 1) lo = head l"
    using inv by (rule sl_pred_top) simp
  have bot: "last (head l # lo) = sl_pred l 0 lo"
    using sl_inv_level0 [OF inv, of lo] by (simp add: sl_pred_def)
  from skip_find_update [OF inv lo hi, of "top_link l + 1" "replicate MAX_LINK None"]
  obtain upd where f: "skip_find l ky (top_link l + 1) (head l) (replicate MAX_LINK None) =
      Inr (sl_pred l 0 lo, upd)"
    and len: "length upd = MAX_LINK"
    and low: "\<forall>k < top_link l + 1. upd ! k = Some (sl_pred l k lo)"
    and high: "\<forall>k \<ge> top_link l + 1. upd ! k = replicate MAX_LINK None ! k"
    unfolding top bot by auto
  have "sl_update l lo upd"
    unfolding sl_update_def using len low high by auto
  with f show ?thesis by blast
qed

lemma sl_inv_first_hi:
  assumes inv: "sl_inv l (lo @ hi)"
  shows "load_link (heap l) (Some (sl_pred l 0 lo)) 0 =
           Inr (case hi of [] \<Rightarrow> None | a # _ \<Rightarrow> Some a)"
proof -
  from inv have "0 < max_link l" by (simp add: sl_inv_def)
  from sl_pred_next [OF inv this] sl_inv_level0 [OF inv, of hi] show ?thesis by simp
qed

text \<open>A key that is not in the list is inserted, in its place.\<close>

lemma skiplist_insert_absent:
  assumes inv: "sl_inv l (lo @ hi)" and sto: "strict_total_order (cmp_func l)"
    and lo: "\<forall>a \<in> set lo. 0 < cmp_func l ky (sl_key (heap l) a)"
    and hi: "\<forall>a \<in> set hi. cmp_func l ky (sl_key (heap l) a) < 0"
    and fresh: "heap l x = None" and ml: "2 \<le> max_link l"
  shows "\<exists>l'. skiplist_insert l ky dt ow (Some x) = Inr (0, l') \<and> sl_inv l' (lo @ x # hi) \<and>
           sl_key (heap l') x = ky \<and> sl_datum (heap l') x = dt \<and>
           (\<forall>a. a \<noteq> x \<longrightarrow> sl_key (heap l') a = sl_key (heap l) a \<and>
                            sl_datum (heap l') a = sl_datum (heap l) a) \<and>
           cmp_func l' = cmp_func l \<and> del_func l' = del_func l \<and> deleted l' = deleted l \<and>
           count l' = count l + 1 \<and> head l' = head l \<and> max_link l' = max_link l"
proof -
  have hi': "\<forall>a \<in> set hi. \<not> 0 < cmp_func l ky (sl_key (heap l) a)" using hi by auto
  from skip_find_fresh [OF inv lo hi']
  obtain upd where f: "skip_find l ky (top_link l + 1) (head l) (replicate MAX_LINK None) =
      Inr (sl_pred l 0 lo, upd)" and u: "sl_update l lo upd"
    by blast
  have lok: "\<forall>a \<in> set lo. cmp_func l (sl_key (heap l) a) ky < 0"
    using lo by (simp add: cmp_flip [OF sto])
  from node_insert_ok [OF inv u fresh lok hi ml, of dt]
  obtain l' where n: "node_insert l ky dt upd (Some x) = Inr (Some x, l')"
    and rest: "sl_inv l' (lo @ x # hi)" "sl_key (heap l') x = ky" "sl_datum (heap l') x = dt"
      "\<forall>a. a \<noteq> x \<longrightarrow> sl_key (heap l') a = sl_key (heap l) a \<and>
                       sl_datum (heap l') a = sl_datum (heap l) a"
      "cmp_func l' = cmp_func l" "del_func l' = del_func l" "deleted l' = deleted l"
      "count l' = count l + 1" "head l' = head l" "max_link l' = max_link l"
    by blast
  have "skiplist_insert l ky dt ow (Some x) = Inr (0, l')"
  proof (cases hi)
    case Nil
    with f sl_inv_first_hi [OF inv] n show ?thesis by (simp add: skiplist_insert_def)
  next
    case (Cons a hi')
    with inv sl_inv_node [OF inv, of a] obtain an where an: "heap l a = Some an" by auto
    with hi Cons have "cmp_func l ky (key an) < 0" by (simp add: sl_key_def)
    with f sl_inv_first_hi [OF inv] n Cons an show ?thesis by (simp add: skiplist_insert_def)
  qed
  with rest show ?thesis by blast
qed

text \<open>Assigning the key it has and a datum to a node leaves the list well-formed.\<close>

lemma sl_inv_assign:
  assumes inv: "sl_inv l ns" and t: "heap l t = Some tn" and k: "key tn = ky"
  shows "sl_inv (l\<lparr>heap := (heap l)(t \<mapsto> tn\<lparr>key := ky, datum := dt\<rparr>), deleted := lg\<rparr>) ns"
proof -
  let ?h = "(heap l)(t \<mapsto> tn\<lparr>key := ky, datum := dt\<rparr>)"
  have ld: "load_link ?h p j = load_link (heap l) p j" for p j
    using t by (cases p) (auto simp add: load_link_def deref_def get_link_def)
  have lc: "sl_lc ?h a = sl_lc (heap l) a" for a using t by (simp add: sl_lc_def)
  have ky: "sl_key ?h a = sl_key (heap l) a" for a using t k by (simp add: sl_key_def)
  have ok: "sl_node_ok ?h tp a = sl_node_ok (heap l) tp a" for tp a
    using t by (simp add: sl_node_ok_def)
  have lv: "sl_level ?h j xs = sl_level (heap l) j xs" for j xs by (simp add: sl_level_def lc)
  have ch: "sl_chain ?h j x xs = sl_chain (heap l) j x xs" for j x xs
    by (rule sl_chain_frame) (simp add: ld)
  have hd: "\<exists>hn. ?h (head l) = Some hn \<and> length (link hn) = max_link l \<and>
                 link_count hn = max_link l"
    using sl_inv_head [OF inv] t by auto
  from inv hd show ?thesis
    unfolding sl_inv_def by (simp add: ok lv ch ky del: fun_upd_apply)
qed

text \<open>A key that is in the list: the entry is replaced, and the cleanup callback is
  applied to what it held, or the list is left as it is.\<close>

lemma skiplist_insert_present:
  assumes inv: "sl_inv l (lo @ t # hi)" and sto: "strict_total_order (cmp_func l)"
    and lo: "\<forall>a \<in> set lo. 0 < cmp_func l ky (sl_key (heap l) a)"
    and hi: "\<forall>a \<in> set hi. cmp_func l ky (sl_key (heap l) a) < 0"
    and t: "sl_key (heap l) t = ky"
  shows "\<exists>l'. skiplist_insert l ky dt ow alloc = Inr (if ow then 0 else 1, l') \<and>
           sl_inv l' (lo @ t # hi) \<and> sl_key (heap l') t = ky \<and>
           sl_datum (heap l') t = (if ow then dt else sl_datum (heap l) t) \<and>
           (\<forall>a. a \<noteq> t \<longrightarrow> sl_key (heap l') a = sl_key (heap l) a \<and>
                            sl_datum (heap l') a = sl_datum (heap l) a) \<and>
           cmp_func l' = cmp_func l \<and> del_func l' = del_func l \<and>
           deleted l' = (if ow \<and> del_func l then deleted l @ [(ky, sl_datum (heap l) t)]
                         else deleted l) \<and>
           count l' = count l \<and> head l' = head l \<and> max_link l' = max_link l"
proof -
  from sl_inv_node [OF inv, of t] obtain tn where tn: "heap l t = Some tn" by auto
  with t have kt: "key tn = ky" by (simp add: sl_key_def)
  have c0: "cmp_func l ky (key tn) = 0" using kt by (simp add: cmp_eq [OF sto])
  have hi': "\<forall>a \<in> set (t # hi). \<not> 0 < cmp_func l ky (sl_key (heap l) a)"
    using hi t c0 kt by auto
  from skip_find_fresh [OF inv lo hi']
  obtain upd where f: "skip_find l ky (top_link l + 1) (head l) (replicate MAX_LINK None) =
      Inr (sl_pred l 0 lo, upd)"
    by blast
  show ?thesis
  proof (cases ow)
    case False
    have "skiplist_insert l ky dt ow alloc = Inr (1, l)"
      using f sl_inv_first_hi [OF inv] tn c0 False by (simp add: skiplist_insert_def)
    with False inv t show ?thesis by simp
  next
    case True
    let ?l' = "l\<lparr>heap := (heap l)(t \<mapsto> tn\<lparr>key := ky, datum := dt\<rparr>),
                  deleted := (if del_func l then deleted l @ [(key tn, datum tn)]
                              else deleted l)\<rparr>"
    have r: "skiplist_insert l ky dt ow alloc = Inr (0, ?l')"
      using f sl_inv_first_hi [OF inv] tn c0 True by (simp add: skiplist_insert_def)
    have "sl_inv ?l' (lo @ t # hi)" using inv tn kt by (rule sl_inv_assign)
    with r True tn kt show ?thesis
      by (intro exI [of _ ?l']) (simp add: sl_key_def sl_datum_def)
  qed
qed

subsection \<open>The effect of remove on a well-formed list\<close>

lemma sl_same_Some:
  "sl_same h h' \<Longrightarrow> h a = Some n \<Longrightarrow>
     \<exists>n'. h' a = Some n' \<and> key n' = key n \<and> datum n' = datum n \<and>
          link_count n' = link_count n \<and> length (link n') = length (link n)"
  unfolding sl_same_def by (auto dest!: spec [of _ a])

lemma skip_unlink_loop:
  assumes dist: "distinct (s # lo @ t # hi)"
    and valid: "\<forall>a \<in> set (s # lo). \<exists>n. h0 a = Some n \<and> length (link n) = link_count n"
    and ulc: "\<forall>k \<le> tp. k < sl_lc h0 (last (s # sl_level h0 k lo))"
    and tn: "h0 t = Some tn0" "length (link tn0) = c" "link_count tn0 = c" "c \<le> tp + 1"
    and upd: "tp < length upd" "\<forall>k \<le> tp. upd ! k = Some (last (s # sl_level h0 k lo))"
    and tpml: "tp < ml"
  shows "c - j = d \<Longrightarrow> j \<le> c \<Longrightarrow> sl_same h0 h \<Longrightarrow>
     (\<forall>k < j. sl_chain h k s (sl_level h0 k lo @ sl_level h0 k hi)) \<Longrightarrow>
     (\<forall>k. j \<le> k \<and> k < ml \<longrightarrow> sl_chain h k s (sl_level h0 k (lo @ t # hi))) \<Longrightarrow>
     \<exists>h'. skip_unlink t [j ..< tp + 1] upd h = Inr h' \<and> sl_same h0 h' \<and>
          (\<forall>k < ml. sl_chain h' k s (sl_level h0 k lo @ sl_level h0 k hi))"
proof (induction d arbitrary: j h)
  case 0
  then have jc: "j = c" by simp
  have lc: "sl_lc h0 t = c" using tn by (simp add: sl_lc_def)
  have lev: "sl_level h0 k (lo @ t # hi) = sl_level h0 k lo @ sl_level h0 k hi" if "c \<le> k" for k
    using that lc by (simp add: sl_level_def)
  have all: "\<forall>k < ml. sl_chain h k s (sl_level h0 k lo @ sl_level h0 k hi)"
  proof (intro allI impI)
    fix k assume k: "k < ml"
    show "sl_chain h k s (sl_level h0 k lo @ sl_level h0 k hi)"
    proof (cases "k < c")
      case True
      with 0 jc show ?thesis by simp
    next
      case False
      then have ck: "c \<le> k" by simp
      with 0(5) jc k have "sl_chain h k s (sl_level h0 k (lo @ t # hi))" by blast
      then show ?thesis unfolding lev [OF ck] .
    qed
  qed
  show ?case
  proof (cases "c \<le> tp")
    case False
    with tn(4) have "c = tp + 1" by simp
    with jc all 0(3) show ?thesis by simp
  next
    case True
    let ?u = "last (s # sl_level h0 c lo)"
    have "?u \<in> set (s # sl_level h0 c lo)" by (rule last_in_set) simp
    then have uin: "?u \<in> set (s # lo)" using sl_level_subset [of h0 c lo] by auto
    with valid obtain un0 where un0: "h0 ?u = Some un0" "length (link un0) = link_count un0"
      by blast
    from ulc True have "c < sl_lc h0 ?u" by blast
    then have ul0: "c < link_count un0" unfolding sl_lc_Some [of h0 ?u un0, OF un0(1)] .
    from sl_same_Some [OF 0(3) un0(1)] obtain un where un: "h ?u = Some un"
      "link_count un = link_count un0" "length (link un) = length (link un0)"
      by blast
    from True tpml all have "sl_chain h c s (sl_level h0 c lo @ sl_level h0 c hi)" by simp
    then have "sl_chain h c ?u (sl_level h0 c hi)" by (rule sl_chain_append)
    then have nx: "load_link h (Some ?u) c =
        Inr (case sl_level h0 c hi of [] \<Rightarrow> None | a # _ \<Rightarrow> Some a)"
      by (rule sl_chain_next)
    let ?nxt = "case sl_level h0 c hi of [] \<Rightarrow> None | a # _ \<Rightarrow> Some a"
    from nx un have gl: "get_link un c = Inr ?nxt" by (simp add: load_link_def)
    have "?nxt \<noteq> Some t"
    proof
      assume "?nxt = Some t"
      then have "t \<in> set (sl_level h0 c hi)" by (cases "sl_level h0 c hi") auto
      then have "t \<in> set hi" using sl_level_subset [of h0 c hi] by auto
      with dist show False by simp
    qed
    have ups: "[c ..< tp + 1] = c # [Suc c ..< tp + 1]"
      using True by (simp add: upt_conv_Cons del: upt_Suc)
    from \<open>?nxt \<noteq> Some t\<close> have "skip_unlink t [c ..< tp + 1] upd h = Inr h"
      unfolding ups using True upd un ul0 gl by (simp add: array_get_def del: upt_Suc)
    with jc all 0(3) show ?thesis by simp
  qed
next
  case (Suc d)
  then have jl: "j < c" by simp
  with tn(4) have jt: "j \<le> tp" by simp
  let ?as = "sl_level h0 j lo" and ?bs = "sl_level h0 j hi"
  let ?u = "last (s # ?as)"
  have sub: "set ?as \<subseteq> set lo" "set ?bs \<subseteq> set hi" by (rule sl_level_subset)+
  have dist': "distinct (s # ?as @ t # ?bs)"
    using dist sub by (auto simp add: sl_level_def)
  have "?u \<in> set (s # ?as)" by (rule last_in_set) simp
  then have uin: "?u \<in> set (s # lo)" using sub by auto
  with dist have ut: "?u \<noteq> t" by auto
  from uin valid obtain un0 where un0: "h0 ?u = Some un0" "length (link un0) = link_count un0"
    by blast
  from ulc jt have "j < sl_lc h0 ?u" by blast
  then have ul0: "j < link_count un0" unfolding sl_lc_Some [of h0 ?u un0, OF un0(1)] .
  from sl_same_Some [OF Suc.prems(3) un0(1)] obtain un where un: "h ?u = Some un"
    "link_count un = link_count un0" "length (link un) = length (link un0)"
    by blast
  from sl_same_Some [OF Suc.prems(3) tn(1)] obtain tn1 where tn1: "h t = Some tn1"
    "length (link tn1) = length (link tn0)"
    by blast
  have lc: "sl_lc h0 t = c" using tn by (simp add: sl_lc_def)
  have lev: "sl_level h0 j (lo @ t # hi) = ?as @ t # ?bs"
    using jl lc by (simp add: sl_level_def)
  from jt tpml have "j \<le> j \<and> j < ml" by simp
  with Suc.prems(5) have "sl_chain h j s (sl_level h0 j (lo @ t # hi))" by blast
  then have ch: "sl_chain h j s (?as @ t # ?bs)" unfolding lev .
  then have "sl_chain h j ?u (t # ?bs)" by (rule sl_chain_append)
  then have nx: "load_link h (Some ?u) j = Inr (Some t)" by simp
  with un have gl: "get_link un j = Inr (Some t)" by (simp add: load_link_def)
  have lt: "load_link h (Some t) j = Inr (link tn1 ! j)"
    using tn1 tn(2) jl by (simp add: load_link_Some)
  let ?h1 = "h(?u \<mapsto> un\<lparr>link := (link un)[j := link tn1 ! j]\<rparr>)"
  have s1: "store_link h (Some ?u) j (link tn1 ! j) = Inr ?h1"
    using un un0(2) ul0 by (simp add: store_link_Some)
  have same1: "sl_same h0 ?h1"
    using Suc.prems(3) sl_same_store_link [OF s1] by (rule sl_same_trans)
  have lu: "load_link ?h1 (Some ?u) j = load_link h (Some t) j"
    using load_link_store_link_same [OF s1] lt by simp
  have lo': "load_link ?h1 (Some a) j = load_link h (Some a) j" if "a \<noteq> ?u" for a
    using load_link_store_link_other [OF s1, of a j] that by simp
  have chj: "sl_chain ?h1 j s (?as @ ?bs)"
    using ch dist' lu lo' by (intro sl_chain_unlink [of h j s ?as t ?bs ?h1]) auto
  have ot: "load_link ?h1 (Some a) k = load_link h (Some a) k" if "k \<noteq> j" for a k
    using load_link_store_link_other [OF s1, of a k] that by simp
  have fr: "sl_chain ?h1 k s as = sl_chain h k s as" if "k \<noteq> j" for k as
    using ot that by (intro sl_chain_frame) simp
  have low: "\<forall>k < Suc j. sl_chain ?h1 k s (sl_level h0 k lo @ sl_level h0 k hi)"
    using Suc.prems(4) chj fr by (auto simp add: less_Suc_eq)
  have high: "\<forall>k. Suc j \<le> k \<and> k < ml \<longrightarrow> sl_chain ?h1 k s (sl_level h0 k (lo @ t # hi))"
    using Suc.prems(5) fr by auto
  from Suc.prems(1) have "c - Suc j = d" by simp
  moreover from jl have "Suc j \<le> c" by simp
  ultimately have "\<exists>h'. skip_unlink t [Suc j ..< tp + 1] upd ?h1 = Inr h' \<and> sl_same h0 h' \<and>
      (\<forall>k < ml. sl_chain h' k s (sl_level h0 k lo @ sl_level h0 k hi))"
    using same1 low high by (rule Suc.IH)
  then obtain h' where r: "skip_unlink t [Suc j ..< tp + 1] upd ?h1 = Inr h'"
    and "sl_same h0 h'"
    and "\<forall>k < ml. sl_chain h' k s (sl_level h0 k lo @ sl_level h0 k hi)"
    by blast
  moreover have "skip_unlink t [j ..< tp + 1] upd h = Inr h'"
  proof -
    have ups: "[j ..< tp + 1] = j # [Suc j ..< tp + 1]"
      using jt by (simp add: upt_conv_Cons del: upt_Suc)
    show ?thesis
      unfolding ups using jt upd un un0 ul0 gl lt s1 r by (simp add: array_get_def del: upt_Suc)
  qed
  ultimately show ?case by blast
qed

lemma skip_shrink_ok:
  "\<forall>k \<le> tp. sl_chain h k hd_a (sl_level h0 k ns) \<Longrightarrow>
     \<exists>t'. skip_shrink h hd_a tp = Inr t' \<and> t' \<le> tp \<and>
          (\<forall>k. t' < k \<and> k \<le> tp \<longrightarrow> sl_level h0 k ns = [])"
proof (induction tp)
  case 0
  show ?case by simp
next
  case (Suc tp)
  from Suc.prems have "sl_chain h (Suc tp) hd_a (sl_level h0 (Suc tp) ns)" by simp
  then have nx: "load_link h (Some hd_a) (Suc tp) =
      Inr (case sl_level h0 (Suc tp) ns of [] \<Rightarrow> None | a # _ \<Rightarrow> Some a)"
    by (rule sl_chain_next)
  show ?case
  proof (cases "sl_level h0 (Suc tp) ns")
    case Nil
    from Suc.prems have "\<forall>k \<le> tp. sl_chain h k hd_a (sl_level h0 k ns)" by simp
    from Suc.IH [OF this] obtain t' where t': "skip_shrink h hd_a tp = Inr t'" "t' \<le> tp"
      "\<forall>k. t' < k \<and> k \<le> tp \<longrightarrow> sl_level h0 k ns = []"
      by blast
    have "\<forall>k. t' < k \<and> k \<le> Suc tp \<longrightarrow> sl_level h0 k ns = []"
      using t'(3) Nil by (auto simp add: le_Suc_eq)
    with t' nx Nil show ?thesis by simp
  next
    case (Cons a as)
    with nx show ?thesis by auto
  qed
qed

lemma skiplist_remove_absent:
  assumes inv: "sl_inv l (lo @ hi)"
    and lo: "\<forall>a \<in> set lo. 0 < cmp_func l ky (sl_key (heap l) a)"
    and hi: "\<forall>a \<in> set hi. cmp_func l ky (sl_key (heap l) a) < 0"
  shows "skiplist_remove l ky = Inr (False, l)"
proof -
  have hi': "\<forall>a \<in> set hi. \<not> 0 < cmp_func l ky (sl_key (heap l) a)" using hi by auto
  from skip_find_fresh [OF inv lo hi']
  obtain upd where f: "skip_find l ky (top_link l + 1) (head l) (replicate MAX_LINK None) =
      Inr (sl_pred l 0 lo, upd)"
    by blast
  show ?thesis
  proof (cases hi)
    case Nil
    with f sl_inv_first_hi [OF inv] show ?thesis by (simp add: skiplist_remove_def)
  next
    case (Cons a hi')
    with inv sl_inv_node [OF inv, of a] obtain an where an: "heap l a = Some an" by auto
    with hi Cons have "cmp_func l ky (key an) < 0" by (simp add: sl_key_def)
    with f sl_inv_first_hi [OF inv] Cons an show ?thesis by (simp add: skiplist_remove_def)
  qed
qed

lemma skiplist_remove_present:
  assumes inv: "sl_inv l (lo @ t # hi)" and sto: "strict_total_order (cmp_func l)"
    and lo: "\<forall>a \<in> set lo. 0 < cmp_func l ky (sl_key (heap l) a)"
    and hi: "\<forall>a \<in> set hi. cmp_func l ky (sl_key (heap l) a) < 0"
    and t: "sl_key (heap l) t = ky"
  shows "\<exists>l'. skiplist_remove l ky = Inr (True, l') \<and> sl_inv l' (lo @ hi) \<and>
           (\<forall>a. a \<noteq> t \<longrightarrow> sl_key (heap l') a = sl_key (heap l) a \<and>
                            sl_datum (heap l') a = sl_datum (heap l) a) \<and>
           cmp_func l' = cmp_func l \<and> del_func l' = del_func l \<and>
           deleted l' = (if del_func l then deleted l @ [(ky, sl_datum (heap l) t)]
                         else deleted l) \<and>
           count l' = count l - 1 \<and> head l' = head l \<and> max_link l' = max_link l"
proof -
  from sl_inv_node [OF inv, of t] obtain tn where tn: "heap l t = Some tn"
    and tl: "length (link tn) = link_count tn" and tc: "link_count tn \<le> top_link l + 1"
    by auto
  with t have kt: "key tn = ky" by (simp add: sl_key_def)
  have c0: "cmp_func l ky (key tn) = 0" using kt by (simp add: cmp_eq [OF sto])
  have hi': "\<forall>a \<in> set (t # hi). \<not> 0 < cmp_func l ky (sl_key (heap l) a)"
    using hi t c0 kt by auto
  from skip_find_fresh [OF inv lo hi']
  obtain upd where f: "skip_find l ky (top_link l + 1) (head l) (replicate MAX_LINK None) =
      Inr (sl_pred l 0 lo, upd)" and u: "sl_update l lo upd"
    by blast
  from inv have mlM: "max_link l \<le> MAX_LINK" and tpm: "top_link l < max_link l"
    and dist: "distinct (head l # lo @ t # hi)"
    by (simp_all add: sl_inv_def)
  from u have lupd: "length upd = MAX_LINK"
    and updk: "\<And>k. k \<le> top_link l \<Longrightarrow> upd ! k = Some (sl_pred l k lo)"
    using tpm mlM by (simp_all add: sl_update_def)
  have valid: "\<forall>a \<in> set (head l # lo). \<exists>n. heap l a = Some n \<and> length (link n) = link_count n"
  proof
    fix a assume a: "a \<in> set (head l # lo)"
    with sl_inv_head [OF inv] sl_inv_node [OF inv, of a]
    show "\<exists>n. heap l a = Some n \<and> length (link n) = link_count n" by auto
  qed
  have ulc: "\<forall>k \<le> top_link l. k < sl_lc (heap l) (last (head l # sl_level (heap l) k lo))"
    using sl_pred_lc [OF inv] tpm by (simp add: sl_pred_def del: last.simps)
  have updv: "\<forall>k \<le> top_link l. upd ! k = Some (last (head l # sl_level (heap l) k lo))"
    using updk by (simp add: sl_pred_def del: last.simps)
  have tlu: "top_link l < length upd" using lupd tpm mlM by simp
  have ch0: "\<forall>k. 0 \<le> k \<and> k < max_link l \<longrightarrow>
               sl_chain (heap l) k (head l) (sl_level (heap l) k (lo @ t # hi))"
    using sl_inv_chain [OF inv] by simp
  from skip_unlink_loop [OF dist valid ulc tn tl refl tc tlu updv tpm refl _ sl_same_refl _ ch0]
  obtain h1 where un: "skip_unlink t [0 ..< top_link l + 1] upd (heap l) = Inr h1"
    and same1: "sl_same (heap l) h1"
    and ch1: "\<And>k. k < max_link l \<Longrightarrow>
                sl_chain h1 k (head l) (sl_level (heap l) k lo @ sl_level (heap l) k hi)"
    by auto
  from sl_same_Some [OF same1 tn] obtain tn1 where tn1: "h1 t = Some tn1"
    "key tn1 = key tn" "datum tn1 = datum tn"
    by blast
  define h2 where "h2 = h1(t := None)"
  have ld2: "load_link h2 (Some a) k = load_link h1 (Some a) k" if "a \<noteq> t" for a k
    using that by (simp add: h2_def load_link_def deref_def)
  have ch2: "sl_chain h2 k (head l) (sl_level (heap l) k (lo @ hi))" if "k < max_link l" for k
  proof -
    have "sl_chain h2 k (head l) (sl_level (heap l) k (lo @ hi)) =
          sl_chain h1 k (head l) (sl_level (heap l) k (lo @ hi))"
    proof (rule sl_chain_frame, rule ballI)
      fix a assume "a \<in> set (head l # sl_level (heap l) k (lo @ hi))"
      then have "a \<in> set (head l # lo @ hi)" using sl_level_subset [of "heap l" k "lo @ hi"] by auto
      with dist have "a \<noteq> t" by auto
      then show "load_link h2 (Some a) k = load_link h1 (Some a) k" by (rule ld2)
    qed
    with ch1 [OF that] show ?thesis by (simp add: sl_level_append)
  qed
  have "\<forall>k \<le> top_link l. sl_chain h2 k (head l) (sl_level (heap l) k (lo @ hi))"
    using ch2 tpm by simp
  from skip_shrink_ok [OF this]
  obtain t' where sh: "skip_shrink h2 (head l) (top_link l) = Inr t'" and t'le: "t' \<le> top_link l"
    and empty: "\<And>k. t' < k \<Longrightarrow> k \<le> top_link l \<Longrightarrow> sl_level (heap l) k (lo @ hi) = []"
    by blast
  define l' where "l' = l\<lparr>heap := h2, top_link := t', count := count l - 1,
      deleted := (if del_func l then deleted l @ [(key tn1, datum tn1)] else deleted l)\<rparr>"
  have res: "skiplist_remove l ky = Inr (True, l')"
    using f sl_inv_first_hi [OF inv] tn c0 un tn1 sh
    by (simp add: skiplist_remove_def Let_def h2_def l'_def)
  have lc2: "sl_lc h2 a = sl_lc (heap l) a" if "a \<noteq> t" for a
    using that sl_same_lc [OF same1, of a] by (simp add: h2_def sl_lc_def)
  have key2: "sl_key h2 a = sl_key (heap l) a" if "a \<noteq> t" for a
    using that sl_same_key [OF same1, of a] by (simp add: h2_def sl_key_def)
  have dat2: "sl_datum h2 a = sl_datum (heap l) a" if "a \<noteq> t" for a
    using that sl_same_datum [OF same1, of a] by (simp add: h2_def sl_datum_def)
  have nt: "a \<noteq> t" if "a \<in> set (head l # lo @ hi)" for a using that dist by auto
  have hd2: "\<exists>hn. h2 (head l) = Some hn \<and> length (link hn) = max_link l \<and>
                  link_count hn = max_link l"
  proof -
    from sl_inv_head [OF inv] obtain hn where hn: "heap l (head l) = Some hn"
      "length (link hn) = max_link l" "link_count hn = max_link l"
      by auto
    from sl_same_Some [OF same1 hn(1)] hn nt [of "head l"] show ?thesis
      by (auto simp add: h2_def)
  qed
  have ok2: "sl_node_ok h2 t' a" if a: "a \<in> set (lo @ hi)" for a
  proof -
    from a have at: "a \<noteq> t" using nt [of a] by simp
    from sl_inv_node [OF inv, of a] a obtain n where n: "heap l a = Some n"
      "length (link n) = link_count n" "1 \<le> link_count n" "link_count n \<le> top_link l + 1"
      by auto
    from sl_same_Some [OF same1 n(1)] obtain n' where n': "h1 a = Some n'"
      "link_count n' = link_count n" "length (link n') = length (link n)"
      by blast
    have "link_count n \<le> t' + 1"
    proof (rule ccontr)
      assume "\<not> link_count n \<le> t' + 1"
      then have lt: "t' + 1 < link_count n" by simp
      with n(4) have "t' < t' + 1" "t' + 1 \<le> top_link l" by simp_all
      then have "sl_level (heap l) (t' + 1) (lo @ hi) = []" by (rule empty)
      moreover have "a \<in> set (sl_level (heap l) (t' + 1) (lo @ hi))"
        unfolding sl_level_mem using a lt n(1) by (simp add: sl_lc_def)
      ultimately show False by simp
    qed
    with n n' at show ?thesis by (simp add: sl_node_ok_def h2_def)
  qed
  have lev2: "sl_level h2 k (lo @ hi) = sl_level (heap l) k (lo @ hi)" for k
    unfolding sl_level_def by (rule filter_cong) (auto simp add: lc2 nt)
  from inv have srt: "sorted_wrt (\<lambda>a b. cmp_func l (sl_key (heap l) a) (sl_key (heap l) b) < 0)
                       (lo @ t # hi)"
    by (simp add: sl_inv_def)
  then have "sorted_wrt (\<lambda>a b. cmp_func l (sl_key (heap l) a) (sl_key (heap l) b) < 0) (lo @ hi)"
    by (auto simp add: sorted_wrt_append)
  then have srt2: "sorted_wrt (\<lambda>a b. cmp_func l (sl_key h2 a) (sl_key h2 b) < 0) (lo @ hi)"
    by (rule sl_sorted_cong) (simp add: key2 nt)
  have "sl_inv l' (lo @ hi)"
    unfolding sl_inv_def using dist hd2 t'le tpm mlM ok2 ch2 srt2
    by (simp add: l'_def lev2)
  moreover have "\<forall>a. a \<noteq> t \<longrightarrow> sl_key (heap l') a = sl_key (heap l) a \<and>
                            sl_datum (heap l') a = sl_datum (heap l) a"
    by (simp add: l'_def key2 dat2)
  moreover have "cmp_func l' = cmp_func l" "del_func l' = del_func l"
    "deleted l' = (if del_func l then deleted l @ [(ky, sl_datum (heap l) t)] else deleted l)"
    "count l' = count l - 1" "head l' = head l" "max_link l' = max_link l"
    using tn tn1 kt by (simp_all add: l'_def sl_datum_def)
  ultimately show ?thesis using res by blast
qed

subsection \<open>Traversal\<close>

lemma visit_entries_shift:
  "visit_entries visit es m s =
     (m + fst (visit_entries visit es 0 s), snd (visit_entries visit es 0 s))"
proof (induction es arbitrary: m s)
  case Nil
  show ?case by simp
next
  case (Cons e es)
  obtain k d where e: "e = (k, d)" by (cases e)
  obtain go s' where v: "visit s k d = (go, s')" by (cases "visit s k d")
  show ?case
    using Cons.IH [of "m + 1" s'] Cons.IH [of 1 s'] by (simp add: e v)
qed

lemma skip_visit_chain_entries:
  "sl_chain h 0 x as \<Longrightarrow>
     skip_visit_chain h visit (case as of [] \<Rightarrow> None | a # _ \<Rightarrow> Some a) n s =
       Some (Inr (n + of_nat (fst (visit_entries visit (sl_entries h as) 0 s)),
                  snd (visit_entries visit (sl_entries h as) 0 s)))"
proof (induction as arbitrary: x n s)
  case Nil
  show ?case by (simp add: skip_visit_chain.simps sl_entries_def)
next
  case (Cons a as)
  then have ch: "sl_chain h 0 a as" by simp
  then have nx: "load_link h (Some a) 0 = Inr (case as of [] \<Rightarrow> None | b # _ \<Rightarrow> Some b)"
    by (rule sl_chain_next)
  from load_link_InrD [OF nx] obtain an where an: "h a = Some an"
    and gl: "get_link an 0 = Inr (case as of [] \<Rightarrow> None | b # _ \<Rightarrow> Some b)"
    using nx by (auto simp add: load_link_def)
  obtain go s' where v: "visit s (key an) (datum an) = (go, s')"
    by (cases "visit s (key an) (datum an)")
  have e: "sl_entries h (a # as) = (key an, datum an) # sl_entries h as"
    using an by (simp add: sl_entries_def sl_key_def sl_datum_def)
  show ?case
  proof (cases go)
    case False
    with an v show ?thesis by (simp add: skip_visit_chain.simps [of h visit "Some a"] e)
  next
    case True
    have sh: "visit_entries visit (sl_entries h as) (Suc 0) s' =
        (Suc (fst (visit_entries visit (sl_entries h as) 0 s')),
         snd (visit_entries visit (sl_entries h as) 0 s'))"
      using visit_entries_shift [of visit "sl_entries h as" "Suc 0" s'] by simp
    from True an v gl Cons.IH [OF ch, of "n + 1" s'] show ?thesis
      by (simp add: skip_visit_chain.simps [of h visit "Some a"] e sh add.assoc)
  qed
qed

lemma skiplist_traverse_entries:
  assumes inv: "sl_inv l ns"
  shows "skiplist_traverse l (Some visit) s =
           Inr (of_nat (fst (visit_entries visit (sl_entries (heap l) ns) 0 s)),
                snd (visit_entries visit (sl_entries (heap l) ns) 0 s))"
proof -
  from inv have "0 < max_link l" by (simp add: sl_inv_def)
  from sl_inv_chain [OF inv this] sl_inv_level0 [OF inv, of ns]
  have ch: "sl_chain (heap l) 0 (head l) ns" by simp
  then have "load_link (heap l) (Some (head l)) 0 = Inr (case ns of [] \<Rightarrow> None | a # _ \<Rightarrow> Some a)"
    by (rule sl_chain_next)
  with skip_visit_chain_entries [OF ch, of visit 0 s] show ?thesis
    by (simp add: skiplist_traverse_def)
qed

lemma hb_leftmost_Node:
  "n \<noteq> Null \<Longrightarrow> \<exists>l k d b r ps'. hb_leftmost n ps = (Node l k d b r, ps')"
  by (induction n ps rule: hb_leftmost.induct) simp_all

lemma hb_up_from_right_Node:
  "hb_up_from_right n ps = Some p \<Longrightarrow> \<exists>l k d b r ps'. p = (Node l k d b r, ps')"
  by (induction n ps rule: hb_up_from_right.induct) (auto split: if_splits)

lemma hb_traverse_loop_entries:
  "(\<forall>ps. p \<noteq> Some (Null, ps)) \<Longrightarrow>
     hb_traverse_loop visit p n s =
       Inr (n + of_nat (fst (visit_entries visit (hb_entries_from p) 0 s)),
            snd (visit_entries visit (hb_entries_from p) 0 s))"
proof (induction visit p n s rule: hb_traverse_loop.induct)
  case (1 visit n s)
  show ?case by simp
next
  case (2 visit ps n s)
  then show ?case by simp
next
  case (3 visit l k d b r ps n s)
  obtain go s' where v: "visit s k d = (go, s')" by (cases "visit s k d")
  show ?case
  proof (cases go)
    case False
    with v show ?thesis by simp
  next
    case True
    obtain p' where nx: "hb_node_next (Node l k d b r, ps) = Inr p'"
      by (cases "r = Null") (auto simp add: hb_node_next_def)
    have wf: "\<forall>qs. p' \<noteq> Some (Null, qs)"
    proof (cases "r = Null")
      case True
      with nx have "hb_up_from_right (Node l k d b r) ps = p'" by (simp add: hb_node_next_def)
      with hb_up_from_right_Node [of "Node l k d b r" ps] show ?thesis by (cases p') auto
    next
      case False
      with nx hb_leftmost_Node [OF False, of "Parent False k d b l # ps"] show ?thesis
        by (auto simp add: hb_node_next_def)
    qed
    have es: "hb_entries_from p' = hb_entries r @ hb_entries_after ps"
      using nx by (rule hb_entries_from_node_next)
    have sh: "visit_entries visit (hb_entries_from p') (Suc 0) s' =
        (Suc (fst (visit_entries visit (hb_entries_from p') 0 s')),
         snd (visit_entries visit (hb_entries_from p') 0 s'))"
      using visit_entries_shift [of visit "hb_entries_from p'" "Suc 0" s'] by simp
    from "3.IH" [OF v [symmetric] _ nx wf] True
    have "hb_traverse_loop visit p' (n + 1) s' =
       Inr (n + 1 + of_nat (fst (visit_entries visit (hb_entries_from p') 0 s')),
            snd (visit_entries visit (hb_entries_from p') 0 s'))"
      by simp
    with True v nx sh es show ?thesis by (simp add: add.assoc)
  qed
qed

lemma hb_tree_traverse_entries:
  "hb_tree_traverse t (Some visit) s =
     Inr (of_nat (fst (visit_entries visit (hb_entries (root t)) 0 s)),
          snd (visit_entries visit (hb_entries (root t)) 0 s))"
proof (cases "root t = Null")
  case True
  then show ?thesis by (simp add: hb_tree_traverse_def)
next
  case False
  then obtain l k d b r ps' where lm: "hb_leftmost (root t) [] = (Node l k d b r, ps')"
    using hb_leftmost_Node [of "root t" "[]"] by blast
  have mn: "hb_node_min (root t, []) = Inr (hb_leftmost (root t) [])"
    using False by (cases "root t") (simp_all add: hb_node_min_def)
  have es: "hb_entries_from (Some (hb_leftmost (root t) [])) = hb_entries (root t)"
    by (simp add: hb_entries_from_leftmost)
  have wf: "\<forall>ps. Some (hb_leftmost (root t) []) \<noteq> Some (Null, ps)" using lm by simp
  from hb_traverse_loop_entries [OF wf, of visit 0 s] mn False show ?thesis
    unfolding es by (simp add: hb_tree_traverse_def)
qed

section \<open>Search, and the lists and trees that the operations build\<close>

lemma hb_search_present:
  assumes sto: "strict_total_order c"
  shows "hb_bst c t \<Longrightarrow> (ky, d) \<in> set (hb_entries t) \<Longrightarrow> hb_search_node c ky t = d"
proof (induction t)
  case Null
  then show ?case by simp
next
  case (Node l k d' b r)
  from Node.prems(2) consider "(ky, d) \<in> set (hb_entries l)" | "ky = k \<and> d = d'"
    | "(ky, d) \<in> set (hb_entries r)"
    by auto
  then show ?case
  proof cases
    case 1
    then have "ky \<in> hb_keys l" by (force simp add: hb_keys_entries)
    with Node.prems(1) have "c ky k < 0" by simp
    with Node 1 show ?thesis by simp
  next
    case 2
    then have "\<not> c ky k < 0" "\<not> 0 < c ky k"
      using cmp_irrefl [OF sto, of k] by (simp_all add: cmp_flip [OF sto])
    with 2 show ?thesis by simp
  next
    case 3
    then have "ky \<in> hb_keys r" by (force simp add: hb_keys_entries)
    with Node.prems(1) have lt: "c k ky < 0" by simp
    then have "0 < c ky k" by (simp add: cmp_flip [OF sto])
    moreover from lt have "\<not> c ky k < 0" by (rule cmp_asym [OF sto])
    ultimately show ?thesis using Node 3 by simp
  qed
qed

lemma hb_search_absent:
  assumes sto: "strict_total_order c"
  shows "ky \<notin> hb_keys t \<Longrightarrow> hb_search_node c ky t = None"
proof (induction t)
  case Null
  show ?case by simp
next
  case (Node l k d b r)
  then have "ky \<noteq> k" by simp
  then have "c ky k \<noteq> 0" by (simp add: cmp_eq [OF sto])
  with Node show ?case by simp
qed

lemma hb_sorted_distinct:
  assumes sto: "strict_total_order c"
  shows "hb_sorted c es \<Longrightarrow> distinct (map fst es)"
  unfolding hb_sorted_def
proof (induction es)
  case Nil
  show ?case by simp
next
  case (Cons e es)
  then show ?case using cmp_irrefl [OF sto] by auto
qed

subsection \<open>The lists that insert and remove build\<close>

lemma sl_inv_randgen: "sl_inv l ns \<Longrightarrow> sl_inv (l\<lparr>randgen := r\<rparr>) ns"
  by (simp add: sl_inv_def)

lemma node_insert_no_memory:
  "2 \<le> max_link l \<Longrightarrow>
     node_insert l ky dt upd None = Inr (None, l\<lparr>randgen := randgen l * RGEN_A + RGEN_M\<rparr>)"
  using rand_link_count_upper [of l] rand_link_count_lower [of l]
  by (simp add: node_insert_def node_new_def rand_link_count_def Let_def)

lemma skiplist_insert_no_memory:
  assumes inv: "sl_inv l (lo @ hi)"
    and lo: "\<forall>a \<in> set lo. 0 < cmp_func l ky (sl_key (heap l) a)"
    and hi: "\<forall>a \<in> set hi. cmp_func l ky (sl_key (heap l) a) < 0"
    and ml: "2 \<le> max_link l"
  shows "skiplist_insert l ky dt ow None =
           Inr (- 1, l\<lparr>randgen := randgen l * RGEN_A + RGEN_M\<rparr>)"
proof -
  have hi': "\<forall>a \<in> set hi. \<not> 0 < cmp_func l ky (sl_key (heap l) a)" using hi by auto
  from skip_find_fresh [OF inv lo hi']
  obtain upd where f: "skip_find l ky (top_link l + 1) (head l) (replicate MAX_LINK None) =
      Inr (sl_pred l 0 lo, upd)"
    by blast
  note n = node_insert_no_memory [OF ml, of ky dt upd]
  show ?thesis
  proof (cases hi)
    case Nil
    with f sl_inv_first_hi [OF inv] n show ?thesis by (simp add: skiplist_insert_def)
  next
    case (Cons a hi')
    with inv sl_inv_node [OF inv, of a] obtain an where an: "heap l a = Some an" by auto
    with hi Cons have "cmp_func l ky (key an) < 0" by (simp add: sl_key_def)
    with f sl_inv_first_hi [OF inv] n Cons an show ?thesis by (simp add: skiplist_insert_def)
  qed
qed

lemma skiplist_insert_one_level:
  assumes inv: "sl_inv l (lo @ hi)"
    and lo: "\<forall>a \<in> set lo. 0 < cmp_func l ky (sl_key (heap l) a)"
    and hi: "\<forall>a \<in> set hi. cmp_func l ky (sl_key (heap l) a) < 0"
    and ml: "\<not> 2 \<le> max_link l"
  shows "skiplist_insert l ky dt ow alloc = Inl AssertFailed"
proof -
  from inv ml have m1: "max_link l = 1" by (simp add: sl_inv_def)
  have hi': "\<forall>a \<in> set hi. \<not> 0 < cmp_func l ky (sl_key (heap l) a)" using hi by auto
  from skip_find_fresh [OF inv lo hi']
  obtain upd where f: "skip_find l ky (top_link l + 1) (head l) (replicate MAX_LINK None) =
      Inr (sl_pred l 0 lo, upd)"
    by blast
  note n = node_insert_max_link_one [OF m1, of ky dt upd alloc]
  show ?thesis
  proof (cases hi)
    case Nil
    with f sl_inv_first_hi [OF inv] n show ?thesis by (simp add: skiplist_insert_def)
  next
    case (Cons a hi')
    with inv sl_inv_node [OF inv, of a] obtain an where an: "heap l a = Some an" by auto
    with hi Cons have "cmp_func l ky (key an) < 0" by (simp add: sl_key_def)
    with f sl_inv_first_hi [OF inv] n Cons an show ?thesis by (simp add: skiplist_insert_def)
  qed
qed

lemma sl_split:
  assumes inv: "sl_inv l ns" and sto: "strict_total_order (cmp_func l)"
  shows "\<exists>lo hi. (\<forall>a \<in> set lo. 0 < cmp_func l ky (sl_key (heap l) a)) \<and>
                 (\<forall>a \<in> set hi. cmp_func l ky (sl_key (heap l) a) < 0) \<and>
                 (ns = lo @ hi \<or> (\<exists>t. ns = lo @ t # hi \<and> sl_key (heap l) t = ky))"
proof -
  from inv have "sorted_wrt (\<lambda>a b. cmp_func l (sl_key (heap l) a) (sl_key (heap l) b) < 0) ns"
    by (simp add: sl_inv_def)
  from sl_split_key [OF sto this, of ky] show ?thesis .
qed

lemma skiplist_insert_inv:
  assumes inv: "sl_inv l ns" and sto: "strict_total_order (cmp_func l)"
    and ml: "2 \<le> max_link l" and fresh: "\<forall>x. alloc = Some x \<longrightarrow> heap l x = None"
  shows "\<exists>rc l' ns'. skiplist_insert l ky dt ow alloc = Inr (rc, l') \<and> sl_inv l' ns' \<and>
           cmp_func l' = cmp_func l \<and> max_link l' = max_link l"
proof -
  from sl_split [OF inv sto, of ky]
  obtain lo hi where lo: "\<forall>a \<in> set lo. 0 < cmp_func l ky (sl_key (heap l) a)"
    and hi: "\<forall>a \<in> set hi. cmp_func l ky (sl_key (heap l) a) < 0"
    and sp: "ns = lo @ hi \<or> (\<exists>t. ns = lo @ t # hi \<and> sl_key (heap l) t = ky)"
    by blast
  from sp show ?thesis
  proof
    assume ns: "ns = lo @ hi"
    show ?thesis
    proof (cases alloc)
      case None
      from skiplist_insert_no_memory [OF inv [unfolded ns] lo hi ml, of dt ow]
        sl_inv_randgen [OF inv, of "randgen l * RGEN_A + RGEN_M"] None
      show ?thesis by auto
    next
      case (Some x)
      with fresh have "heap l x = None" by simp
      from skiplist_insert_absent [OF inv [unfolded ns] sto lo hi this ml, of dt ow] Some
      show ?thesis by blast
    qed
  next
    assume "\<exists>t. ns = lo @ t # hi \<and> sl_key (heap l) t = ky"
    then obtain t where ns: "ns = lo @ t # hi" and t: "sl_key (heap l) t = ky" by blast
    from skiplist_insert_present [OF inv [unfolded ns] sto lo hi t, of dt ow alloc]
    show ?thesis by blast
  qed
qed

lemma skiplist_remove_inv:
  assumes inv: "sl_inv l ns" and sto: "strict_total_order (cmp_func l)"
  shows "\<exists>rc l' ns'. skiplist_remove l ky = Inr (rc, l') \<and> sl_inv l' ns' \<and>
           cmp_func l' = cmp_func l \<and> max_link l' = max_link l"
proof -
  from sl_split [OF inv sto, of ky]
  obtain lo hi where lo: "\<forall>a \<in> set lo. 0 < cmp_func l ky (sl_key (heap l) a)"
    and hi: "\<forall>a \<in> set hi. cmp_func l ky (sl_key (heap l) a) < 0"
    and sp: "ns = lo @ hi \<or> (\<exists>t. ns = lo @ t # hi \<and> sl_key (heap l) t = ky)"
    by blast
  from sp show ?thesis
  proof
    assume ns: "ns = lo @ hi"
    from skiplist_remove_absent [OF inv [unfolded ns] lo hi] inv show ?thesis by blast
  next
    assume "\<exists>t. ns = lo @ t # hi \<and> sl_key (heap l) t = ky"
    then obtain t where ns: "ns = lo @ t # hi" and t: "sl_key (heap l) t = ky" by blast
    from skiplist_remove_present [OF inv [unfolded ns] sto lo hi t]
    show ?thesis by blast
  qed
qed

lemma sl_run_inv:
  "sl_inv l ns \<Longrightarrow> strict_total_order (cmp_func l) \<Longrightarrow> 2 \<le> max_link l \<Longrightarrow> sl_fresh l xs \<Longrightarrow>
     \<exists>l' ns'. sl_run l xs = Inr l' \<and> sl_inv l' ns' \<and> cmp_func l' = cmp_func l"
proof (induction xs arbitrary: l ns)
  case Nil
  then show ?case by auto
next
  case (Cons x xs)
  have "\<exists>l1 ns1. sl_apply l x = Inr l1 \<and> sl_inv l1 ns1 \<and> cmp_func l1 = cmp_func l \<and>
          max_link l1 = max_link l"
  proof (cases x)
    case (SlInsert ky dt ow alloc)
    with Cons.prems(4) have "\<forall>a. alloc = Some a \<longrightarrow> heap l a = None" by auto
    from skiplist_insert_inv [OF Cons.prems(1,2,3) this, of ky dt ow] SlInsert
    show ?thesis by auto
  next
    case (SlRemove ky)
    from skiplist_remove_inv [OF Cons.prems(1,2), of ky] SlRemove show ?thesis by auto
  qed
  then obtain l1 ns1 where a: "sl_apply l x = Inr l1" and i: "sl_inv l1 ns1"
    and c: "cmp_func l1 = cmp_func l" and m: "max_link l1 = max_link l"
    by blast
  from Cons.prems(4) a have f: "sl_fresh l1 xs" by simp
  from Cons.IH [OF i _ _ f] Cons.prems(2,3) c m a show ?case by auto
qed

lemma skiplist_new_inv:
  "skiplist_new dpc cmp del ml al ah seed = Inr (Some l) \<Longrightarrow> sl_inv l []"
  by (auto simp add: skiplist_new_def node_new_def Let_def sl_inv_def sl_level_def load_link_def
      deref_def get_link_def MAX_LINK_def split: if_splits option.splits)

section \<open>Insert, search and remove together\<close>

subsection \<open>The tree\<close>

lemma hb_between_distinct:
  assumes sto: "strict_total_order c"
    and B: "\<forall>x \<in> set B. c (fst x) ky < 0" and A: "\<forall>x \<in> set A. c ky (fst x) < 0"
  shows "\<forall>x \<in> set (B @ A). fst x \<noteq> ky"
  using B A cmp_irrefl [OF sto, of ky] by auto

lemma hb_insert_success:
  assumes inv: "hb_inv t" and sto: "strict_total_order (hb_cmp_func t)"
    and ins: "hb_tree_insert t ky dt ow alloc = Inr (0, t')"
  shows "hb_tree_search t' ky = dt"
proof -
  from hb_tree_insert_inv [OF inv sto, where ky = ky and dt = dt and ow = ow and alloc = alloc] ins
  have inv': "hb_inv t'" and c: "hb_cmp_func t' = hb_cmp_func t" by auto
  from hb_tree_insert_effect [OF inv sto,
      where ky = ky and dt = dt and ow = ow and alloc = alloc] ins
  have "(ky, dt) \<in> set (hb_entries (root t'))"
    by (auto split: if_splits)
  with inv' sto c show ?thesis
    unfolding hb_tree_search_def hb_inv_def by (intro hb_search_present) simp_all
qed

lemma hb_overwrite_present:
  assumes inv: "hb_inv t" and sto: "strict_total_order (hb_cmp_func t)"
    and mem: "(ky, d) \<in> set (hb_entries (root t))"
  shows "\<exists>t'. hb_tree_insert t ky dt True alloc = Inr (0, t') \<and> hb_tree_search t' ky = dt \<and>
           hb_deleted t' = (if hb_del_func t then hb_deleted t @ [(ky, d)] else hb_deleted t)"
proof -
  from hb_tree_insert_effect [OF inv sto, where ky = ky and dt = dt and ow = True and alloc = alloc]
  obtain B A where B: "\<forall>x \<in> set B. hb_cmp_func t (fst x) ky < 0"
    and A: "\<forall>x \<in> set A. hb_cmp_func t ky (fst x) < 0"
    and cs: "(hb_entries (root t) = B @ A \<and>
       (if alloc
        then \<exists>r. hb_tree_insert t ky dt True alloc =
                    Inr (0, t\<lparr>root := r, hb_count := hb_count t + 1\<rparr>) \<and>
                  hb_avl r \<and> hb_entries r = B @ (ky, dt) # A
        else hb_tree_insert t ky dt True alloc = Inr (- 1, t))) \<or>
      (\<exists>d'. hb_entries (root t) = B @ (ky, d') # A \<and>
       (\<exists>r. hb_tree_insert t ky dt True alloc =
                    Inr (0, t\<lparr>root := r,
                                hb_deleted := (if hb_del_func t then hb_deleted t @ [(ky, d')]
                                               else hb_deleted t)\<rparr>) \<and>
                  hb_avl r \<and> hb_entries r = B @ (ky, dt) # A))"
    by auto
  note ne = hb_between_distinct [OF sto B A]
  from cs show ?thesis
  proof
    assume "hb_entries (root t) = B @ A \<and>
       (if alloc
        then \<exists>r. hb_tree_insert t ky dt True alloc =
                    Inr (0, t\<lparr>root := r, hb_count := hb_count t + 1\<rparr>) \<and>
                  hb_avl r \<and> hb_entries r = B @ (ky, dt) # A
        else hb_tree_insert t ky dt True alloc = Inr (- 1, t))"
    with mem ne show ?thesis by force
  next
    assume "\<exists>d'. hb_entries (root t) = B @ (ky, d') # A \<and>
       (\<exists>r. hb_tree_insert t ky dt True alloc =
                    Inr (0, t\<lparr>root := r,
                                hb_deleted := (if hb_del_func t then hb_deleted t @ [(ky, d')]
                                               else hb_deleted t)\<rparr>) \<and>
                  hb_avl r \<and> hb_entries r = B @ (ky, dt) # A)"
    then obtain d' r where es: "hb_entries (root t) = B @ (ky, d') # A"
      and r: "hb_tree_insert t ky dt True alloc =
                Inr (0, t\<lparr>root := r,
                            hb_deleted := (if hb_del_func t then hb_deleted t @ [(ky, d')]
                                           else hb_deleted t)\<rparr>)"
      by blast
    from mem es ne have "d' = d" by force
    with r hb_insert_success [OF inv sto r] show ?thesis by simp
  qed
qed

lemma hb_remove_success:
  assumes inv: "hb_inv t" and sto: "strict_total_order (hb_cmp_func t)"
    and rm: "hb_tree_remove t ky = Inr (True, t')"
  shows "hb_tree_search t' ky = None"
proof -
  from hb_tree_remove_effect [OF inv sto, where ky = ky] rm
  obtain B d A r where es: "hb_entries (root t) = B @ (ky, d) # A"
    and t': "t' = t\<lparr>root := r, hb_count := hb_count t - 1,
                     hb_deleted := (if hb_del_func t then hb_deleted t @ [(ky, d)]
                                    else hb_deleted t)\<rparr>"
    and r: "hb_entries r = B @ A"
    by auto
  from inv have "hb_sorted (hb_cmp_func t) (hb_entries (root t))"
    by (simp add: hb_inv_def hb_bst_sorted [OF sto])
  then have "\<forall>x \<in> set B. hb_cmp_func t (fst x) ky < 0" "\<forall>x \<in> set A. hb_cmp_func t ky (fst x) < 0"
    unfolding es by (auto simp add: hb_sorted_append hb_sorted_Cons)
  from hb_between_distinct [OF sto this] r have "ky \<notin> hb_keys r"
    by (auto simp add: hb_keys_entries)
  with sto t' show ?thesis
    unfolding hb_tree_search_def by (simp add: hb_search_absent)
qed

subsection \<open>The skip list\<close>

lemma sl_between_distinct:
  assumes sto: "strict_total_order c"
    and lo: "\<forall>a \<in> set lo. 0 < c ky (f a)" and hi: "\<forall>a \<in> set hi. c ky (f a) < 0"
  shows "\<forall>a \<in> set (lo @ hi). f a \<noteq> ky"
  using lo hi cmp_irrefl [OF sto, of ky] by (auto simp add: cmp_flip [OF sto])

lemma skiplist_insert_success:
  assumes inv: "sl_inv l ns" and sto: "strict_total_order (cmp_func l)"
    and fresh: "\<forall>x. alloc = Some x \<longrightarrow> heap l x = None"
    and ins: "skiplist_insert l ky dt ow alloc = Inr (0, l')"
  shows "skiplist_search l' ky = Inr dt"
proof -
  from sl_split [OF inv sto, of ky]
  obtain lo hi where lo: "\<forall>a \<in> set lo. 0 < cmp_func l ky (sl_key (heap l) a)"
    and hi: "\<forall>a \<in> set hi. cmp_func l ky (sl_key (heap l) a) < 0"
    and sp: "ns = lo @ hi \<or> (\<exists>t. ns = lo @ t # hi \<and> sl_key (heap l) t = ky)"
    by blast
  from sp show ?thesis
  proof
    assume ns: "ns = lo @ hi"
    note inv' = inv [unfolded ns]
    show ?thesis
    proof (cases "2 \<le> max_link l")
      case False
      from skiplist_insert_one_level [OF inv' lo hi False,
          where dt = dt and ow = ow and alloc = alloc] ins show ?thesis
        by simp
    next
      case True
      show ?thesis
      proof (cases alloc)
        case None
        from skiplist_insert_no_memory [OF inv' lo hi True,
            where dt = dt and ow = ow] ins None show ?thesis
          by simp
      next
        case (Some x)
        with fresh have "heap l x = None" by simp
        from skiplist_insert_absent [OF inv' sto lo hi this True,
            where dt = dt and ow = ow] ins Some
        have i: "sl_inv l' (lo @ x # hi)" and k: "sl_key (heap l') x = ky"
          and d: "sl_datum (heap l') x = dt" and c: "cmp_func l' = cmp_func l"
          by auto
        from skiplist_search_present [OF i _ _ k] sto c d show ?thesis by simp
      qed
    qed
  next
    assume "\<exists>t. ns = lo @ t # hi \<and> sl_key (heap l) t = ky"
    then obtain t where ns: "ns = lo @ t # hi" and t: "sl_key (heap l) t = ky" by blast
    from skiplist_insert_present [OF inv [unfolded ns] sto lo hi t,
        where dt = dt and ow = ow and alloc = alloc] ins
    have i: "sl_inv l' (lo @ t # hi)" and k: "sl_key (heap l') t = ky"
      and d: "sl_datum (heap l') t = dt" and c: "cmp_func l' = cmp_func l"
      by (auto split: if_splits)
    from skiplist_search_present [OF i _ _ k] sto c d show ?thesis by simp
  qed
qed

lemma skiplist_overwrite_present:
  assumes inv: "sl_inv l ns" and sto: "strict_total_order (cmp_func l)"
    and mem: "(ky, d) \<in> set (sl_entries (heap l) ns)"
  shows "\<exists>l'. skiplist_insert l ky dt True alloc = Inr (0, l') \<and> skiplist_search l' ky = Inr dt \<and>
           deleted l' = (if del_func l then deleted l @ [(ky, d)] else deleted l)"
proof -
  from mem obtain a where a: "a \<in> set ns" "sl_key (heap l) a = ky" "sl_datum (heap l) a = d"
    by (auto simp add: sl_entries_def)
  from sl_split [OF inv sto, of ky]
  obtain lo hi where lo: "\<forall>a \<in> set lo. 0 < cmp_func l ky (sl_key (heap l) a)"
    and hi: "\<forall>a \<in> set hi. cmp_func l ky (sl_key (heap l) a) < 0"
    and sp: "ns = lo @ hi \<or> (\<exists>t. ns = lo @ t # hi \<and> sl_key (heap l) t = ky)"
    by blast
  note ne = sl_between_distinct [OF sto lo hi]
  from sp show ?thesis
  proof
    assume "ns = lo @ hi"
    with a ne show ?thesis by auto
  next
    assume "\<exists>t. ns = lo @ t # hi \<and> sl_key (heap l) t = ky"
    then obtain t where ns: "ns = lo @ t # hi" and t: "sl_key (heap l) t = ky" by blast
    from a ne ns have at: "a = t" by auto
    from skiplist_insert_present [OF inv [unfolded ns] sto lo hi t,
        where dt = dt and ow = True and alloc = alloc]
    obtain l' where r: "skiplist_insert l ky dt True alloc = Inr (0, l')"
      and i: "sl_inv l' (lo @ t # hi)" and k: "sl_key (heap l') t = ky"
      and dd: "sl_datum (heap l') t = dt" and c: "cmp_func l' = cmp_func l"
      and lg: "deleted l' = (if del_func l then deleted l @ [(ky, sl_datum (heap l) t)]
                             else deleted l)"
      by auto
    from skiplist_search_present [OF i _ _ k] sto c dd
    have "skiplist_search l' ky = Inr dt" by simp
    with r lg a at show ?thesis by auto
  qed
qed

lemma skiplist_remove_success:
  assumes inv: "sl_inv l ns" and sto: "strict_total_order (cmp_func l)"
    and rm: "skiplist_remove l ky = Inr (True, l')"
  shows "skiplist_search l' ky = Inr None"
proof -
  from sl_split [OF inv sto, of ky]
  obtain lo hi where lo: "\<forall>a \<in> set lo. 0 < cmp_func l ky (sl_key (heap l) a)"
    and hi: "\<forall>a \<in> set hi. cmp_func l ky (sl_key (heap l) a) < 0"
    and sp: "ns = lo @ hi \<or> (\<exists>t. ns = lo @ t # hi \<and> sl_key (heap l) t = ky)"
    by blast
  note ne = sl_between_distinct [OF sto lo hi]
  from sp show ?thesis
  proof
    assume ns: "ns = lo @ hi"
    from skiplist_remove_absent [OF inv [unfolded ns] lo hi] rm show ?thesis by simp
  next
    assume "\<exists>t. ns = lo @ t # hi \<and> sl_key (heap l) t = ky"
    then obtain t where ns: "ns = lo @ t # hi" and t: "sl_key (heap l) t = ky" by blast
    from inv ns have tn: "t \<notin> set (lo @ hi)" by (simp add: sl_inv_def)
    from skiplist_remove_present [OF inv [unfolded ns] sto lo hi t] rm
    have i: "sl_inv l' (lo @ hi)" and c: "cmp_func l' = cmp_func l"
      and same: "\<forall>a. a \<noteq> t \<longrightarrow> sl_key (heap l') a = sl_key (heap l) a"
      by auto
    have "\<forall>a \<in> set (lo @ hi). sl_key (heap l') a \<noteq> ky"
    proof
      fix a assume a: "a \<in> set (lo @ hi)"
      with tn have "a \<noteq> t" by auto
      with same a ne show "sl_key (heap l') a \<noteq> ky" by simp
    qed
    from skiplist_search_absent [OF i _ this] sto c show ?thesis by simp
  qed
qed

section \<open>Search, round trips and traversal (claims C5, C6 and C9)\<close>

text \<open>A tree and a skip list that hold the key 1 with the datum 10 and the key 2 with
  the null datum.\<close>

definition sample_tree :: "(int, int) hb_tree" where
  "sample_tree =
     \<lparr>root = Node (Node Null 1 (Some 10) 0 Null) 2 None (- 1) Null, hb_count = 2,
      hb_cmp_func = int_cmp, hb_del_func = True, hb_deleted = []\<rparr>"

definition sample_list :: "(int, int) skiplist" where
  "sample_list =
     \<lparr>head = 0, max_link = 8, top_link = 2, cmp_func = int_ptr_cmp, del_func = True,
      count = 2, randgen = 7,
      heap = (\<lambda>_. None)
        (0 \<mapsto> \<lparr>key = None, datum = None, prev = None, link_count = 8,
                link = [Some 1, Some 1, None, None, None, None, None, None]\<rparr>,
         1 \<mapsto> \<lparr>key = Some 1, datum = Some 10, prev = Some 0, link_count = 2,
                link = [Some 2, None]\<rparr>,
         2 \<mapsto> \<lparr>key = Some 2, datum = None, prev = Some 1, link_count = 1, link = [None]\<rparr>),
      deleted = []\<rparr>"

lemma sample_tree_inv: "hb_inv sample_tree"
  by (simp add: hb_inv_def sample_tree_def int_cmp_def)

lemma sample_tree_order: "strict_total_order (hb_cmp_func sample_tree)"
  by (simp add: sample_tree_def strict_total_order_int_cmp)

lemma sample_tree_entries: "hb_entries (root sample_tree) = [(1, Some 10), (2, None)]"
  by (simp add: sample_tree_def)

lemma sample_list_inv: "sl_inv sample_list [1, 2]"
proof -
  have k: "k < 8 \<Longrightarrow> k = 0 \<or> k = 1 \<or> k = 2 \<or> k = 3 \<or> k = 4 \<or> k = 5 \<or> k = 6 \<or> k = 7"
    for k :: nat
    by arith
  show ?thesis
    unfolding sl_inv_def sample_list_def
    by (auto simp add: sl_node_ok_def sl_level_def sl_lc_def sl_key_def load_link_def deref_def
        get_link_def int_ptr_cmp_def MAX_LINK_def dest!: k)
qed

lemma sample_list_order: "strict_total_order (cmp_func sample_list)"
  by (simp add: sample_list_def strict_total_order_int_ptr_cmp)

lemma sample_list_entries:
  "sl_entries (heap sample_list) [1, 2] = [(Some 1, Some 10), (Some 2, None)]"
  by (simp add: sample_list_def sl_entries_def sl_key_def sl_datum_def)

lemma sample_tree_insert:
  "(case hb_tree_insert sample_tree 3 (Some 30) False True of
      Inl e \<Rightarrow> False | Inr (rc, t') \<Rightarrow> rc = 0)"
  by code_simp

lemma sample_tree_remove:
  "(case hb_tree_remove sample_tree 1 of Inl e \<Rightarrow> False | Inr (found, t') \<Rightarrow> found)"
  by code_simp

lemma sample_list_insert:
  "(case skiplist_insert sample_list (Some 3) (Some 30) False (Some 3) of
      Inl e \<Rightarrow> False | Inr (rc, l') \<Rightarrow> rc = 0)"
  by code_simp

lemma sample_list_remove:
  "(case skiplist_remove sample_list (Some 1) of Inl e \<Rightarrow> False | Inr (found, l') \<Rightarrow> found)"
  by code_simp

lemma sample_tree_log: "hb_del_func sample_tree" "hb_deleted sample_tree = []"
  by (simp_all add: sample_tree_def)

lemma sample_list_log: "del_func sample_list" "deleted sample_list = []"
  by (simp_all add: sample_list_def)

text \<open>
  Claim C5. Round trips through a well-formed container of either engine whose
  comparison is a strict total order (for the skip list, \<^verbatim>\<open>MALLOC\<close> answers null or an
  address that is not allocated). When insert of the key with a datum reports
  success (code 0), search of the key returns this datum. When the key is present
  with the datum \<open>v\<close>, insert with overwrite reports success, search then returns the
  new datum, and the cleanup callback, when there is one, has been applied exactly
  once more, to the displaced entry of the key and \<open>v\<close>. When remove of the key
  reports success, search of the key returns the null pointer.
\<close>

theorem insert_search_remove_round_trip:
  assumes "hb_inv t" and "strict_total_order (hb_cmp_func t)"
    and "sl_inv l ns" and "strict_total_order (cmp_func l)"
    and "\<forall>x. sa = Some x \<longrightarrow> heap l x = None"
  shows "(\<forall>t'. hb_tree_insert t k v ow alloc = Inr (0, t') \<longrightarrow> hb_tree_search t' k = v) \<and>
         ((k, v) \<in> set (hb_entries (root t)) \<longrightarrow>
            (\<exists>t'. hb_tree_insert t k w True alloc = Inr (0, t') \<and> hb_tree_search t' k = w \<and>
                  hb_deleted t' = (if hb_del_func t then hb_deleted t @ [(k, v)]
                                   else hb_deleted t))) \<and>
         (\<forall>t'. hb_tree_remove t k = Inr (True, t') \<longrightarrow> hb_tree_search t' k = None) \<and>
         (\<forall>l'. skiplist_insert l sk sv sow sa = Inr (0, l') \<longrightarrow> skiplist_search l' sk = Inr sv) \<and>
         ((sk, sv) \<in> set (sl_entries (heap l) ns) \<longrightarrow>
            (\<exists>l'. skiplist_insert l sk sw True sa = Inr (0, l') \<and>
                  skiplist_search l' sk = Inr sw \<and>
                  deleted l' = (if del_func l then deleted l @ [(sk, sv)] else deleted l))) \<and>
         (\<forall>l'. skiplist_remove l sk = Inr (True, l') \<longrightarrow> skiplist_search l' sk = Inr None)"
proof (intro conjI allI impI)
  fix t' assume "hb_tree_insert t k v ow alloc = Inr (0, t')"
  with assms(1,2) show "hb_tree_search t' k = v" by (rule hb_insert_success)
next
  assume "(k, v) \<in> set (hb_entries (root t))"
  with assms(1,2)
  show "\<exists>t'. hb_tree_insert t k w True alloc = Inr (0, t') \<and> hb_tree_search t' k = w \<and>
         hb_deleted t' = (if hb_del_func t then hb_deleted t @ [(k, v)] else hb_deleted t)"
    by (rule hb_overwrite_present)
next
  fix t' assume "hb_tree_remove t k = Inr (True, t')"
  with assms(1,2) show "hb_tree_search t' k = None" by (rule hb_remove_success)
next
  fix l' assume "skiplist_insert l sk sv sow sa = Inr (0, l')"
  with assms(3,4,5) show "skiplist_search l' sk = Inr sv" by (rule skiplist_insert_success)
next
  assume "(sk, sv) \<in> set (sl_entries (heap l) ns)"
  with assms(3,4)
  show "\<exists>l'. skiplist_insert l sk sw True sa = Inr (0, l') \<and> skiplist_search l' sk = Inr sw \<and>
         deleted l' = (if del_func l then deleted l @ [(sk, sv)] else deleted l)"
    by (rule skiplist_overwrite_present)
next
  fix l' assume "skiplist_remove l sk = Inr (True, l')"
  with assms(3,4) show "skiplist_search l' sk = Inr None" by (rule skiplist_remove_success)
qed

theorem insert_search_remove_round_trip_witness:
  "\<exists>t1 t2 t3 l1 l2 l3.
     hb_tree_insert sample_tree 3 (Some 30) False True = Inr (0, t1) \<and>
     hb_tree_search t1 3 = Some 30 \<and>
     hb_tree_insert sample_tree 1 (Some 11) True True = Inr (0, t2) \<and>
     hb_tree_search t2 1 = Some 11 \<and> hb_deleted t2 = [(1, Some 10)] \<and>
     hb_tree_remove sample_tree 1 = Inr (True, t3) \<and> hb_tree_search t3 1 = None \<and>
     skiplist_insert sample_list (Some 3) (Some 30) False (Some 3) = Inr (0, l1) \<and>
     skiplist_search l1 (Some 3) = Inr (Some 30) \<and>
     skiplist_insert sample_list (Some 1) (Some 11) True (Some 3) = Inr (0, l2) \<and>
     skiplist_search l2 (Some 1) = Inr (Some 11) \<and> deleted l2 = [(Some 1, Some 10)] \<and>
     skiplist_remove sample_list (Some 1) = Inr (True, l3) \<and>
     skiplist_search l3 (Some 1) = Inr None"
proof -
  have fresh: "\<forall>x. Some (3::nat) = Some x \<longrightarrow> heap sample_list x = None"
    by (simp add: sample_list_def)
  note rt = insert_search_remove_round_trip
    [OF sample_tree_inv sample_tree_order sample_list_inv sample_list_order fresh]
  obtain t1 where t1: "hb_tree_insert sample_tree 3 (Some 30) False True = Inr (0, t1)"
    using sample_tree_insert
    by (cases "hb_tree_insert sample_tree 3 (Some 30) False True") auto
  obtain t3 where t3: "hb_tree_remove sample_tree 1 = Inr (True, t3)"
    using sample_tree_remove by (cases "hb_tree_remove sample_tree 1") auto
  obtain l1 where l1: "skiplist_insert sample_list (Some 3) (Some 30) False (Some 3) = Inr (0, l1)"
    using sample_list_insert
    by (cases "skiplist_insert sample_list (Some 3) (Some 30) False (Some 3)") auto
  obtain l3 where l3: "skiplist_remove sample_list (Some 1) = Inr (True, l3)"
    using sample_list_remove by (cases "skiplist_remove sample_list (Some 1)") auto
  from rt [where k = 3 and v = "Some 30" and ow = False and alloc = True and sk = "Some 3"
      and sv = "Some 30" and sow = False] t1 l1
  have a: "hb_tree_search t1 3 = Some 30" "skiplist_search l1 (Some 3) = Inr (Some 30)"
    by blast+
  from rt [where k = 1 and v = "Some 10" and w = "Some 11" and ow = True and alloc = True
      and sk = "Some 1" and sv = "Some 10" and sw = "Some 11" and sow = True] t3 l3
  obtain t2 l2 where "hb_tree_insert sample_tree 1 (Some 11) True True = Inr (0, t2)"
    "hb_tree_search t2 1 = Some 11" "hb_deleted t2 = [(1, Some 10)]"
    "skiplist_insert sample_list (Some 1) (Some 11) True (Some 3) = Inr (0, l2)"
    "skiplist_search l2 (Some 1) = Inr (Some 11)" "deleted l2 = [(Some 1, Some 10)]"
    and "hb_tree_search t3 1 = None" "skiplist_search l3 (Some 1) = Inr None"
    unfolding sample_tree_entries sample_list_entries
    by (auto simp add: sample_tree_log sample_list_log)
  with t1 t3 l1 l3 a show ?thesis by blast
qed

text \<open>
  Claim C6. Traversal of a well-formed container of either engine whose comparison is
  a strict total order. The entries of the container are in strictly ascending key
  order, so no key occurs twice. Traversal calls the visitor on these entries in this
  order, once each, until the visitor answers stop or the entries are exhausted
  (\<open>visit_entries\<close>), and it returns the number of calls.
\<close>

theorem traverse_visits_in_order:
  assumes "hb_bst (hb_cmp_func t) (root t)" and "strict_total_order (hb_cmp_func t)"
    and "sl_inv l ns" and "strict_total_order (cmp_func l)"
  shows "hb_tree_traverse t (Some visit) s =
           Inr (of_nat (fst (visit_entries visit (hb_entries (root t)) 0 s)),
                snd (visit_entries visit (hb_entries (root t)) 0 s)) \<and>
         hb_sorted (hb_cmp_func t) (hb_entries (root t)) \<and>
         distinct (map fst (hb_entries (root t))) \<and>
         skiplist_traverse l (Some svisit) ss =
           Inr (of_nat (fst (visit_entries svisit (sl_entries (heap l) ns) 0 ss)),
                snd (visit_entries svisit (sl_entries (heap l) ns) 0 ss)) \<and>
         hb_sorted (cmp_func l) (sl_entries (heap l) ns) \<and>
         distinct (map fst (sl_entries (heap l) ns))"
proof -
  from assms(1,2) have s1: "hb_sorted (hb_cmp_func t) (hb_entries (root t))"
    by (simp add: hb_bst_sorted)
  from assms(3) have s2: "hb_sorted (cmp_func l) (sl_entries (heap l) ns)"
    by (simp add: sl_inv_def hb_sorted_def sl_entries_def sorted_wrt_map comp_def)
  from s1 s2 hb_sorted_distinct [OF assms(2) s1] hb_sorted_distinct [OF assms(4) s2]
    hb_tree_traverse_entries [of t visit s] skiplist_traverse_entries [OF assms(3), of svisit ss]
  show ?thesis by simp
qed

theorem traverse_visits_in_order_witness:
  "hb_tree_traverse sample_tree (Some (\<lambda>s k d. (True, s @ [k]))) [] = Inr (2, [1, 2]) \<and>
   hb_tree_traverse sample_tree (Some (\<lambda>s k d. (False, s @ [k]))) [] = Inr (1, [1]) \<and>
   skiplist_traverse sample_list (Some (\<lambda>s k d. (True, s @ [k]))) [] =
     Inr (2, [Some 1, Some 2]) \<and>
   skiplist_traverse sample_list (Some (\<lambda>s k d. (False, s @ [k]))) [] = Inr (1, [Some 1])"
proof -
  have bst: "hb_bst (hb_cmp_func sample_tree) (root sample_tree)"
    using sample_tree_inv by (simp add: hb_inv_def)
  note tr = traverse_visits_in_order [OF bst sample_tree_order sample_list_inv sample_list_order]
  from tr [of "\<lambda>s k d. (True, s @ [k])" "[]" "\<lambda>s k d. (True, s @ [k])" "[]"]
    tr [of "\<lambda>s k d. (False, s @ [k])" "[]" "\<lambda>s k d. (False, s @ [k])" "[]"]
  show ?thesis
    unfolding sample_tree_entries sample_list_entries by simp
qed

text \<open>
  Claim C9. Search in a well-formed container of either engine whose comparison is a
  strict total order returns the null pointer for a key that is not present, and it
  returns the null pointer for a key that is present with the null datum: the answer
  of search does not tell the two apart.
\<close>

theorem search_absent_or_null_datum:
  assumes "hb_bst (hb_cmp_func t) (root t)" and "strict_total_order (hb_cmp_func t)"
    and "sl_inv l ns" and "strict_total_order (cmp_func l)"
  shows "(k \<notin> fst ` set (hb_entries (root t)) \<longrightarrow> hb_tree_search t k = None) \<and>
         ((k, None) \<in> set (hb_entries (root t)) \<longrightarrow> hb_tree_search t k = None) \<and>
         (sk \<notin> fst ` set (sl_entries (heap l) ns) \<longrightarrow> skiplist_search l sk = Inr None) \<and>
         ((sk, None) \<in> set (sl_entries (heap l) ns) \<longrightarrow> skiplist_search l sk = Inr None)"
proof (intro conjI impI)
  assume "k \<notin> fst ` set (hb_entries (root t))"
  then show "hb_tree_search t k = None"
    unfolding hb_tree_search_def using assms(2) by (simp add: hb_search_absent hb_keys_entries)
next
  assume "(k, None) \<in> set (hb_entries (root t))"
  with assms(1,2) show "hb_tree_search t k = None"
    unfolding hb_tree_search_def by (simp add: hb_search_present)
next
  assume "sk \<notin> fst ` set (sl_entries (heap l) ns)"
  then have "\<forall>a \<in> set ns. sl_key (heap l) a \<noteq> sk" by (force simp add: sl_entries_def)
  with assms(3,4) show "skiplist_search l sk = Inr None" by (rule skiplist_search_absent)
next
  assume "(sk, None) \<in> set (sl_entries (heap l) ns)"
  then obtain a where "a \<in> set ns" "sl_key (heap l) a = sk" "sl_datum (heap l) a = None"
    by (auto simp add: sl_entries_def)
  with skiplist_search_present [OF assms(3,4), of a sk] show "skiplist_search l sk = Inr None"
    by simp
qed

theorem search_absent_or_null_datum_witness:
  "hb_tree_search sample_tree 3 = None \<and> hb_tree_search sample_tree 2 = None \<and>
   skiplist_search sample_list (Some 3) = Inr None \<and>
   skiplist_search sample_list (Some 2) = Inr None"
proof -
  have bst: "hb_bst (hb_cmp_func sample_tree) (root sample_tree)"
    using sample_tree_inv by (simp add: hb_inv_def)
  note se = search_absent_or_null_datum
    [OF bst sample_tree_order sample_list_inv sample_list_order]
  from se [of 3 "Some 3"] se [of 2 "Some 2"] show ?thesis
    unfolding sample_tree_entries sample_list_entries by simp
qed

end
